(* ===== verification/Prelude.thy ===== *)
theory Prelude
  imports Main "HOL-Library.Word" "HOL-Library.Char_ord" "HOL-Library.List_Lexorder"
begin

text \<open>
  Shared vocabulary of the development: C strings and machine integers as the server
  uses them, the collections of rewrite rules the component theories extend, and the
  generic lemmas on lists, options and words that more than one component needs.
\<close>

unbundle bit_operations_syntax

named_theorems wf_defs "definitions of the well-formedness invariants"
named_theorems abs_defs "definitions of the abstraction functions"

subsection \<open>Protocol types\<close>

type_synonym CARD8 = "8 word"
type_synonym CARD16 = "16 word"
type_synonym CARD32 = "32 word"
type_synonym XID = "32 word"
type_synonym Atom = nat

text \<open>X protocol error codes (\<^verbatim>\<open>X11/X.h\<close>) that the modelled handlers return.\<close>

datatype xstatus =
    Success | BadRequest | BadValue | BadWindow | BadPixmap | BadAtom | BadCursor
  | BadFont | BadMatch | BadDrawable | BadAccess | BadAlloc | BadColor | BadGC
  | BadIDChoice | BadName | BadLength | BadImplementation

subsection \<open>Bytes and C strings\<close>

text \<open>The numeric value of a byte read through a plain (signed) \<open>char\<close>, and unsigned.\<close>

definition uchar :: "char \<Rightarrow> nat" where
  "uchar c = of_char c"

definition schar :: "char \<Rightarrow> int" where
  "schar c = (let n = int (uchar c) in if n < 128 then n else n - 256)"

definition NUL :: char where
  "NUL = char_of (0::nat)"

definition nul_free :: "string \<Rightarrow> bool" where
  "nul_free s \<longleftrightarrow> NUL \<notin> set s"

text \<open>What a reader of a NUL-terminated C string sees of a buffer.\<close>

definition cstr :: "string \<Rightarrow> string" where
  "cstr s = takeWhile (\<lambda>c. c \<noteq> NUL) s"

text \<open>
  \<open>strncmp s t n\<close> of the C library: at most \<open>n\<close> bytes, compared unsigned, stopping at a
  NUL. A list that is exhausted reads as NUL.
\<close>

fun strncmp :: "string \<Rightarrow> string \<Rightarrow> nat \<Rightarrow> int" where
  "strncmp s t 0 = 0"
| "strncmp s t (Suc n) =
     (let c = (case s of [] \<Rightarrow> NUL | x # _ \<Rightarrow> x); d = (case t of [] \<Rightarrow> NUL | y # _ \<Rightarrow> y)
      in if c \<noteq> d then int (uchar c) - int (uchar d)
         else if c = NUL then 0
         else strncmp (tl s) (tl t) n)"

lemma nul_free_simps [simp]:
  "nul_free []"
  "nul_free (c # s) \<longleftrightarrow> c \<noteq> NUL \<and> nul_free s"
  by (auto simp: nul_free_def)

lemma cstr_nul_free [simp]: "nul_free s \<Longrightarrow> cstr s = s"
  by (auto simp: cstr_def nul_free_def)

lemma nul_free_cstr [simp]: "nul_free (cstr s)"
  by (auto simp: cstr_def nul_free_def dest: set_takeWhileD)

lemma uchar_eq_iff [simp]: "uchar c = uchar d \<longleftrightarrow> c = d"
  by (simp add: uchar_def)

lemma uchar_less_iff [simp]: "uchar c < uchar d \<longleftrightarrow> c < d"
  by (simp add: uchar_def less_char_def)

lemma uchar_NUL [simp]: "uchar NUL = 0"
  by (simp add: uchar_def NUL_def)

lemma NUL_least: "c \<noteq> NUL \<Longrightarrow> NUL < c"
  using uchar_eq_iff [of c NUL] uchar_less_iff [of NUL c] by (simp del: uchar_eq_iff uchar_less_iff)

text \<open>
  On NUL-free strings the three-way test the atom table makes with \<open>strncmp\<close> and the two
  lengths is the lexicographic comparison of the strings.
\<close>

lemma strncmp_Cons:
  "c \<noteq> NUL \<Longrightarrow> strncmp (c # s) (d # t) (Suc n) =
     (if c = d then strncmp s t n else int (uchar c) - int (uchar d))"
  by simp

lemma strncmp_Nil: "c \<noteq> NUL \<Longrightarrow> strncmp (c # s) [] (Suc n) > 0"
  using NUL_least [of c] by (simp flip: uchar_less_iff uchar_eq_iff)

declare strncmp.simps(2) [simp del]

lemma strncmp_less:
  "nul_free s \<Longrightarrow> nul_free t \<Longrightarrow>
   (strncmp s t (length s) < 0 \<or> strncmp s t (length s) = 0 \<and> length s < length t) \<longleftrightarrow> s < t"
proof (induction s arbitrary: t)
  case Nil
  then show ?case by (cases t) auto
next
  case (Cons c s)
  show ?case
  proof (cases t)
    case Nil
    with Cons.prems strncmp_Nil [of c s "length s"] show ?thesis by simp
  next
    case t: (Cons d t')
    show ?thesis
    proof (cases "c = d")
      case True
      with Cons.prems t Cons.IH [of t'] show ?thesis by (simp add: strncmp_Cons)
    next
      case False
      then have "uchar c \<noteq> uchar d" by simp
      with False Cons.prems t show ?thesis
        by (simp add: strncmp_Cons flip: uchar_less_iff del: uchar_eq_iff)
    qed
  qed
qed

lemma strncmp_greater:
  "nul_free s \<Longrightarrow> nul_free t \<Longrightarrow> strncmp s t (length s) > 0 \<longleftrightarrow> t < s"
proof (induction s arbitrary: t)
  case Nil
  then show ?case by simp
next
  case (Cons c s)
  show ?case
  proof (cases t)
    case Nil
    with Cons.prems strncmp_Nil [of c s "length s"] show ?thesis by simp
  next
    case t: (Cons d t')
    with Cons.prems Cons.IH [of t'] show ?thesis
      by (auto simp: strncmp_Cons simp flip: uchar_less_iff)
  qed
qed

subsection \<open>Option-valued array reads\<close>

definition nth_opt :: "'a list \<Rightarrow> nat \<Rightarrow> 'a option" where
  "nth_opt xs i = (if i < length xs then Some (xs ! i) else None)"

lemma nth_opt_simps [simp]:
  "i < length xs \<Longrightarrow> nth_opt xs i = Some (xs ! i)"
  "\<not> i < length xs \<Longrightarrow> nth_opt xs i = None"
  by (auto simp: nth_opt_def)

subsection \<open>Lists\<close>

lemma dropWhile_ConsD: "dropWhile P xs = d # ds \<Longrightarrow> \<not> P d \<and> d \<in> set xs"
  by (induction xs) (auto split: if_splits)

lemma length_filter_mono:
  "\<forall>x \<in> set xs. P x \<longrightarrow> Q x \<Longrightarrow> length (filter P xs) \<le> length (filter Q xs)"
  by (induction xs) auto

lemma sorted_wrt_cases:
  "sorted_wrt R xs \<Longrightarrow> a \<in> set xs \<Longrightarrow> b \<in> set xs \<Longrightarrow> a = b \<or> R a b \<or> R b a"
  by (induction xs) auto

lemma find_SomeD: "find P xs = Some x \<Longrightarrow> x \<in> set xs \<and> P x"
  by (induction xs) (auto split: if_splits)

lemma takeWhile_full: "length (takeWhile P xs) = length xs \<Longrightarrow> x \<in> set xs \<Longrightarrow> P x"
  by (induction xs) (auto split: if_splits)

subsection \<open>Words\<close>

lemma word_le_pred: "0 < (x :: 'a::len word) \<Longrightarrow> y \<le> x - 1 \<longleftrightarrow> y < x"
proof -
  assume x: "0 < x"
  then have "unat (x - 1) = unat x - 1" by (intro unat_minus_one) auto
  moreover have "0 < unat x" using x by (simp add: unat_gt_0)
  ultimately show ?thesis unfolding word_le_nat_alt word_less_nat_alt by linarith
qed

lemma word_succ_unat: "(x :: 'a::len word) < - 1 \<Longrightarrow> unat (x + 1) = unat x + 1"
  using unatSuc [of x] by (metis Suc_eq_plus1 add.commute add_eq_0_iff less_irrefl)

lemma word_succ_pos: "(x :: 'a::len word) < - 1 \<Longrightarrow> 0 < x + 1"
  by (simp add: word_less_nat_alt word_succ_unat)

lemma word_succ_gt: "(x :: 'a::len word) < - 1 \<Longrightarrow> x < x + 1"
  by (simp add: word_less_nat_alt word_succ_unat)

lemma word_succ_le: "(x :: 'a::len word) < - 1 \<Longrightarrow> x + 1 \<le> y \<longleftrightarrow> x < y"
  by (simp add: word_le_nat_alt [of "x + 1"] word_less_nat_alt [of x y] word_succ_unat Suc_le_eq)

end
