(* ===== verification/Atoms.thy ===== *)
theory Atoms
  imports Prelude
begin

text \<open>
  The atom table, \<^verbatim>\<open>programs/Xserver/dix/atom.c\<close> and \<^verbatim>\<open>initatoms.c\<close>: strings are
  interned in a binary search tree keyed by a 32-bit fingerprint and then by the bytes, and
  \<open>nodeTable\<close> maps an atom back to its node. The state below is the file's four static
  variables. Allocation results are an argument of \<open>MakeAtom\<close>.
\<close>

subsection \<open>Data\<close>

datatype NodeRec =
    NullNode
  | Node (left: NodeRec) (right: NodeRec) (atom_of: Atom) (fingerPrint: CARD32) (str_of: string)

record atom_state =
  lastAtom :: Atom
  atomRoot :: NodeRec
  tableLength :: nat
  nodeTable :: "string option list"

text \<open>Which of the three allocations of \<open>MakeAtom\<close> succeed: the node, the string, the table.\<close>

record atom_alloc =
  node_ok :: bool
  string_ok :: bool
  table_ok :: bool

definition XA_LAST_PREDEFINED :: Atom where "XA_LAST_PREDEFINED = 68"
definition BAD_RESOURCE :: Atom where "BAD_RESOURCE = 0xe0000000"
definition InitialTableSize :: nat where "InitialTableSize = 100"

subsection \<open>Operations\<close>

definition fp_step :: "string \<Rightarrow> nat \<Rightarrow> CARD32 \<Rightarrow> CARD32" where
  "fp_step s i fp =
     (let fp1 = fp * 27 + word_of_int (schar (s ! i))
      in fp1 * 27 + word_of_int (schar (s ! (length s - 1 - i))))"

definition fingerprint :: "string \<Rightarrow> CARD32" where
  "fingerprint s = fold (fp_step s) [0..<(length s + 1) div 2] 0"

text \<open>
  The search loop of \<open>MakeAtom\<close>. The pointer \<open>np\<close> to the link under inspection is the path
  from the root: a hit returns the atom, a miss the path of the NULL link it ends at.
\<close>

datatype dir = GoLeft | GoRight

fun turn :: "dir \<Rightarrow> Atom + dir list \<Rightarrow> Atom + dir list" where
  "turn d (Inl a) = Inl a"
| "turn d (Inr p) = Inr (d # p)"

fun search :: "CARD32 \<Rightarrow> string \<Rightarrow> NodeRec \<Rightarrow> Atom + dir list" where
  "search fp s NullNode = Inr []"
| "search fp s (Node l r a f t) =
     (if fp < f then turn GoLeft (search fp s l)
      else if fp > f then turn GoRight (search fp s r)
      else (let comp = strncmp s t (length s)
            in if comp < 0 \<or> comp = 0 \<and> length s < length t
               then turn GoLeft (search fp s l)
               else if comp > 0 then turn GoRight (search fp s r)
               else Inl a))"

text \<open>The assignment \<open>*np = nd\<close> through the link found by the search.\<close>

fun plant :: "dir list \<Rightarrow> NodeRec \<Rightarrow> NodeRec \<Rightarrow> NodeRec" where
  "plant (GoLeft # p) nd (Node l r a f t) = Node (plant p nd l) r a f t"
| "plant (GoRight # p) nd (Node l r a f t) = Node l (plant p nd r) a f t"
| "plant _ nd _ = nd"

definition MakeAtom :: "atom_alloc \<Rightarrow> string \<Rightarrow> bool \<Rightarrow> atom_state \<Rightarrow> Atom \<times> atom_state" where
  "MakeAtom al s makeit st =
     (case search (fingerprint s) s (atomRoot st) of
        Inl a \<Rightarrow> (a, st)
      | Inr np \<Rightarrow>
          if \<not> makeit then (0, st)
          else if \<not> node_ok al then (BAD_RESOURCE, st)
          else if \<not> lastAtom st < XA_LAST_PREDEFINED \<and> \<not> string_ok al then (BAD_RESOURCE, st)
          else if lastAtom st + 1 \<ge> tableLength st \<and> \<not> table_ok al then (BAD_RESOURCE, st)
          else
            (let st1 = (if lastAtom st + 1 \<ge> tableLength st
                        then st\<lparr>tableLength := 2 * tableLength st,
                                nodeTable := nodeTable st @ replicate (tableLength st) None\<rparr>
                        else st);
                 a = lastAtom st1 + 1
             in (a, st1\<lparr>atomRoot := plant np (Node NullNode NullNode a (fingerprint s) (cstr s))
                                       (atomRoot st1),
                        lastAtom := a,
                        nodeTable := (nodeTable st1)[a := Some (cstr s)]\<rparr>)))"

definition ValidAtom :: "atom_state \<Rightarrow> Atom \<Rightarrow> bool" where
  "ValidAtom st atom \<longleftrightarrow> atom \<noteq> 0 \<and> atom \<le> lastAtom st"

definition NameForAtom :: "atom_state \<Rightarrow> Atom \<Rightarrow> string option" where
  "NameForAtom st atom =
     (if atom > lastAtom st then None
      else case nth_opt (nodeTable st) atom of
             Some (Some s) \<Rightarrow> Some s
           | _ \<Rightarrow> None)"

text \<open>
  \<open>FreeAtom\<close> releases the tree bottom up; the model returns the atoms whose string is
  released with them (those above the predefined ones), in the order of the \<open>xfree\<close> calls.
\<close>

fun FreeAtom :: "NodeRec \<Rightarrow> (Atom \<times> bool) list" where
  "FreeAtom NullNode = []"
| "FreeAtom (Node l r a f t) = FreeAtom l @ FreeAtom r @ [(a, a > XA_LAST_PREDEFINED)]"

definition FreeAllAtoms :: "atom_state \<Rightarrow> (Atom \<times> bool) list \<times> atom_state" where
  "FreeAllAtoms st =
     (if atomRoot st = NullNode then ([], st)
      else (FreeAtom (atomRoot st),
            st\<lparr>atomRoot := NullNode, nodeTable := [], lastAtom := 0\<rparr>))"

definition predeclared :: "string list" where
  "predeclared =
    [''PRIMARY'', ''SECONDARY'', ''ARC'', ''ATOM'', ''BITMAP'', ''CARDINAL'', ''COLORMAP'',
     ''CURSOR'', ''CUT_BUFFER0'', ''CUT_BUFFER1'', ''CUT_BUFFER2'', ''CUT_BUFFER3'',
     ''CUT_BUFFER4'', ''CUT_BUFFER5'', ''CUT_BUFFER6'', ''CUT_BUFFER7'', ''DRAWABLE'', ''FONT'',
     ''INTEGER'', ''PIXMAP'', ''POINT'', ''RECTANGLE'', ''RESOURCE_MANAGER'', ''RGB_COLOR_MAP'',
     ''RGB_BEST_MAP'', ''RGB_BLUE_MAP'', ''RGB_DEFAULT_MAP'', ''RGB_GRAY_MAP'',
     ''RGB_GREEN_MAP'', ''RGB_RED_MAP'', ''STRING'', ''VISUALID'', ''WINDOW'', ''WM_COMMAND'',
     ''WM_HINTS'', ''WM_CLIENT_MACHINE'', ''WM_ICON_NAME'', ''WM_ICON_SIZE'', ''WM_NAME'',
     ''WM_NORMAL_HINTS'', ''WM_SIZE_HINTS'', ''WM_ZOOM_HINTS'', ''MIN_SPACE'', ''NORM_SPACE'',
     ''MAX_SPACE'', ''END_SPACE'', ''SUPERSCRIPT_X'', ''SUPERSCRIPT_Y'', ''SUBSCRIPT_X'',
     ''SUBSCRIPT_Y'', ''UNDERLINE_POSITION'', ''UNDERLINE_THICKNESS'', ''STRIKEOUT_ASCENT'',
     ''STRIKEOUT_DESCENT'', ''ITALIC_ANGLE'', ''X_HEIGHT'', ''QUAD_WIDTH'', ''WEIGHT'',
     ''POINT_SIZE'', ''RESOLUTION'', ''COPYRIGHT'', ''NOTICE'', ''FONT_NAME'', ''FAMILY_NAME'',
     ''FULL_NAME'', ''CAP_HEIGHT'', ''WM_CLASS'', ''WM_TRANSIENT_FOR'']"

text \<open>
  \<open>MakePredeclaredAtoms\<close> interns the names in this order and calls \<open>AtomError\<close> (a fatal
  error, the value \<open>None\<close> here) when one does not get its protocol number.
\<close>

fun MakePredeclared :: "atom_alloc \<Rightarrow> string list \<Rightarrow> Atom \<Rightarrow> atom_state \<Rightarrow> atom_state option" where
  "MakePredeclared al [] n st = Some st"
| "MakePredeclared al (s # ss) n st =
     (case MakeAtom al s True st of
        (a, st') \<Rightarrow> if a \<noteq> n then None else MakePredeclared al ss (n + 1) st')"

definition MakePredeclaredAtoms :: "atom_alloc \<Rightarrow> atom_state \<Rightarrow> atom_state option" where
  "MakePredeclaredAtoms al st = MakePredeclared al predeclared 1 st"

definition InitAtoms :: "atom_alloc \<Rightarrow> atom_state \<Rightarrow> atom_state option" where
  "InitAtoms al st =
     (let st1 = (snd (FreeAllAtoms st))\<lparr>tableLength := InitialTableSize\<rparr>
      in if \<not> table_ok al then None
         else case MakePredeclaredAtoms al
                     (st1\<lparr>nodeTable := replicate InitialTableSize None\<rparr>) of
                None \<Rightarrow> None
              | Some st2 \<Rightarrow> if lastAtom st2 \<noteq> XA_LAST_PREDEFINED then None else Some st2)"

subsection \<open>The order of the tree\<close>

text \<open>
  Nodes are ordered by fingerprint and then by string, a linear order on the keys.
\<close>

datatype atom_key = AtomKey (key_fp: CARD32) (key_name: string)

instantiation atom_key :: linorder
begin

definition less_eq_atom_key :: "atom_key \<Rightarrow> atom_key \<Rightarrow> bool" where
  "less_eq_atom_key k k' \<longleftrightarrow> key_fp k < key_fp k' \<or> key_fp k = key_fp k' \<and> key_name k \<le> key_name k'"

definition less_atom_key :: "atom_key \<Rightarrow> atom_key \<Rightarrow> bool" where
  "less_atom_key k k' \<longleftrightarrow> key_fp k < key_fp k' \<or> key_fp k = key_fp k' \<and> key_name k < key_name k'"

instance
  by standard (auto simp: less_eq_atom_key_def less_atom_key_def atom_key.expand)

end

lemma AtomKey_less [simp]:
  "AtomKey f s < AtomKey f' s' \<longleftrightarrow> f < f' \<or> f = f' \<and> s < s'"
  by (simp add: less_atom_key_def)

fun inorder :: "NodeRec \<Rightarrow> (Atom \<times> CARD32 \<times> string) list" where
  "inorder NullNode = []"
| "inorder (Node l r a f t) = inorder l @ (a, f, t) # inorder r"

definition keys :: "NodeRec \<Rightarrow> atom_key list" where
  "keys n = map (\<lambda>(a, f, t). AtomKey f t) (inorder n)"

definition bst :: "NodeRec \<Rightarrow> bool" where
  "bst n \<longleftrightarrow> sorted_wrt (<) (keys n) \<and> (\<forall>(a, f, t) \<in> set (inorder n). nul_free t)"

lemma keys_simps [simp]:
  "keys NullNode = []"
  "keys (Node l r a f t) = keys l @ AtomKey f t # keys r"
  by (simp_all add: keys_def)

lemma bst_Node:
  "bst (Node l r a f t) \<longleftrightarrow>
     bst l \<and> bst r \<and> nul_free t \<and> (\<forall>k \<in> set (keys l). k < AtomKey f t) \<and>
     (\<forall>k \<in> set (keys r). AtomKey f t < k)"
proof -
  have "sorted_wrt (<) (keys (Node l r a f t)) \<longleftrightarrow>
      sorted_wrt (<) (keys l) \<and> sorted_wrt (<) (keys r) \<and>
      (\<forall>k \<in> set (keys l). k < AtomKey f t) \<and> (\<forall>k \<in> set (keys r). AtomKey f t < k)"
    unfolding keys_simps sorted_wrt_append sorted_wrt.simps
    by (simp only: list.set ball_simps insert_iff Un_iff set_append) (meson less_trans)
  then show ?thesis
    by (auto simp: bst_def ball_Un)
qed

lemma bst_Null [simp]: "bst NullNode"
  by (simp add: bst_def)

text \<open>The three-way test of the search loop is the comparison of the keys.\<close>

lemma turn_eq [simp]:
  "turn d x = Inl a \<longleftrightarrow> x = Inl a"
  "turn d x = Inr p \<longleftrightarrow> (\<exists>q. x = Inr q \<and> p = d # q)"
  by (cases x; auto)+

lemma search_Node:
  assumes "nul_free s" "nul_free t"
  shows "search fp s (Node l r a f t) =
    (if AtomKey fp s < AtomKey f t then turn GoLeft (search fp s l)
     else if AtomKey f t < AtomKey fp s then turn GoRight (search fp s r)
     else Inl a)"
proof (cases "fp = f")
  case True
  show ?thesis
    unfolding search.simps(2) Let_def strncmp_less [OF assms] strncmp_greater [OF assms]
    using True by simp
next
  case False
  then show ?thesis
    by (cases "fp < f") (auto simp: not_less_iff_gr_or_eq dest: less_not_sym)
qed

declare search.simps(2) [simp del]

lemma search_found:
  "bst n \<Longrightarrow> nul_free s \<Longrightarrow> search fp s n = Inl a \<Longrightarrow> (a, fp, s) \<in> set (inorder n)"
proof (induction n)
  case (Node l r b f t)
  then show ?case
    by (auto simp: search_Node bst_Node not_less split: if_splits)
qed simp

lemma search_missing:
  "bst n \<Longrightarrow> nul_free s \<Longrightarrow> search fp s n = Inr p \<Longrightarrow> AtomKey fp s \<notin> set (keys n)"
proof (induction n arbitrary: p)
  case (Node l r b f t)
  then show ?case
    by (fastforce simp: search_Node bst_Node split: if_splits)
qed simp

text \<open>Planting the new node at the link where the search ended keeps the order.\<close>

lemma plant_inorder:
  "bst n \<Longrightarrow> nul_free s \<Longrightarrow> search fp s n = Inr p \<Longrightarrow>
   set (inorder (plant p (Node NullNode NullNode a fp s) n)) = insert (a, fp, s) (set (inorder n))"
proof (induction n arbitrary: p)
  case (Node l r b f t)
  then show ?case
    by (auto simp: search_Node bst_Node split: if_splits)
qed simp

lemma set_keys: "set (keys n) = (\<lambda>(a, f, t). AtomKey f t) ` set (inorder n)"
  by (simp add: keys_def)

lemma plant_bst:
  "bst n \<Longrightarrow> nul_free s \<Longrightarrow> search fp s n = Inr p \<Longrightarrow>
   bst (plant p (Node NullNode NullNode a fp s) n)"
proof (induction n arbitrary: p)
  case (Node l r b f t)
  then show ?case
    by (auto simp: search_Node bst_Node set_keys plant_inorder split: if_splits)
qed (simp add: bst_Node)

subsection \<open>Invariant and abstraction\<close>

text \<open>
  The table holds the atoms \<open>1..lastAtom\<close>, the tree holds the same pairs of atom and name
  with the fingerprint of the name, and its keys are strictly ordered.
\<close>

definition atom_names :: "atom_state \<Rightarrow> string list" where
  "atom_names st = map (\<lambda>i. the (nodeTable st ! i)) [1..<Suc (lastAtom st)]"

definition atom_wf :: "atom_state \<Rightarrow> bool" where
  "atom_wf st \<longleftrightarrow>
     lastAtom st < tableLength st \<and> length (nodeTable st) = tableLength st \<and>
     nodeTable st ! 0 = None \<and>
     (\<forall>i. 1 \<le> i \<and> i \<le> lastAtom st \<longrightarrow> (\<exists>s. nodeTable st ! i = Some s \<and> nul_free s)) \<and>
     bst (atomRoot st) \<and>
     set (inorder (atomRoot st)) =
       {(i, fingerprint s, s) | i s. 1 \<le> i \<and> i \<le> lastAtom st \<and> nodeTable st ! i = Some s}"

text \<open>The specification: names are numbered from 1 in the order they are first interned.\<close>

fun position :: "string \<Rightarrow> string list \<Rightarrow> nat option" where
  "position s [] = None"
| "position s (t # ts) = (if s = t then Some 0 else map_option Suc (position s ts))"

definition intern :: "string list \<Rightarrow> string \<Rightarrow> Atom \<times> string list" where
  "intern names s =
     (case position s names of Some i \<Rightarrow> (Suc i, names) | None \<Rightarrow> (Suc (length names), names @ [s]))"

lemma position_Some:
  "position s names = Some i \<Longrightarrow> i < length names \<and> names ! i = s \<and> (\<forall>j<i. names ! j \<noteq> s)"
proof (induction names arbitrary: i)
  case (Cons t ts)
  then show ?case
    by (auto simp: nth_Cons split: if_splits nat.splits)
qed simp

lemma position_None: "position s names = None \<longleftrightarrow> s \<notin> set names"
  by (induction names) auto

lemma position_append: "s \<notin> set names \<Longrightarrow> position s (names @ [s]) = Some (length names)"
  by (induction names) auto

lemma position_distinct:
  "distinct names \<Longrightarrow> i < length names \<Longrightarrow> position (names ! i) names = Some i"
proof (induction names arbitrary: i)
  case (Cons t ts)
  then show ?case by (cases i) auto
qed simp

lemma length_atom_names [simp]: "length (atom_names st) = lastAtom st"
  by (simp add: atom_names_def)

lemma nth_atom_names [simp]:
  "i < lastAtom st \<Longrightarrow> atom_names st ! i = the (nodeTable st ! Suc i)"
  by (simp add: atom_names_def nth_upt del: upt_Suc)

lemma atom_wfD:
  assumes "atom_wf st"
  shows "lastAtom st < tableLength st" "length (nodeTable st) = tableLength st"
    "bst (atomRoot st)"
    "1 \<le> i \<Longrightarrow> i \<le> lastAtom st \<Longrightarrow> \<exists>s. nodeTable st ! i = Some s \<and> nul_free s"
    "(i, f, s) \<in> set (inorder (atomRoot st)) \<longleftrightarrow>
       f = fingerprint s \<and> 1 \<le> i \<and> i \<le> lastAtom st \<and> nodeTable st ! i = Some s"
  using assms by (auto simp: atom_wf_def)

lemma bst_unique:
  assumes "bst n" "(a, f, s) \<in> set (inorder n)" "(b, f, s) \<in> set (inorder n)"
  shows "a = b"
proof -
  have "distinct (keys n)"
    using assms(1) by (simp add: bst_def strict_sorted_iff)
  then have "inj_on (\<lambda>(a, f, t). AtomKey f t) (set (inorder n))"
    by (simp add: keys_def distinct_map)
  from inj_onD [OF this _ assms(2,3)] show ?thesis by simp
qed

lemma atom_names_distinct:
  assumes "atom_wf st"
  shows "distinct (atom_names st)"
proof (rule distinct_conv_nth [THEN iffD2], intro allI impI)
  fix i j assume ij: "i < length (atom_names st)" "j < length (atom_names st)" "i \<noteq> j"
  then obtain s t where st: "nodeTable st ! Suc i = Some s" "nodeTable st ! Suc j = Some t"
    using atom_wfD(4) [OF assms, of "Suc i"] atom_wfD(4) [OF assms, of "Suc j"] by auto
  have "s \<noteq> t"
  proof
    assume "s = t"
    with st ij have "(Suc i, fingerprint s, s) \<in> set (inorder (atomRoot st))"
      "(Suc j, fingerprint s, s) \<in> set (inorder (atomRoot st))"
      by (simp_all add: atom_wfD [OF assms])
    with bst_unique [OF atom_wfD(3) [OF assms]] ij(3) show False by blast
  qed
  with st ij show "atom_names st ! i \<noteq> atom_names st ! j" by simp
qed

lemma in_atom_names:
  assumes "atom_wf st"
  shows "s \<in> set (atom_names st) \<longleftrightarrow> (\<exists>i f. (i, f, s) \<in> set (inorder (atomRoot st)))"
proof -
  have "s \<in> set (atom_names st) \<longleftrightarrow> (\<exists>i\<in>{1..<Suc (lastAtom st)}. s = the (nodeTable st ! i))"
    by (auto simp: atom_names_def simp del: upt_Suc)
  also have "\<dots> \<longleftrightarrow> (\<exists>i. 1 \<le> i \<and> i \<le> lastAtom st \<and> nodeTable st ! i = Some s)"
    using atom_wfD(4) [OF assms] by (metis Suc_le_eq atLeastLessThan_iff less_Suc_eq_le option.sel)
  finally show ?thesis by (simp add: atom_wfD(5) [OF assms])
qed

subsection \<open>Every operation refines the specification\<close>

definition all_ok :: atom_alloc where
  "all_ok = \<lparr>node_ok = True, string_ok = True, table_ok = True\<rparr>"

lemma search_spec:
  assumes wf: "atom_wf st" and nf: "nul_free s"
  shows "search (fingerprint s) s (atomRoot st) = Inl a \<Longrightarrow> position s (atom_names st) = Some (a - 1) \<and> 1 \<le> a \<and> a \<le> lastAtom st"
    and "search (fingerprint s) s (atomRoot st) = Inr np \<Longrightarrow> position s (atom_names st) = None"
proof -
  note bst = atom_wfD(3) [OF wf]
  {
    assume "search (fingerprint s) s (atomRoot st) = Inl a"
    then have "(a, fingerprint s, s) \<in> set (inorder (atomRoot st))"
      by (rule search_found [OF bst nf])
    then have a: "1 \<le> a" "a \<le> lastAtom st" "nodeTable st ! a = Some s"
      by (simp_all add: atom_wfD(5) [OF wf])
    then have "atom_names st ! (a - 1) = s" "a - 1 < length (atom_names st)"
      by simp_all
    with position_distinct [OF atom_names_distinct [OF wf]] a
    show "position s (atom_names st) = Some (a - 1) \<and> 1 \<le> a \<and> a \<le> lastAtom st" by blast
  next
    assume "search (fingerprint s) s (atomRoot st) = Inr np"
    then have "AtomKey (fingerprint s) s \<notin> set (keys (atomRoot st))"
      by (rule search_missing [OF bst nf])
    then have "(i, f, s) \<notin> set (inorder (atomRoot st))" for i f
      using atom_wfD(5) [OF wf, of i f s] by (force simp: set_keys)
    then show "position s (atom_names st) = None"
      by (simp add: position_None in_atom_names [OF wf])
  }
qed

text \<open>What one successful insertion does to the state.\<close>

definition grow :: "atom_state \<Rightarrow> atom_state" where
  "grow st = (if lastAtom st + 1 \<ge> tableLength st
              then st\<lparr>tableLength := 2 * tableLength st,
                      nodeTable := nodeTable st @ replicate (tableLength st) None\<rparr>
              else st)"

lemma grow_wf:
  assumes "atom_wf st"
  shows "atom_wf (grow st)" "atom_names (grow st) = atom_names st"
    "lastAtom (grow st) = lastAtom st" "atomRoot (grow st) = atomRoot st"
    "lastAtom st + 1 < tableLength (grow st)"
proof -
  have app: "(nodeTable st @ xs) ! i = nodeTable st ! i" if "i \<le> lastAtom st" for i xs
    using atom_wfD(1,2) [OF assms] that by (simp add: nth_append)
  show "atom_wf (grow st)"
    using assms app unfolding atom_wf_def grow_def by (auto simp: app)
  show "atom_names (grow st) = atom_names st"
    using app by (simp add: grow_def atom_names_def del: upt_Suc)
  show "lastAtom st + 1 < tableLength (grow st)"
    using atom_wfD(1) [OF assms] by (simp add: grow_def)
qed (simp_all add: grow_def)

definition enter :: "dir list \<Rightarrow> string \<Rightarrow> atom_state \<Rightarrow> atom_state" where
  "enter np s st = st\<lparr>atomRoot := plant np (Node NullNode NullNode (lastAtom st + 1) (fingerprint s) s)
                                  (atomRoot st),
                     lastAtom := lastAtom st + 1,
                     nodeTable := (nodeTable st)[lastAtom st + 1 := Some s]\<rparr>"

lemma enter_wf:
  assumes wf: "atom_wf st" and nf: "nul_free s" and room: "lastAtom st + 1 < tableLength st"
    and miss: "search (fingerprint s) s (atomRoot st) = Inr np"
  shows "atom_wf (enter np s st)" "atom_names (enter np s st) = atom_names st @ [s]"
proof -
  note bst = atom_wfD(3) [OF wf]
  have len: "length (nodeTable st) = tableLength st" by (rule atom_wfD(2) [OF wf])
  let ?n = "Suc (lastAtom st)"
  have tab: "nodeTable (enter np s st) ! i = (if i = ?n then Some s else nodeTable st ! i)"
    if "i < tableLength st" for i
    using that len by (simp add: enter_def nth_list_update)
  have ino: "set (inorder (atomRoot (enter np s st))) =
      insert (?n, fingerprint s, s) (set (inorder (atomRoot st)))"
    using plant_inorder [OF bst nf miss] by (simp add: enter_def)
  have "set (inorder (atomRoot (enter np s st))) =
      {(i, fingerprint t, t) | i t. 1 \<le> i \<and> i \<le> ?n \<and> nodeTable (enter np s st) ! i = Some t}"
    unfolding ino using atom_wfD(5) [OF wf] room by (auto simp: tab le_Suc_eq)
  moreover have "bst (atomRoot (enter np s st))"
    using plant_bst [OF bst nf miss] by (simp add: enter_def)
  moreover have "nodeTable (enter np s st) ! 0 = None"
    using wf room by (simp add: tab atom_wf_def)
  moreover have "\<exists>t. nodeTable (enter np s st) ! i = Some t \<and> nul_free t"
    if "1 \<le> i" "i \<le> ?n" for i
    using that room nf atom_wfD(4) [OF wf, of i] by (auto simp: tab le_Suc_eq)
  ultimately show "atom_wf (enter np s st)"
    using room len unfolding atom_wf_def by (simp add: enter_def)
  show "atom_names (enter np s st) = atom_names st @ [s]"
  proof -
    have "lastAtom (enter np s st) = ?n" by (simp add: enter_def)
    then have "atom_names (enter np s st) =
        map (\<lambda>i. the (nodeTable (enter np s st) ! i)) ([1..<?n] @ [?n])"
      by (simp add: atom_names_def)
    also have "\<dots> = atom_names st @ [s]"
      using room by (auto simp: atom_names_def tab simp del: upt_Suc)
    finally show ?thesis .
  qed
qed

lemma MakeAtom_unfold:
  "nul_free s \<Longrightarrow> MakeAtom al s makeit st =
     (case search (fingerprint s) s (atomRoot st) of
        Inl a \<Rightarrow> (a, st)
      | Inr np \<Rightarrow>
          if \<not> makeit then (0, st)
          else if \<not> node_ok al \<or> \<not> lastAtom st < XA_LAST_PREDEFINED \<and> \<not> string_ok al
            \<or> lastAtom st + 1 \<ge> tableLength st \<and> \<not> table_ok al then (BAD_RESOURCE, st)
          else (lastAtom st + 1, enter np s (grow st)))"
  by (simp add: MakeAtom_def enter_def grow_def Let_def split: sum.split)

lemma MakeAtom_cases:
  assumes "atom_wf st" "nul_free s"
  obtains (found) i where "position s (atom_names st) = Some i" "MakeAtom al s makeit st = (Suc i, st)"
      "i < lastAtom st"
  | (absent) "position s (atom_names st) = None" "\<not> makeit" "MakeAtom al s makeit st = (0, st)"
  | (nomem) "position s (atom_names st) = None" "makeit" "al \<noteq> all_ok"
      "MakeAtom al s makeit st = (BAD_RESOURCE, st)"
  | (new) st' where "position s (atom_names st) = None" "makeit" "atom_wf st'"
      "MakeAtom al s makeit st = (Suc (lastAtom st), st')" "atom_names st' = atom_names st @ [s]"
proof (cases "search (fingerprint s) s (atomRoot st)")
  case (Inl a)
  then have "position s (atom_names st) = Some (a - 1)" "1 \<le> a" "a \<le> lastAtom st"
    using search_spec(1) [OF assms] by auto
  with Inl show ?thesis
    by (intro found [of "a - 1"]) (auto simp: MakeAtom_unfold assms)
next
  case (Inr np)
  note none = search_spec(2) [OF assms Inr]
  note g = grow_wf [OF assms(1)]
  have new': "atom_wf (enter np s (grow st))" "atom_names (enter np s (grow st)) = atom_names st @ [s]"
    using enter_wf [OF g(1) assms(2), of np] g Inr by simp_all
  let ?fail = "\<not> node_ok al \<or> \<not> lastAtom st < XA_LAST_PREDEFINED \<and> \<not> string_ok al
    \<or> lastAtom st + 1 \<ge> tableLength st \<and> \<not> table_ok al"
  consider "\<not> makeit" | "makeit" "?fail" | "makeit" "\<not> ?fail" by blast
  then show ?thesis
  proof cases
    case 1
    with Inr show ?thesis by (intro absent none) (simp_all add: MakeAtom_unfold assms)
  next
    case 2
    then have "al \<noteq> all_ok" by (auto simp: all_ok_def)
    with Inr 2 show ?thesis by (intro nomem none) (simp_all add: MakeAtom_unfold assms)
  next
    case 3
    with Inr new' show ?thesis by (intro new none) (auto simp: MakeAtom_unfold assms)
  qed
qed

lemma MakeAtom_refines_intern_aux:
  assumes "atom_wf st" "nul_free s" "MakeAtom all_ok s True st = (a, st')"
  shows "atom_wf st' \<and> intern (atom_names st) s = (a, atom_names st')"
  by (cases rule: MakeAtom_cases [OF assms(1,2), of all_ok True]) (use assms in \<open>auto simp: intern_def\<close>)


definition atom_example :: atom_state where
  "atom_example = \<lparr>lastAtom = 0, atomRoot = NullNode, tableLength = 1, nodeTable = [None]\<rparr>"

lemma atom_example_wf [simp]: "atom_wf atom_example"
  by (simp add: atom_wf_def atom_example_def)

lemma nul_free_example [simp]: "nul_free ''WM_NAME''"
  by code_simp


lemma NameForAtom_nth:
  "atom_wf st \<Longrightarrow> ValidAtom st a \<Longrightarrow> NameForAtom st a = Some (atom_names st ! (a - 1))"
  using atom_wfD(1,2) [of st] atom_wfD(4) [of st a]
  by (auto simp: ValidAtom_def NameForAtom_def Suc_le_eq)

lemma ValidAtom_iff: "ValidAtom st a \<longleftrightarrow> 0 < a \<and> a \<le> length (atom_names st)"
  by (auto simp: ValidAtom_def)



text \<open>
  A failed or purely looking-up \<open>MakeAtom\<close> changes nothing: when the result is an error
  (\<open>BAD_RESOURCE\<close>, out of memory) or the name is only looked up, the table is the old one, and
  the look-up answers \<open>None\<close> (0) exactly for the names that were never interned.
\<close>

theorem MakeAtom_failure_no_effect:
  assumes "atom_wf st" "nul_free s"
  shows "snd (MakeAtom al s False st) = st \<and>
    (fst (MakeAtom al s False st) = 0 \<longleftrightarrow> s \<notin> set (atom_names st)) \<and>
    (fst (MakeAtom al s True st) = BAD_RESOURCE \<and> lastAtom st + 1 < BAD_RESOURCE
       \<longrightarrow> snd (MakeAtom al s True st) = st \<and> s \<notin> set (atom_names st) \<and> al \<noteq> all_ok)"
proof -
  from assms have "snd (MakeAtom al s False st) = st \<and>
    (fst (MakeAtom al s False st) = 0 \<longleftrightarrow> s \<notin> set (atom_names st))"
    by (cases rule: MakeAtom_cases [where al = al and makeit = False])
       (auto simp: position_None [symmetric])
  moreover from assms have "fst (MakeAtom al s True st) = BAD_RESOURCE \<and> lastAtom st + 1 < BAD_RESOURCE
       \<longrightarrow> snd (MakeAtom al s True st) = st \<and> s \<notin> set (atom_names st) \<and> al \<noteq> all_ok"
    by (cases rule: MakeAtom_cases [where al = al and makeit = True])
       (auto simp: position_None [symmetric])
  ultimately show ?thesis by blast
qed

theorem MakeAtom_failure_no_effect_witness:
  "fst (MakeAtom (all_ok\<lparr>node_ok := False\<rparr>) ''WM_NAME'' True atom_example) = BAD_RESOURCE \<and>
   snd (MakeAtom (all_ok\<lparr>node_ok := False\<rparr>) ''WM_NAME'' True atom_example) = atom_example"
proof -
  have "fst (MakeAtom (all_ok\<lparr>node_ok := False\<rparr>) ''WM_NAME'' True atom_example) = BAD_RESOURCE"
    by (simp add: MakeAtom_def atom_example_def all_ok_def)
  moreover have "lastAtom atom_example + 1 < BAD_RESOURCE"
    by (simp add: atom_example_def BAD_RESOURCE_def)
  ultimately show ?thesis
    using MakeAtom_failure_no_effect [OF atom_example_wf nul_free_example,
        of "all_ok\<lparr>node_ok := False\<rparr>"] by blast
qed

subsection \<open>Initialisation\<close>

lemma MakePredeclared_spec:
  assumes "atom_wf st" "\<forall>s \<in> set ss. nul_free s" "distinct (atom_names st @ ss)"
    "n = Suc (lastAtom st)"
  shows "\<exists>st'. MakePredeclared all_ok ss n st = Some st' \<and> atom_wf st' \<and>
    atom_names st' = atom_names st @ ss"
  using assms
proof (induction ss arbitrary: n st)
  case (Cons s ss)
  obtain a st1 where m: "MakeAtom all_ok s True st = (a, st1)" by fastforce
  have "position s (atom_names st) = None"
    using Cons.prems(3) by (auto simp: position_None)
  with MakeAtom_refines_intern_aux [OF Cons.prems(1) _ m] Cons.prems(2)
  have st1: "a = Suc (lastAtom st)" "atom_wf st1" "atom_names st1 = atom_names st @ [s]"
    by (auto simp: intern_def)
  from arg_cong [OF st1(3), of length] have "lastAtom st1 = Suc (lastAtom st)" by simp
  with st1 Cons.prems Cons.IH [of st1 "Suc n"] m show ?case by auto
qed auto

lemma predeclared_names:
  "length predeclared = 68" "distinct predeclared" "\<forall>s \<in> set predeclared. nul_free s"
  by code_simp+

text \<open>
  \<open>InitAtoms\<close> leaves exactly the 68 predefined names, numbered as the protocol numbers
  them: no \<open>AtomError\<close>, and atom \<open>i\<close> has the \<open>i\<close>-th predefined name.
\<close>

theorem InitAtoms_predefined:
  assumes "atomRoot st = NullNode \<longrightarrow> lastAtom st = 0"
  shows "\<exists>st'. InitAtoms all_ok st = Some st' \<and> atom_wf st' \<and> atom_names st' = predeclared \<and>
    (\<forall>i. 1 \<le> i \<and> i \<le> XA_LAST_PREDEFINED \<longrightarrow> NameForAtom st' i = Some (predeclared ! (i - 1)))"
proof -
  let ?st = "(snd (FreeAllAtoms st))\<lparr>tableLength := InitialTableSize,
      nodeTable := replicate InitialTableSize None\<rparr>"
  have "lastAtom ?st = 0" "atomRoot ?st = NullNode"
    using assms by (auto simp: FreeAllAtoms_def)
  then have "atom_wf ?st" "atom_names ?st = []"
    by (simp_all add: atom_wf_def atom_names_def InitialTableSize_def)
  with MakePredeclared_spec [of ?st predeclared 1] predeclared_names \<open>lastAtom ?st = 0\<close>
  obtain st' where st': "MakePredeclaredAtoms all_ok ?st = Some st'" "atom_wf st'"
    "atom_names st' = predeclared"
    by (auto simp: MakePredeclaredAtoms_def)
  from arg_cong [OF st'(3), of length] have last: "lastAtom st' = XA_LAST_PREDEFINED"
    by (simp add: predeclared_names XA_LAST_PREDEFINED_def)
  then have "InitAtoms all_ok st = Some st'"
    using st' by (simp add: InitAtoms_def all_ok_def Let_def)
  with st' last show ?thesis
    by (auto simp: NameForAtom_nth ValidAtom_def)
qed

theorem InitAtoms_predefined_witness:
  "\<exists>st'. InitAtoms all_ok atom_example = Some st' \<and> atom_names st' = predeclared"
proof -
  have "atomRoot atom_example = NullNode \<longrightarrow> lastAtom atom_example = 0"
    by (simp add: atom_example_def)
  from InitAtoms_predefined [OF this] show ?thesis by blast
qed

text \<open>
  A name with an embedded NUL is cut: the atom made for it answers only the bytes before
  the first NUL, although the request that interned it named them all.
\<close>

theorem MakeAtom_truncates_at_NUL:
  assumes "search (fingerprint s) s (atomRoot st) = Inr np" "lastAtom st + 1 < tableLength st"
    "length (nodeTable st) = tableLength st" "MakeAtom all_ok s True st = (a, st')"
  shows "NameForAtom st' a = Some (cstr s)"
  using assms by (auto simp: MakeAtom_def all_ok_def NameForAtom_def Let_def)

definition nul_name :: string where
  "nul_name = ''a'' @ [NUL] @ ''b''"

theorem MakeAtom_truncates_at_NUL_witness:
  "NameForAtom (snd (MakeAtom all_ok nul_name True (atom_example\<lparr>tableLength := 2, nodeTable := [None, None]\<rparr>)))
     (fst (MakeAtom all_ok nul_name True (atom_example\<lparr>tableLength := 2, nodeTable := [None, None]\<rparr>)))
   = Some ''a'' \<and> nul_name \<noteq> ''a''"
proof -
  let ?st = "atom_example\<lparr>tableLength := 2, nodeTable := [None, None]\<rparr>"
  have "search (fingerprint nul_name) nul_name (atomRoot ?st) = Inr []"
    "lastAtom ?st + 1 < tableLength ?st" "length (nodeTable ?st) = tableLength ?st"
    by (simp_all add: atom_example_def)
  from MakeAtom_truncates_at_NUL [OF this surjective_pairing]
  have "NameForAtom (snd (MakeAtom all_ok nul_name True ?st))
      (fst (MakeAtom all_ok nul_name True ?st)) = Some (cstr nul_name)" .
  moreover have "cstr nul_name = ''a''" "nul_name \<noteq> ''a''" by code_simp+
  ultimately show ?thesis by simp
qed

end
