(* ===== verification/Bands.thy ===== *)
theory Bands
  imports Prelude
begin

text \<open>
  Boxes and y-x-banded lists of boxes, the representation of
  \<^verbatim>\<open>programs/Xserver/mi/miregion.c\<close>: the order the lists satisfy, the set of pixels they
  cover, and the functions of that file that work on one or two bands: the three overlap
  procedures \<open>miIntersectO\<close>, \<open>miUnionO\<close>, \<open>miSubtractO\<close>, \<open>miAppendNonO\<close>, the \<open>FindBand\<close> macro and
  \<open>miCoalesce\<close>. A pointer pair into a rectangle array is the list of the boxes between the
  two pointers; an index into the array under construction stays an index.
\<close>

subsection \<open>Data\<close>

text \<open>A box holds the pixels with \<open>x1 \<le> x < x2\<close> and \<open>y1 \<le> y < y2\<close>.\<close>

record BoxRec =
  bx1 :: int
  by1 :: int
  bx2 :: int
  by2 :: int

definition Box :: "int \<Rightarrow> int \<Rightarrow> int \<Rightarrow> int \<Rightarrow> BoxRec" where
  "Box x1 y1 x2 y2 = \<lparr>bx1 = x1, by1 = y1, bx2 = x2, by2 = y2\<rparr>"

lemma Box_sel [simp]:
  "bx1 (Box a b c d) = a" "by1 (Box a b c d) = b" "bx2 (Box a b c d) = c" "by2 (Box a b c d) = d"
  "(Box a b c d)\<lparr>by2 := e\<rparr> = Box a b c e"
  by (simp_all add: Box_def)

definition INBOX :: "BoxRec \<Rightarrow> int \<Rightarrow> int \<Rightarrow> bool" where
  "INBOX r x y \<longleftrightarrow> bx2 r > x \<and> bx1 r \<le> x \<and> by2 r > y \<and> by1 r \<le> y"

definition EXTENTCHECK :: "BoxRec \<Rightarrow> BoxRec \<Rightarrow> bool" where
  "EXTENTCHECK r1 r2 \<longleftrightarrow>
     \<not> (bx2 r1 \<le> bx1 r2 \<or> bx1 r1 \<ge> bx2 r2 \<or> by2 r1 \<le> by1 r2 \<or> by1 r1 \<ge> by2 r2)"

definition SUBSUMES :: "BoxRec \<Rightarrow> BoxRec \<Rightarrow> bool" where
  "SUBSUMES r1 r2 \<longleftrightarrow>
     bx1 r1 \<le> bx1 r2 \<and> bx2 r1 \<ge> bx2 r2 \<and> by1 r1 \<le> by1 r2 \<and> by2 r1 \<ge> by2 r2"

subsection \<open>The band procedures\<close>

text \<open>
  \<open>FindBand\<close>: the boxes from \<open>r\<close> on that share its \<open>y1\<close>, and the rest of the array.
\<close>

fun FindBand :: "BoxRec list \<Rightarrow> BoxRec list \<times> BoxRec list" where
  "FindBand [] = ([], [])"
| "FindBand (r # rs) =
     (r # takeWhile (\<lambda>b. by1 b = by1 r) rs, dropWhile (\<lambda>b. by1 b = by1 r) rs)"

text \<open>\<open>miAppendNonO\<close>: append the boxes of a band, clipped to the rows \<open>y1\<close> to \<open>y2\<close>.\<close>

definition miAppendNonO :: "BoxRec list \<Rightarrow> BoxRec list \<Rightarrow> int \<Rightarrow> int \<Rightarrow> BoxRec list" where
  "miAppendNonO rects r y1 y2 = rects @ map (\<lambda>b. Box (bx1 b) y1 (bx2 b) y2) r"

text \<open>
  \<open>miCoalesce\<close>: merge the last band with the one before it when they touch and hold boxes at
  the same places. The result is the array and the index of the new previous band.
\<close>

definition miCoalesce :: "BoxRec list \<Rightarrow> nat \<Rightarrow> nat \<Rightarrow> BoxRec list \<times> nat" where
  "miCoalesce rects prevStart curStart =
     (let numRects = curStart - prevStart;
          prev = take numRects (drop prevStart rects);
          cur = take numRects (drop curStart rects)
      in if numRects = 0 then (rects, curStart)
         else if by2 (hd prev) \<noteq> by1 (hd cur) then (rects, curStart)
         else if map (\<lambda>b. (bx1 b, bx2 b)) prev \<noteq> map (\<lambda>b. (bx1 b, bx2 b)) cur
              then (rects, curStart)
         else (take prevStart rects @ map (\<lambda>b. b\<lparr>by2 := by2 (hd cur)\<rparr>) prev, prevStart))"

text \<open>The \<open>Coalesce\<close> macro: only bands of the same number of boxes are tried.\<close>

definition Coalesce :: "BoxRec list \<Rightarrow> nat \<Rightarrow> nat \<Rightarrow> BoxRec list \<times> nat" where
  "Coalesce rects prevBand curBand =
     (if curBand - prevBand = length rects - curBand then miCoalesce rects prevBand curBand
      else (rects, curBand))"

text \<open>
  \<open>miIntersectO\<close>. The do-while loop is only entered with two nonempty bands; it stops when
  one of them is used up.
\<close>

function intersect_loop ::
    "BoxRec list \<Rightarrow> BoxRec list \<Rightarrow> int \<Rightarrow> int \<Rightarrow> BoxRec list \<Rightarrow> BoxRec list" where
  "intersect_loop (a # r1) (b # r2) y1 y2 rects =
     (let x1 = max (bx1 a) (bx1 b);
          x2 = min (bx2 a) (bx2 b);
          rects' = (if x1 < x2 then rects @ [Box x1 y1 x2 y2] else rects)
      in intersect_loop (if bx2 a = x2 then r1 else a # r1)
                        (if bx2 b = x2 then r2 else b # r2) y1 y2 rects')"
| "intersect_loop [] r2 y1 y2 rects = rects"
| "intersect_loop (a # r1) [] y1 y2 rects = rects"
  by pat_completeness auto
termination
  by (relation "measure (\<lambda>(r1, r2, y1, y2, rects). length r1 + length r2)") auto

definition miIntersectO ::
    "BoxRec list \<Rightarrow> BoxRec list \<Rightarrow> BoxRec list \<Rightarrow> int \<Rightarrow> int \<Rightarrow> bool \<Rightarrow> BoxRec list \<times> bool" where
  "miIntersectO rects r1 r2 y1 y2 overlap = (intersect_loop r1 r2 y1 y2 rects, overlap)"

text \<open>
  \<open>miUnionO\<close>: the state of the loops is the current rectangle \<open>x1, x2\<close>, the boxes left in the
  two bands, the array and the overlap flag; \<open>merge_rect\<close> is the macro \<open>MERGERECT\<close>.
\<close>

record union_st =
  ux1 :: int
  ux2 :: int
  urects :: "BoxRec list"
  uoverlap :: bool

definition merge_rect :: "BoxRec \<Rightarrow> int \<Rightarrow> int \<Rightarrow> union_st \<Rightarrow> union_st" where
  "merge_rect r y1 y2 st =
     (if bx1 r \<le> ux2 st
      then st\<lparr>uoverlap := (uoverlap st \<or> bx1 r < ux2 st),
              ux2 := (if ux2 st < bx2 r then bx2 r else ux2 st)\<rparr>
      else st\<lparr>urects := urects st @ [Box (ux1 st) y1 (ux2 st) y2],
              ux1 := bx1 r, ux2 := bx2 r\<rparr>)"

fun union_loop :: "BoxRec list \<Rightarrow> BoxRec list \<Rightarrow> int \<Rightarrow> int \<Rightarrow> union_st \<Rightarrow> union_st" where
  "union_loop (a # r1) (b # r2) y1 y2 st =
     (if bx1 a < bx1 b then union_loop r1 (b # r2) y1 y2 (merge_rect a y1 y2 st)
      else union_loop (a # r1) r2 y1 y2 (merge_rect b y1 y2 st))"
| "union_loop (a # r1) [] y1 y2 st = union_loop r1 [] y1 y2 (merge_rect a y1 y2 st)"
| "union_loop [] (b # r2) y1 y2 st = union_loop [] r2 y1 y2 (merge_rect b y1 y2 st)"
| "union_loop [] [] y1 y2 st = st"

fun miUnionO ::
    "BoxRec list \<Rightarrow> BoxRec list \<Rightarrow> BoxRec list \<Rightarrow> int \<Rightarrow> int \<Rightarrow> bool \<Rightarrow> BoxRec list \<times> bool" where
  "miUnionO rects (a # r1) (b # r2) y1 y2 overlap =
     (let st = (if bx1 a < bx1 b
                then union_loop r1 (b # r2) y1 y2
                       \<lparr>ux1 = bx1 a, ux2 = bx2 a, urects = rects, uoverlap = overlap\<rparr>
                else union_loop (a # r1) r2 y1 y2
                       \<lparr>ux1 = bx1 b, ux2 = bx2 b, urects = rects, uoverlap = overlap\<rparr>)
      in (urects st @ [Box (ux1 st) y1 (ux2 st) y2], uoverlap st))"
| "miUnionO rects _ _ y1 y2 overlap = (rects, overlap)"

text \<open>
  \<open>miSubtractO\<close>: \<open>x1\<close> is the left-most point of the minuend not yet checked. After the loop
  the minuend boxes that are left are appended, the first from \<open>x1\<close> on.
\<close>

definition next_x1 :: "int \<Rightarrow> BoxRec list \<Rightarrow> int" where
  "next_x1 x1 r1 = (case r1 of [] \<Rightarrow> x1 | a # _ \<Rightarrow> bx1 a)"

fun subtract_rest :: "int \<Rightarrow> BoxRec list \<Rightarrow> int \<Rightarrow> int \<Rightarrow> BoxRec list \<Rightarrow> BoxRec list" where
  "subtract_rest x1 [] y1 y2 rects = rects"
| "subtract_rest x1 (a # r1) y1 y2 rects =
     subtract_rest (next_x1 x1 r1) r1 y1 y2 (rects @ [Box x1 y1 (bx2 a) y2])"

function subtract_loop ::
    "int \<Rightarrow> BoxRec list \<Rightarrow> BoxRec list \<Rightarrow> int \<Rightarrow> int \<Rightarrow> BoxRec list \<Rightarrow> BoxRec list" where
  "subtract_loop x1 (a # r1) (b # r2) y1 y2 rects =
     (if bx2 b \<le> x1 then subtract_loop x1 (a # r1) r2 y1 y2 rects
      else if bx1 b \<le> x1 then
        (if bx2 b \<ge> bx2 a then subtract_loop (next_x1 (bx2 b) r1) r1 (b # r2) y1 y2 rects
         else subtract_loop (bx2 b) (a # r1) r2 y1 y2 rects)
      else if bx1 b < bx2 a then
        (let rects' = rects @ [Box x1 y1 (bx1 b) y2]
         in if bx2 b \<ge> bx2 a then subtract_loop (next_x1 (bx2 b) r1) r1 (b # r2) y1 y2 rects'
            else subtract_loop (bx2 b) (a # r1) r2 y1 y2 rects')
      else
        (let rects' = (if bx2 a > x1 then rects @ [Box x1 y1 (bx2 a) y2] else rects)
         in subtract_loop (next_x1 x1 r1) r1 (b # r2) y1 y2 rects'))"
| "subtract_loop x1 [] r2 y1 y2 rects = rects"
| "subtract_loop x1 (a # r1) [] y1 y2 rects = subtract_rest x1 (a # r1) y1 y2 rects"
  by pat_completeness auto
termination
  by (relation "measure (\<lambda>(x1, r1, r2, y1, y2, rects). length r1 + length r2)") auto

definition miSubtractO ::
    "BoxRec list \<Rightarrow> BoxRec list \<Rightarrow> BoxRec list \<Rightarrow> int \<Rightarrow> int \<Rightarrow> bool \<Rightarrow> BoxRec list \<times> bool" where
  "miSubtractO rects r1 r2 y1 y2 overlap =
     (subtract_loop (bx1 (hd r1)) r1 r2 y1 y2 rects, overlap)"

subsection \<open>One band: separated boxes and the columns they cover\<close>

definition spans :: "BoxRec list \<Rightarrow> int set" where
  "spans bs = {x. \<exists>b \<in> set bs. bx1 b \<le> x \<and> x < bx2 b}"

definition xsep :: "BoxRec list \<Rightarrow> bool" where
  "xsep bs \<longleftrightarrow> sorted_wrt (\<lambda>a b. bx2 a < bx1 b) bs \<and> (\<forall>b \<in> set bs. bx1 b < bx2 b)"

definition is_band :: "int \<Rightarrow> int \<Rightarrow> BoxRec list \<Rightarrow> bool" where
  "is_band y1 y2 bs \<longleftrightarrow> (\<forall>b \<in> set bs. by1 b = y1 \<and> by2 b = y2)"

lemma spans_simps [simp]:
  "spans [] = {}"
  "spans (b # bs) = {bx1 b..<bx2 b} \<union> spans bs"
  "spans (bs @ cs) = spans bs \<union> spans cs"
  by (auto simp: spans_def)

lemma xsep_simps [simp]:
  "xsep []"
  "xsep (b # bs) \<longleftrightarrow> bx1 b < bx2 b \<and> (\<forall>c \<in> set bs. bx2 b < bx1 c) \<and> xsep bs"
  by (auto simp: xsep_def)

lemma is_band_simps [simp]:
  "is_band y1 y2 []"
  "is_band y1 y2 (b # bs) \<longleftrightarrow> by1 b = y1 \<and> by2 b = y2 \<and> is_band y1 y2 bs"
  "is_band y1 y2 (bs @ cs) \<longleftrightarrow> is_band y1 y2 bs \<and> is_band y1 y2 cs"
  by (auto simp: is_band_def)

lemma xsep_append:
  "xsep (bs @ cs) \<longleftrightarrow> xsep bs \<and> xsep cs \<and> (\<forall>b \<in> set bs. \<forall>c \<in> set cs. bx2 b < bx1 c)"
  by (auto simp: xsep_def sorted_wrt_append)

lemma spans_lower: "x \<in> spans bs \<Longrightarrow> \<forall>b \<in> set bs. l < bx1 b \<Longrightarrow> l < x"
  by (auto simp: spans_def)

text \<open>
  What an overlap procedure promises: it appends to the array one band of separated boxes
  between \<open>y1\<close> and \<open>y2\<close> whose columns are the set operation on the columns of its two bands.
\<close>

definition overlap_spec ::
    "(int set \<Rightarrow> int set \<Rightarrow> int set) \<Rightarrow> BoxRec list \<Rightarrow> BoxRec list \<Rightarrow> BoxRec list \<Rightarrow>
     int \<Rightarrow> int \<Rightarrow> BoxRec list \<Rightarrow> bool" where
  "overlap_spec sop rects r1 r2 y1 y2 result \<longleftrightarrow>
     (\<exists>new. result = rects @ new \<and> xsep new \<and> is_band y1 y2 new \<and>
            spans new = sop (spans r1) (spans r2))"

lemma intersect_loop_spec:
  "xsep r1 \<Longrightarrow> xsep r2 \<Longrightarrow>
   \<exists>new. intersect_loop r1 r2 y1 y2 rects = rects @ new \<and> xsep new \<and> is_band y1 y2 new \<and>
     spans new = spans r1 \<inter> spans r2 \<and>
     (r1 \<noteq> [] \<and> r2 \<noteq> [] \<longrightarrow> (\<forall>n \<in> set new. bx1 (hd r1) \<le> bx1 n \<and> bx1 (hd r2) \<le> bx1 n)) \<and>
     (r1 = [] \<or> r2 = [] \<longrightarrow> new = [])"
proof (induction r1 r2 y1 y2 rects rule: intersect_loop.induct)
  case (1 a r1 b r2 y1 y2 rects)
  let ?x1 = "max (bx1 a) (bx1 b)" and ?x2 = "min (bx2 a) (bx2 b)"
  let ?rects = "if ?x1 < ?x2 then rects @ [Box ?x1 y1 ?x2 y2] else rects"
  let ?r1 = "if bx2 a = ?x2 then r1 else a # r1" and ?r2 = "if bx2 b = ?x2 then r2 else b # r2"
  from "1.prems" have "xsep ?r1" "xsep ?r2" by auto
  from "1.IH" [OF refl refl refl this] obtain new where
    new: "intersect_loop ?r1 ?r2 y1 y2 ?rects = ?rects @ new" "xsep new" "is_band y1 y2 new"
      "spans new = spans ?r1 \<inter> spans ?r2"
    and lower: "?r1 \<noteq> [] \<and> ?r2 \<noteq> [] \<longrightarrow> (\<forall>n \<in> set new. bx1 (hd ?r1) \<le> bx1 n \<and> bx1 (hd ?r2) \<le> bx1 n)"
    and none: "?r1 = [] \<or> ?r2 = [] \<longrightarrow> new = []"
    by blast
  have sep: "?x2 < bx1 n \<and> ?x1 \<le> bx1 n" if "n \<in> set new" for n
  proof -
    from that none have ne: "?r1 \<noteq> []" "?r2 \<noteq> []" by auto
    with lower that have "bx1 (hd ?r1) \<le> bx1 n" "bx1 (hd ?r2) \<le> bx1 n" by auto
    with ne "1.prems" show ?thesis
      by (cases "bx2 a = ?x2"; cases "bx2 b = ?x2"; cases r1; cases r2) (auto simp: min_def split: if_splits)
  qed
  have sp: "spans (a # r1) \<inter> spans (b # r2) = {?x1..<?x2} \<union> (spans ?r1 \<inter> spans ?r2)"
  proof -
    have "\<forall>x \<in> spans r1. bx2 a < x" "\<forall>x \<in> spans r2. bx2 b < x"
      using "1.prems" by (auto dest: spans_lower)
    then show ?thesis by (auto simp: min_def max_def)
  qed
  show ?case
    by (rule exI [of _ "(if ?x1 < ?x2 then [Box ?x1 y1 ?x2 y2] else []) @ new"])
       (use new sep sp in \<open>auto simp: Let_def xsep_append\<close>)
qed auto

lemma miIntersectO_spec:
  "xsep r1 \<Longrightarrow> xsep r2 \<Longrightarrow>
   overlap_spec (\<inter>) rects r1 r2 y1 y2 (fst (miIntersectO rects r1 r2 y1 y2 ov))"
  using intersect_loop_spec [of r1 r2 y1 y2 rects]
  by (auto simp: overlap_spec_def miIntersectO_def)

text \<open>
  The union loop: the boxes already appended and the current rectangle together cover the
  columns consumed so far, and the current rectangle lies to the right of the appended ones.
\<close>

definition union_inv :: "BoxRec list \<Rightarrow> int \<Rightarrow> int \<Rightarrow> int set \<Rightarrow> union_st \<Rightarrow> bool" where
  "union_inv rects y1 y2 S st \<longleftrightarrow>
     (\<exists>new. urects st = rects @ new \<and> xsep new \<and> is_band y1 y2 new \<and>
        (\<forall>n \<in> set new. bx2 n < ux1 st) \<and> ux1 st < ux2 st \<and>
        spans new \<union> {ux1 st..<ux2 st} = S)"

lemma merge_rect_inv:
  assumes "union_inv rects y1 y2 S st" "bx1 r < bx2 r" "ux1 st \<le> bx1 r"
  shows "union_inv rects y1 y2 (S \<union> {bx1 r..<bx2 r}) (merge_rect r y1 y2 st)"
    "ux1 st \<le> ux1 (merge_rect r y1 y2 st)" "ux1 (merge_rect r y1 y2 st) \<le> bx1 r"
proof -
  from assms(1) obtain new where new: "urects st = rects @ new" "xsep new" "is_band y1 y2 new"
    "\<forall>n \<in> set new. bx2 n < ux1 st" "ux1 st < ux2 st" "spans new \<union> {ux1 st..<ux2 st} = S"
    by (auto simp: union_inv_def)
  show "union_inv rects y1 y2 (S \<union> {bx1 r..<bx2 r}) (merge_rect r y1 y2 st)"
  proof (cases "bx1 r \<le> ux2 st")
    case True
    have "S \<union> {bx1 r..<bx2 r} = spans new \<union> {ux1 st..<max (ux2 st) (bx2 r)}"
      unfolding new(6) [symmetric] using True assms(2,3) new(5) by auto
    with True new assms(2,3) show ?thesis
      unfolding union_inv_def by (intro exI [of _ new]) (auto simp: merge_rect_def max_def)
  next
    case False
    with new assms(2,3) show ?thesis
      unfolding union_inv_def
      by (intro exI [of _ "new @ [Box (ux1 st) y1 (ux2 st) y2]"])
         (auto simp: merge_rect_def xsep_append)
  qed
  show "ux1 st \<le> ux1 (merge_rect r y1 y2 st)" "ux1 (merge_rect r y1 y2 st) \<le> bx1 r"
    using assms(2,3) by (simp_all add: merge_rect_def)
qed

lemma union_loop_inv:
  "xsep r1 \<Longrightarrow> xsep r2 \<Longrightarrow> union_inv rects y1 y2 S st \<Longrightarrow>
   (\<forall>b \<in> set r1 \<union> set r2. ux1 st \<le> bx1 b) \<Longrightarrow>
   union_inv rects y1 y2 (S \<union> spans r1 \<union> spans r2) (union_loop r1 r2 y1 y2 st)"
proof (induction r1 r2 y1 y2 st arbitrary: S rule: union_loop.induct)
  case (1 a r1 b r2 y1 y2 st)
  show ?case
  proof (cases "bx1 a < bx1 b")
    case True
    from "1.prems" have "bx1 a < bx2 a" "ux1 st \<le> bx1 a" by auto
    note m = merge_rect_inv [OF "1.prems"(3) this]
    have "\<forall>c \<in> set r1 \<union> set (b # r2). ux1 (merge_rect a y1 y2 st) \<le> bx1 c"
      using "1.prems" m(3) True by fastforce
    from "1.IH"(1) [OF True _ "1.prems"(2) m(1) this] "1.prems" True show ?thesis
      by (simp add: Un_ac)
  next
    case False
    from "1.prems" have "bx1 b < bx2 b" "ux1 st \<le> bx1 b" by auto
    note m = merge_rect_inv [OF "1.prems"(3) this]
    have "\<forall>c \<in> set (a # r1) \<union> set r2. ux1 (merge_rect b y1 y2 st) \<le> bx1 c"
      using "1.prems" m(3) False by fastforce
    from "1.IH"(2) [OF False "1.prems"(1) _ m(1) this] "1.prems" False show ?thesis
      by (simp add: Un_ac)
  qed
next
  case (2 a r1 y1 y2 st)
  then have "bx1 a < bx2 a" "ux1 st \<le> bx1 a" by auto
  note m = merge_rect_inv [OF "2.prems"(3) this]
  have "\<forall>c \<in> set r1 \<union> set []. ux1 (merge_rect a y1 y2 st) \<le> bx1 c"
    using "2.prems" m(3) by fastforce
  from "2.IH" [OF _ _ m(1) this] "2.prems" show ?case by (simp add: Un_ac)
next
  case (3 b r2 y1 y2 st)
  then have "bx1 b < bx2 b" "ux1 st \<le> bx1 b" by auto
  note m = merge_rect_inv [OF "3.prems"(3) this]
  have "\<forall>c \<in> set [] \<union> set r2. ux1 (merge_rect b y1 y2 st) \<le> bx1 c"
    using "3.prems" m(3) by fastforce
  from "3.IH" [OF _ _ m(1) this] "3.prems" show ?case by (simp add: Un_ac)
qed simp

lemma miUnionO_spec:
  assumes "xsep r1" "xsep r2" "r1 \<noteq> []" "r2 \<noteq> []"
  shows "overlap_spec (\<union>) rects r1 r2 y1 y2 (fst (miUnionO rects r1 r2 y1 y2 ov))"
proof -
  obtain a r1' b r2' where r: "r1 = a # r1'" "r2 = b # r2'"
    using assms(3,4) by (auto simp: neq_Nil_conv)
  let ?c = "if bx1 a < bx1 b then a else b"
  let ?s1 = "if bx1 a < bx1 b then r1' else r1" and ?s2 = "if bx1 a < bx1 b then r2 else r2'"
  let ?st = "\<lparr>ux1 = bx1 ?c, ux2 = bx2 ?c, urects = rects, uoverlap = ov\<rparr>"
  have "union_inv rects y1 y2 {bx1 ?c..<bx2 ?c} ?st"
    using assms r by (auto simp: union_inv_def)
  moreover have "xsep ?s1" "xsep ?s2" "\<forall>d \<in> set ?s1 \<union> set ?s2. ux1 ?st \<le> bx1 d"
    using assms r by fastforce+
  ultimately have inv: "union_inv rects y1 y2 ({bx1 ?c..<bx2 ?c} \<union> spans ?s1 \<union> spans ?s2)
      (union_loop ?s1 ?s2 y1 y2 ?st)"
    by (intro union_loop_inv)
  moreover have "{bx1 ?c..<bx2 ?c} \<union> spans ?s1 \<union> spans ?s2 = spans r1 \<union> spans r2"
    using r by auto
  ultimately obtain new where new:
    "urects (union_loop ?s1 ?s2 y1 y2 ?st) = rects @ new" "xsep new" "is_band y1 y2 new"
    "\<forall>n \<in> set new. bx2 n < ux1 (union_loop ?s1 ?s2 y1 y2 ?st)"
    "ux1 (union_loop ?s1 ?s2 y1 y2 ?st) < ux2 (union_loop ?s1 ?s2 y1 y2 ?st)"
    "spans new \<union> {ux1 (union_loop ?s1 ?s2 y1 y2 ?st)..<ux2 (union_loop ?s1 ?s2 y1 y2 ?st)} =
     spans r1 \<union> spans r2"
    unfolding union_inv_def by metis
  let ?l = "union_loop ?s1 ?s2 y1 y2 ?st"
  have "fst (miUnionO rects r1 r2 y1 y2 ov) = rects @ new @ [Box (ux1 ?l) y1 (ux2 ?l) y2]"
    using new(1) r by (simp add: Let_def split del: if_split) (simp split: if_splits)
  with new(2-) show ?thesis
    unfolding overlap_spec_def
    by (intro exI [of _ "new @ [Box (ux1 ?l) y1 (ux2 ?l) y2]"]) (simp add: xsep_append)
qed

text \<open>The columns of the minuend that the subtraction has still to look at.\<close>

fun minuend :: "int \<Rightarrow> BoxRec list \<Rightarrow> int set" where
  "minuend x1 [] = {}"
| "minuend x1 (a # r1) = {x1..<bx2 a} \<union> spans r1"

fun minuend_at :: "int \<Rightarrow> BoxRec list \<Rightarrow> bool" where
  "minuend_at x1 [] \<longleftrightarrow> True"
| "minuend_at x1 (a # r1) \<longleftrightarrow> bx1 a \<le> x1 \<and> x1 < bx2 a"

lemma next_x1: 
  assumes "xsep r1"
  shows "minuend_at (next_x1 x r1) r1" "minuend (next_x1 x r1) r1 = spans r1"
    "r1 \<noteq> [] \<Longrightarrow> next_x1 x r1 = bx1 (hd r1)"
  using assms by (cases r1; simp add: next_x1_def)+

lemma subtract_rest_spec:
  "xsep r1 \<Longrightarrow> minuend_at x1 r1 \<Longrightarrow>
   \<exists>new. subtract_rest x1 r1 y1 y2 rects = rects @ new \<and> xsep new \<and> is_band y1 y2 new \<and>
     spans new = minuend x1 r1 \<and> (\<forall>n \<in> set new. x1 \<le> bx1 n)"
proof (induction r1 arbitrary: x1 rects)
  case (Cons a r1)
  note nx = next_x1 [of r1 x1]
  from Cons.prems nx(1) Cons.IH [of "next_x1 x1 r1" "rects @ [Box x1 y1 (bx2 a) y2]"]
  obtain new where new:
    "subtract_rest (next_x1 x1 r1) r1 y1 y2 (rects @ [Box x1 y1 (bx2 a) y2]) =
       rects @ [Box x1 y1 (bx2 a) y2] @ new" "xsep new" "is_band y1 y2 new"
    "spans new = spans r1" "\<forall>n \<in> set new. next_x1 x1 r1 \<le> bx1 n"
    using nx(2) by auto
  have "\<forall>n \<in> set new. bx2 a < bx1 n"
  proof (cases "r1 = []")
    case True
    with new(4) show ?thesis
      using new(2) by (cases new) (auto simp: atLeastLessThan_empty_iff)
  next
    case False
    then have "bx2 a < next_x1 x1 r1"
      using Cons.prems(1) nx(3) by (cases r1) auto
    with new(5) show ?thesis by auto
  qed
  with new Cons.prems show ?case
    by (intro exI [of _ "Box x1 y1 (bx2 a) y2 # new"]) auto
qed simp

lemma xsep_spans_empty: "xsep bs \<Longrightarrow> spans bs = {} \<longleftrightarrow> bs = []"
  by (cases bs) auto

definition sub_post ::
    "BoxRec list \<Rightarrow> int \<Rightarrow> int \<Rightarrow> int set \<Rightarrow> int \<Rightarrow> BoxRec list \<Rightarrow> bool" where
  "sub_post rects y1 y2 S lo result \<longleftrightarrow>
     (\<exists>new. result = rects @ new \<and> xsep new \<and> is_band y1 y2 new \<and> spans new = S \<and>
            (\<forall>n \<in> set new. lo \<le> bx1 n))"

lemma sub_post_weaken:
  "sub_post rects y1 y2 S lo result \<Longrightarrow> S = T \<Longrightarrow> lo' \<le> lo \<or> S = {} \<Longrightarrow>
   sub_post rects y1 y2 T lo' result"
  by (fastforce simp: sub_post_def xsep_spans_empty)

text \<open>An emitted piece in front of what the rest of the loop produces.\<close>

lemma sub_post_emit:
  assumes "sub_post (rects @ [Box x1 y1 x2 y2]) y1 y2 S lo result" "x1 < x2" "x2 < lo \<or> S = {}"
    "T = {x1..<x2} \<union> S"
  shows "sub_post rects y1 y2 T x1 result"
proof -
  from assms(1) obtain new where new: "result = rects @ [Box x1 y1 x2 y2] @ new" "xsep new"
    "is_band y1 y2 new" "spans new = S" "\<forall>n \<in> set new. lo \<le> bx1 n"
    by (auto simp: sub_post_def)
  have "\<forall>n \<in> set new. x2 < bx1 n"
    using assms(3) new xsep_spans_empty [OF new(2)] by fastforce
  with new assms(2,4) show ?thesis
    unfolding sub_post_def by (intro exI [of _ "Box x1 y1 x2 y2 # new"]) fastforce
qed

lemma subtract_loop_spec:
  "xsep r1 \<Longrightarrow> xsep r2 \<Longrightarrow> minuend_at x1 r1 \<Longrightarrow>
   sub_post rects y1 y2 (minuend x1 r1 - spans r2) x1 (subtract_loop x1 r1 r2 y1 y2 rects)"
proof (induction x1 r1 r2 y1 y2 rects rule: subtract_loop.induct)
  case (1 x1 a r1 b r2 y1 y2 rects)
  note nx = next_x1 [of r1]
  have a: "bx1 a \<le> x1" "x1 < bx2 a" and x: "xsep r1" "xsep r2" and b: "bx1 b < bx2 b"
    using "1.prems" by auto
  have right1: "\<forall>x \<in> spans r1. bx2 a < x" and right2: "\<forall>x \<in> spans r2. bx2 b < x"
    using "1.prems" by (auto dest: spans_lower)
  have nxt: "bx2 a < next_x1 x r1 \<or> spans r1 = {}" for x
    using "1.prems"(1) nx(3) [OF x(1)] by (cases r1) auto
  consider (left) "bx2 b \<le> x1"
    | (cover) "\<not> bx2 b \<le> x1" "bx1 b \<le> x1" "bx2 a \<le> bx2 b"
    | (nuke) "\<not> bx2 b \<le> x1" "bx1 b \<le> x1" "\<not> bx2 a \<le> bx2 b"
    | (mid_end) "\<not> bx2 b \<le> x1" "\<not> bx1 b \<le> x1" "bx1 b < bx2 a" "bx2 a \<le> bx2 b"
    | (mid) "\<not> bx2 b \<le> x1" "\<not> bx1 b \<le> x1" "bx1 b < bx2 a" "\<not> bx2 a \<le> bx2 b"
    | (out) "\<not> bx2 b \<le> x1" "\<not> bx1 b \<le> x1" "\<not> bx1 b < bx2 a"
    by blast
  then show ?case
  proof cases
    case left
    from "1.IH"(1) [OF left "1.prems"(1) x(2) "1.prems"(3)] left show ?thesis
      by (simp, elim sub_post_weaken) (use left a right1 in auto)
  next
    case cover
    from "1.IH"(2) [OF cover x(1) "1.prems"(2) nx(1) [OF x(1)]] cover show ?thesis
      by (simp add: nx(2) [OF x(1)], elim sub_post_weaken)
         (use cover a right1 nxt [of "bx2 b"] in auto)
  next
    case nuke
    have "minuend_at (bx2 b) (a # r1)" using nuke a by auto
    from "1.IH"(3) [OF nuke "1.prems"(1) x(2) this] nuke show ?thesis
      by (simp, elim sub_post_weaken) (use nuke a right1 right2 in auto)
  next
    case mid_end
    from "1.IH"(4) [OF mid_end(1-3) refl mid_end(4) x(1) "1.prems"(2) nx(1) [OF x(1)]] mid_end
    show ?thesis
      by (simp add: nx(2) [OF x(1)] Let_def, elim sub_post_emit)
         (use mid_end a b right1 right2 nxt [of "bx2 b"] in auto)
  next
    case mid
    have "minuend_at (bx2 b) (a # r1)" using mid a by auto
    from "1.IH"(5) [OF mid(1-3) refl mid(4) "1.prems"(1) x(2) this] mid
    show ?thesis
      by (simp add: Let_def, elim sub_post_emit) (use mid a b right1 right2 in auto)
  next
    case out
    from "1.IH"(6) [OF out refl x(1) "1.prems"(2) nx(1) [OF x(1)]] out a
    show ?thesis
      by (simp add: nx(2) [OF x(1)] Let_def, elim sub_post_emit)
         (use out a b right1 right2 nxt [of x1] in auto)
  qed
next
  case (2 x1 r2 y1 y2 rects)
  then show ?case by (auto simp: sub_post_def)
next
  case (3 x1 a r1 y1 y2 rects)
  with subtract_rest_spec [of "a # r1" x1 y1 y2 rects] show ?case
    by (auto simp: sub_post_def)
qed

lemma miSubtractO_spec:
  assumes "xsep r1" "xsep r2" "r1 \<noteq> []"
  shows "overlap_spec (-) rects r1 r2 y1 y2 (fst (miSubtractO rects r1 r2 y1 y2 ov))"
proof -
  obtain a r where r1: "r1 = a # r" using assms(3) by (auto simp: neq_Nil_conv)
  with assms have "minuend_at (bx1 a) r1" by auto
  from subtract_loop_spec [OF assms(1,2) this, of rects y1 y2] r1 show ?thesis
    by (auto simp: overlap_spec_def sub_post_def miSubtractO_def)
qed

subsection \<open>Banded lists and the pixels they cover\<close>

definition pts :: "BoxRec list \<Rightarrow> (int \<times> int) set" where
  "pts bs = {(x, y). \<exists>b \<in> set bs. INBOX b x y}"

definition before :: "BoxRec \<Rightarrow> BoxRec \<Rightarrow> bool" where
  "before a b \<longleftrightarrow> by1 a = by1 b \<and> by2 a = by2 b \<and> bx2 a < bx1 b \<or> by2 a \<le> by1 b"

definition nonempty :: "BoxRec \<Rightarrow> bool" where
  "nonempty b \<longleftrightarrow> bx1 b < bx2 b \<and> by1 b < by2 b"

definition banded :: "BoxRec list \<Rightarrow> bool" where
  "banded bs \<longleftrightarrow> sorted_wrt before bs \<and> (\<forall>b \<in> set bs. nonempty b)"

lemma pts_simps [simp]:
  "pts [] = {}"
  "pts (bs @ cs) = pts bs \<union> pts cs"
  by (auto simp: pts_def)

lemma pts_Cons: "pts (b # bs) = {(x, y). INBOX b x y} \<union> pts bs"
  by (auto simp: pts_def)

lemma banded_simps [simp]:
  "banded []"
  "banded (b # bs) \<longleftrightarrow> nonempty b \<and> (\<forall>c \<in> set bs. before b c) \<and> banded bs"
  by (auto simp: banded_def)

lemma banded_append:
  "banded (bs @ cs) \<longleftrightarrow> banded bs \<and> banded cs \<and> (\<forall>b \<in> set bs. \<forall>c \<in> set cs. before b c)"
  by (auto simp: banded_def sorted_wrt_append)

lemma banded_band: "is_band y1 y2 bs \<Longrightarrow> xsep bs \<Longrightarrow> y1 < y2 \<Longrightarrow> banded bs"
  by (induction bs) (auto simp: before_def nonempty_def is_band_def)

lemma banded_xsep: "banded bs \<Longrightarrow> is_band y1 y2 bs \<Longrightarrow> xsep bs"
  by (induction bs) (auto simp: before_def nonempty_def is_band_def)

lemma pts_band: "is_band y1 y2 bs \<Longrightarrow> pts bs = {(x, y). x \<in> spans bs \<and> y1 \<le> y \<and> y < y2}"
  by (auto simp: pts_def spans_def INBOX_def is_band_def)

lemma FindBand_spec:
  assumes "banded (r # rs)"
  shows "\<exists>band rest. FindBand (r # rs) = (band, rest) \<and> r # rs = band @ rest \<and> band \<noteq> [] \<and>
    hd band = r \<and> xsep band \<and> is_band (by1 r) (by2 r) band \<and>
    (\<forall>b \<in> set rest. by2 r \<le> by1 b) \<and> banded rest"
proof -
  let ?same = "\<lambda>b. by1 b = by1 r"
  let ?band = "r # takeWhile ?same rs" and ?rest = "dropWhile ?same rs"
  have eq: "r # rs = ?band @ ?rest" by simp
  from assms have "banded (?band @ ?rest)" by (simp only: eq [symmetric])
  then have b: "banded ?band" "banded ?rest"
    unfolding banded_append by blast+
  from assms have ne: "nonempty r" by simp
  have "by2 b = by2 r" if "b \<in> set rs" "by1 b = by1 r" for b
  proof -
    from assms that(1) have "before r b" by simp
    with that(2) ne show ?thesis by (auto simp: before_def nonempty_def)
  qed
  then have band: "is_band (by1 r) (by2 r) ?band"
    unfolding is_band_def by (auto dest!: set_takeWhileD)
  have rest: "by2 r \<le> by1 b" if "b \<in> set ?rest" for b
  proof (cases ?rest)
    case Nil
    with that show ?thesis by simp
  next
    case (Cons c cs)
    have "c \<in> set rs" by (metis Cons list.set_intros(1) set_dropWhileD)
    moreover have "by1 c \<noteq> by1 r"
      using Cons hd_dropWhile [of ?same rs] by simp
    ultimately have c: "by2 r \<le> by1 c" using assms by (auto simp: before_def)
    show ?thesis
    proof (cases "b = c")
      case False
      with that Cons have "b \<in> set cs" by auto
      with b(2) Cons have "before c b" "nonempty c" by auto
      with c show ?thesis by (auto simp: before_def nonempty_def)
    qed (use c in simp)
  qed
  show ?thesis
    using eq b(2) band rest banded_xsep [OF b(1) band] by auto
qed

text \<open>The last band of the array under construction starts at index \<open>p\<close>.\<close>

definition last_band :: "nat \<Rightarrow> BoxRec list \<Rightarrow> bool" where
  "last_band p bs \<longleftrightarrow> p \<le> length bs \<and> (\<exists>y1 y2. is_band y1 y2 (drop p bs)) \<and>
     (\<forall>a \<in> set (take p bs). \<forall>b \<in> set (drop p bs). by2 a \<le> by1 b)"

definition below :: "int \<Rightarrow> BoxRec list \<Rightarrow> bool" where
  "below y bs \<longleftrightarrow> (\<forall>b \<in> set bs. by2 b \<le> y)"

lemma below_simps [simp]:
  "below y []"
  "below y (b # bs) \<longleftrightarrow> by2 b \<le> y \<and> below y bs"
  "below y (bs @ cs) \<longleftrightarrow> below y bs \<and> below y cs"
  unfolding below_def by auto

lemma below_mono: "below y bs \<Longrightarrow> y \<le> z \<Longrightarrow> below z bs"
  unfolding below_def by (rule ballI, drule (1) bspec) (rule order_trans)

lemma same_columns:
  assumes "map (\<lambda>b. (bx1 b, bx2 b)) bs = map (\<lambda>b. (bx1 b, bx2 b)) cs"
  shows "spans bs = spans cs"
proof -
  have "spans ds = {x. \<exists>(l, r) \<in> set (map (\<lambda>b. (bx1 b, bx2 b)) ds). l \<le> x \<and> x < r}" for ds
    by (auto simp: spans_def)
  then show ?thesis by (simp only: assms)
qed

lemma last_band_self: "is_band y1 y2 cur \<Longrightarrow> below y1 bs \<Longrightarrow> last_band (length bs) (bs @ cur)"
proof -
  assume band: "is_band y1 y2 cur" and below: "below y1 bs"
  have "by2 a \<le> by1 b" if "a \<in> set bs" "b \<in> set cur" for a b
    using band below that by (simp add: is_band_def below_def)
  with band show ?thesis by (auto simp: last_band_def)
qed

text \<open>Merging keeps the pixels, the banding and the shape of the array.\<close>

lemma Coalesce_spec:
  assumes "banded (bs @ cur)" "last_band p bs" "is_band y1 y2 cur" "below y1 bs"
    "Coalesce (bs @ cur) p (length bs) = (rects, p')"
  shows "banded rects \<and> pts rects = pts (bs @ cur) \<and> last_band p' rects \<and>
    (below y (bs @ cur) \<longrightarrow> below y rects)"
proof -
  let ?P = "take p bs" and ?prev = "drop p bs"
  let ?cols = "map (\<lambda>b. (bx1 b, bx2 b))"
  obtain z1 z2 where p: "p \<le> length bs" "is_band z1 z2 ?prev"
    and sep: "\<forall>a \<in> set ?P. \<forall>b \<in> set ?prev. by2 a \<le> by1 b"
    using assms(2) by (auto simp: last_band_def)
  show ?thesis
  proof (cases "(rects, p') = (bs @ cur, length bs)")
    case True
    with assms last_band_self [OF assms(3,4)] show ?thesis by simp
  next
    case False
    with assms(5) p(1) have m: "?prev \<noteq> []" "length ?prev = length cur"
      "by2 (hd ?prev) = by1 (hd cur)" "?cols ?prev = ?cols cur"
      "rects = ?P @ map (\<lambda>b. b\<lparr>by2 := by2 (hd cur)\<rparr>) ?prev" "p' = p"
      by (auto simp: Coalesce_def miCoalesce_def Let_def split: if_splits)
    let ?new = "map (\<lambda>b. b\<lparr>by2 := y2\<rparr>) ?prev"
    have cur: "cur \<noteq> []" using m(1,2) by auto
    with m(1) have hd: "hd ?prev \<in> set ?prev" "hd cur \<in> set cur" by auto
    then have ne: "nonempty (hd ?prev)" "nonempty (hd cur)"
      using assms(1) by (auto simp: banded_def dest: in_set_dropD)
    from hd p(2) assms(3) have hdy: "by1 (hd ?prev) = z1" "by2 (hd ?prev) = z2"
      "by1 (hd cur) = y1" "by2 (hd cur) = y2"
      by (auto simp: is_band_def)
    with m(3) ne have y: "z2 = y1" "by2 (hd cur) = y2" "y1 < y2" "z1 < z2"
      by (auto simp: nonempty_def)
    have new: "is_band z1 y2 ?new" "spans ?new = spans ?prev" "xsep ?new"
    proof -
      show "is_band z1 y2 ?new" using p(2) by (auto simp: is_band_def)
      show "spans ?new = spans ?prev" by (auto simp: spans_def)
      have "banded ?prev" using assms(1) append_take_drop_id [of p bs] banded_append by metis
      from banded_xsep [OF this p(2)] show "xsep ?new"
        by (simp add: xsep_def sorted_wrt_map)
    qed
    have "banded ?P" using assms(1) append_take_drop_id [of p bs] banded_append by metis
    moreover have "banded ?new" using banded_band [OF new(1,3)] y by simp
    moreover have "\<forall>a \<in> set ?P. \<forall>b \<in> set ?new. before a b"
      using sep by (auto simp: before_def)
    ultimately have "banded rects" using m(5) y(2) by (simp add: banded_append)
    moreover have "pts rects = pts (bs @ cur)"
    proof -
      have "pts ?new = pts ?prev \<union> pts cur"
        unfolding pts_band [OF new(1)] pts_band [OF p(2)] pts_band [OF assms(3)] new(2)
          same_columns [OF m(4)]
        using y by auto
      moreover have "pts bs = pts ?P \<union> pts ?prev"
        by (metis append_take_drop_id pts_simps(2))
      ultimately show ?thesis using m(5) y(2) by auto
    qed
    moreover have "last_band p' rects"
      unfolding last_band_def using m(5,6) y(2) new(1) p(1) sep by fastforce
    moreover have "below y (bs @ cur) \<longrightarrow> below y rects"
      using m(5) y(2) cur assms(3) by (cases cur) (auto simp: below_def dest: in_set_takeD)
    ultimately show ?thesis by simp
  qed
qed

end
