(* ===== verification/RegionOp.thy ===== *)
theory RegionOp
  imports Bands
begin

text \<open>
  \<open>miRegionOp\<close> of \<^verbatim>\<open>programs/Xserver/mi/miregion.c\<close>: two banded arrays are walked one
  source band at a time, bands covered by one region only are copied or dropped, overlapping
  bands are given to the overlap procedure, and each new band is coalesced with the last.
  The locale \<open>band_operation\<close> is the contract between \<open>miRegionOp\<close> and its overlap
  procedure; union, intersection and subtraction interpret it.
\<close>

subsection \<open>Regions\<close>

text \<open>
  A region's \<open>data\<close> pointer: NULL (one rectangle, the extents), \<open>&miEmptyData\<close>,
  \<open>&miBrokenData\<close>, or an allocated array. The capacity of the array is not modelled.
\<close>

datatype RegData = SingleRect | EmptyData | BrokenData | Rects "BoxRec list"

record RegionRec =
  extents :: BoxRec
  rdata :: RegData

definition REGION_NAR :: "RegionRec \<Rightarrow> bool" where
  "REGION_NAR reg \<longleftrightarrow> rdata reg = BrokenData"

definition REGION_RECTS :: "RegionRec \<Rightarrow> BoxRec list" where
  "REGION_RECTS reg = (case rdata reg of SingleRect \<Rightarrow> [extents reg] | Rects bs \<Rightarrow> bs | _ \<Rightarrow> [])"

definition REGION_NUM_RECTS :: "RegionRec \<Rightarrow> nat" where
  "REGION_NUM_RECTS reg = length (REGION_RECTS reg)"

definition REGION_NIL :: "RegionRec \<Rightarrow> bool" where
  "REGION_NIL reg \<longleftrightarrow> rdata reg \<noteq> SingleRect \<and> REGION_RECTS reg = []"

definition miEmptyBox :: BoxRec where
  "miEmptyBox = Box 0 0 0 0"

definition miRegionBreak :: "RegionRec \<Rightarrow> bool \<times> RegionRec" where
  "miRegionBreak reg = (False, \<lparr>extents = miEmptyBox, rdata = BrokenData\<rparr>)"

subsection \<open>The walk\<close>

type_synonym overlap_func =
  "BoxRec list \<Rightarrow> BoxRec list \<Rightarrow> BoxRec list \<Rightarrow> int \<Rightarrow> int \<Rightarrow> bool \<Rightarrow> BoxRec list \<times> bool"

text \<open>
  The variables of the loop: the boxes from \<open>r1\<close> to \<open>r1End\<close> and from \<open>r2\<close> to \<open>r2End\<close>, the
  array of the new region, \<open>prevBand\<close>, \<open>ybot\<close> and \<open>*pOverlap\<close>.
\<close>

record op_st =
  rem1 :: "BoxRec list"
  rem2 :: "BoxRec list"
  newrects :: "BoxRec list"
  prevBand :: nat
  ybot :: int
  pOverlap :: bool

definition non_overlap ::
    "bool \<Rightarrow> BoxRec list \<Rightarrow> int \<Rightarrow> int \<Rightarrow> BoxRec list \<Rightarrow> nat \<Rightarrow> BoxRec list \<times> nat" where
  "non_overlap appendNon band tp bt rects prev =
     (if appendNon \<and> tp \<noteq> bt
      then Coalesce (miAppendNonO rects band tp bt) prev (length rects)
      else (rects, prev))"

definition op_step :: "overlap_func \<Rightarrow> bool \<Rightarrow> bool \<Rightarrow> op_st \<Rightarrow> op_st" where
  "op_step overlapFunc appendNon1 appendNon2 st =
     (let r1 = hd (rem1 st); r2 = hd (rem2 st);
          (band1, rest1) = FindBand (rem1 st);
          (band2, rest2) = FindBand (rem2 st);
          r1y1 = by1 r1; r2y1 = by1 r2;
          (rects, prev) =
            (if r1y1 < r2y1
             then non_overlap appendNon1 band1 (max r1y1 (ybot st)) (min (by2 r1) r2y1)
                    (newrects st) (prevBand st)
             else if r2y1 < r1y1
             then non_overlap appendNon2 band2 (max r2y1 (ybot st)) (min (by2 r2) r1y1)
                    (newrects st) (prevBand st)
             else (newrects st, prevBand st));
          ytop = (if r1y1 < r2y1 then r2y1 else r1y1);
          yb = min (by2 r1) (by2 r2);
          (rects', prev', ov') =
            (if yb > ytop
             then (case overlapFunc rects band1 band2 ytop yb (pOverlap st) of
                     (rs, ov) \<Rightarrow> (case Coalesce rs prev (length rects) of (rs', p) \<Rightarrow> (rs', p, ov)))
             else (rects, prev, pOverlap st))
      in \<lparr>rem1 = (if by2 r1 = yb then rest1 else rem1 st),
          rem2 = (if by2 r2 = yb then rest2 else rem2 st),
          newrects = rects', prevBand = prev', ybot = yb, pOverlap = ov'\<rparr>)"

lemma FindBand_rest_shorter: "bs \<noteq> [] \<Longrightarrow> length (snd (FindBand bs)) < length bs"
  by (cases bs) (auto simp: le_imp_less_Suc length_dropWhile_le)

lemma op_step_rem:
  "rem1 (op_step f a1 a2 st) = (if by2 (hd (rem1 st)) = min (by2 (hd (rem1 st))) (by2 (hd (rem2 st)))
     then snd (FindBand (rem1 st)) else rem1 st)"
  "rem2 (op_step f a1 a2 st) = (if by2 (hd (rem2 st)) = min (by2 (hd (rem1 st))) (by2 (hd (rem2 st)))
     then snd (FindBand (rem2 st)) else rem2 st)"
  by (simp_all add: op_step_def Let_def split: prod.splits)

function op_loop :: "overlap_func \<Rightarrow> bool \<Rightarrow> bool \<Rightarrow> op_st \<Rightarrow> op_st" where
  "op_loop overlapFunc appendNon1 appendNon2 st =
     (if rem1 st \<noteq> [] \<and> rem2 st \<noteq> []
      then op_loop overlapFunc appendNon1 appendNon2
             (op_step overlapFunc appendNon1 appendNon2 st)
      else st)"
  by pat_completeness auto
termination
proof (relation "measure (\<lambda>(f, a1, a2, st). length (rem1 st) + length (rem2 st))", goal_cases)
  case (2 f a1 a2 st)
  then have "length (snd (FindBand (rem1 st))) < length (rem1 st)"
    "length (snd (FindBand (rem2 st))) < length (rem2 st)"
    by (auto intro: FindBand_rest_shorter)
  then show ?case by (auto simp: op_step_rem min_def)
qed simp

declare op_loop.simps [simp del]

text \<open>
  After the loop one region may have boxes left: the first band is clipped and coalesced,
  the others are appended as they are.
\<close>

definition op_tail :: "BoxRec list \<Rightarrow> BoxRec list \<Rightarrow> nat \<Rightarrow> int \<Rightarrow> BoxRec list" where
  "op_tail r rects prev yb =
     (let (band, rest) = FindBand r
      in fst (Coalesce (miAppendNonO rects band (max (by1 (hd r)) yb) (by2 (hd r)))
                prev (length rects)) @ rest)"

definition op_finish :: "bool \<Rightarrow> bool \<Rightarrow> op_st \<Rightarrow> BoxRec list" where
  "op_finish appendNon1 appendNon2 st =
     (if rem1 st \<noteq> [] \<and> appendNon1
      then op_tail (rem1 st) (newrects st) (prevBand st) (ybot st)
      else if rem2 st \<noteq> [] \<and> appendNon2
      then op_tail (rem2 st) (newrects st) (prevBand st) (ybot st)
      else newrects st)"

definition op_init :: "BoxRec list \<Rightarrow> BoxRec list \<Rightarrow> bool \<Rightarrow> op_st" where
  "op_init r1 r2 overlap =
     \<lparr>rem1 = r1, rem2 = r2, newrects = [], prevBand = 0,
      ybot = min (by1 (hd r1)) (by1 (hd r2)), pOverlap = overlap\<rparr>"

text \<open>
  \<open>miRegionOp\<close> returns the status, the new region and the overlap flag. The extents of the
  new region are only set for a one-rectangle result; the callers set them otherwise.
\<close>

definition miRegionOp ::
    "RegionRec \<Rightarrow> RegionRec \<Rightarrow> RegionRec \<Rightarrow> overlap_func \<Rightarrow> bool \<Rightarrow> bool \<Rightarrow> bool \<Rightarrow>
     bool \<times> RegionRec \<times> bool" where
  "miRegionOp newReg reg1 reg2 overlapFunc appendNon1 appendNon2 overlap =
     (if REGION_NAR reg1 \<or> REGION_NAR reg2
      then (False, snd (miRegionBreak newReg), overlap)
      else
        (let st = op_loop overlapFunc appendNon1 appendNon2
                    (op_init (REGION_RECTS reg1) (REGION_RECTS reg2) overlap);
             rects = op_finish appendNon1 appendNon2 st
         in (True,
             (case rects of
                [] \<Rightarrow> newReg\<lparr>rdata := EmptyData\<rparr>
              | [b] \<Rightarrow> newReg\<lparr>extents := b, rdata := SingleRect\<rparr>
              | _ \<Rightarrow> newReg\<lparr>rdata := Rects rects\<rparr>),
             pOverlap st)))"

subsection \<open>The array under construction\<close>

definition built :: "int \<Rightarrow> BoxRec list \<Rightarrow> nat \<Rightarrow> bool" where
  "built y rects p \<longleftrightarrow> banded rects \<and> last_band p rects \<and> below y rects"

lemma built_mono: "built y rects p \<Longrightarrow> y \<le> z \<Longrightarrow> built z rects p"
  unfolding built_def using below_mono by blast

text \<open>Appending a band and coalescing it adds exactly the pixels of the band.\<close>

lemma add_band:
  assumes "built y rects p" "xsep band" "is_band y1 y2 band" "y \<le> y1" "y1 < y2"
    "Coalesce (rects @ band) p (length rects) = (rects', p')"
  shows "built y2 rects' p' \<and>
    pts rects' = pts rects \<union> {(x, y). x \<in> spans band \<and> y1 \<le> y \<and> y < y2}"
proof -
  have b: "banded rects" "last_band p rects" "below y rects"
    using assms(1) by (simp_all add: built_def)
  then have low: "below y1 rects" "below y2 rects"
    using assms(4,5) below_mono by force+
  have "before a c" if "a \<in> set rects" "c \<in> set band" for a c
    using that low(1) assms(3) by (auto simp: below_def is_band_def before_def)
  then have "banded (rects @ band)"
    using b(1) banded_band [OF assms(3,2,5)] by (auto simp: banded_append)
  moreover have "below y2 (rects @ band)"
    using low(2) assms(3) by (auto simp: below_def is_band_def)
  ultimately show ?thesis
    using Coalesce_spec [OF _ b(2) assms(3) low(1) assms(6), of y2]
    by (auto simp: built_def pts_band [OF assms(3)])
qed

lemma miAppendNonO_band:
  "\<exists>new. miAppendNonO rects band y1 y2 = rects @ new \<and> is_band y1 y2 new \<and>
     spans new = spans band \<and> (xsep band \<longrightarrow> xsep new)"
  unfolding miAppendNonO_def
  by (rule exI [of _ "map (\<lambda>b. Box (bx1 b) y1 (bx2 b) y2) band"])
     (auto simp: is_band_def spans_def xsep_def sorted_wrt_map)

lemma non_overlap_spec:
  assumes "built y rects p" "xsep band" "y \<le> tp" "tp \<le> bt"
    "non_overlap app band tp bt rects p = (rects', p')"
  shows "built bt rects' p' \<and> pts rects' = pts rects \<union>
    {(x, y). app \<and> x \<in> spans band \<and> tp \<le> y \<and> y < bt}"
proof (cases "app \<and> tp \<noteq> bt")
  case True
  obtain new where new: "miAppendNonO rects band tp bt = rects @ new" "is_band tp bt new"
    "spans new = spans band" "xsep new"
    using miAppendNonO_band [of rects band tp bt] assms(2) by blast
  from True assms(4) have "tp < bt" by simp
  moreover have "Coalesce (rects @ new) p (length rects) = (rects', p')"
    using assms(5) True new(1) by (simp add: non_overlap_def)
  ultimately show ?thesis
    using add_band [OF assms(1) new(4,2) assms(3)] True new(3) by simp
next
  case False
  with assms show ?thesis
    using built_mono [OF assms(1), of bt] by (auto simp: non_overlap_def)
qed

lemma op_tail_correct:
  assumes "built yb rects p" "banded r" "r \<noteq> []" "yb < by2 (hd r)"
  shows "banded (op_tail r rects p yb) \<and>
    pts (op_tail r rects p yb) = pts rects \<union> {(x, y). yb \<le> y \<and> (x, y) \<in> pts r}"
proof -
  obtain a t where r: "r = a # t" using assms(3) by (auto simp: neq_Nil_conv)
  obtain band rest where B: "FindBand r = (band, rest)" "r = band @ rest" "xsep band"
    "is_band (by1 a) (by2 a) band" "\<forall>b \<in> set rest. by2 a \<le> by1 b" "banded rest"
    using FindBand_spec [of a t] assms(2) unfolding r by blast
  let ?tp = "max (by1 a) yb"
  obtain new where new: "miAppendNonO rects band ?tp (by2 a) = rects @ new" "is_band ?tp (by2 a) new"
    "spans new = spans band" "xsep new"
    using miAppendNonO_band [of rects band ?tp "by2 a"] B(3) by blast
  obtain rects' p' where co: "Coalesce (rects @ new) p (length rects) = (rects', p')" by fastforce
  have "?tp < by2 a" using assms(2,4) by (auto simp: r nonempty_def)
  note ab = add_band [OF assms(1) new(4,2) max.cobounded2 this co]
  have eq: "op_tail r rects p yb = rects' @ rest"
    using co new(1) B(1) by (simp add: op_tail_def r)
  have "before b c" if "b \<in> set rects'" "c \<in> set rest" for b c
    using ab B(5) that by (fastforce simp: built_def below_def before_def)
  with ab B(6) have "banded (op_tail r rects p yb)"
    by (simp add: eq banded_append built_def)
  moreover have "yb \<le> y" if "(x, y) \<in> pts rest" for x y
    using that B(5) assms(4) by (fastforce simp: r pts_def INBOX_def)
  moreover have "pts (op_tail r rects p yb) = pts rects' \<union> pts rest"
    by (simp add: eq)
  moreover have "pts r = {(x, y). x \<in> spans band \<and> by1 a \<le> y \<and> y < by2 a} \<union> pts rest"
    by (subst B(2)) (simp add: pts_band [OF B(4)])
  ultimately show ?thesis
    using ab by (auto simp: new(3))
qed

subsection \<open>The walk computes the pointwise operation\<close>

definition op_inv :: "op_st \<Rightarrow> bool" where
  "op_inv st \<longleftrightarrow> banded (rem1 st) \<and> banded (rem2 st) \<and> built (ybot st) (newrects st) (prevBand st) \<and>
     (rem1 st \<noteq> [] \<longrightarrow> ybot st < by2 (hd (rem1 st))) \<and>
     (rem2 st \<noteq> [] \<longrightarrow> ybot st < by2 (hd (rem2 st))) \<and>
     (rem1 st \<noteq> [] \<and> rem2 st \<noteq> [] \<longrightarrow>
        ybot st \<le> max (by1 (hd (rem1 st))) (by1 (hd (rem2 st))))"

text \<open>The pixels of the final result: those built so far and those still to be produced.\<close>

definition op_target :: "(bool \<Rightarrow> bool \<Rightarrow> bool) \<Rightarrow> op_st \<Rightarrow> (int \<times> int) set" where
  "op_target op st = pts (newrects st) \<union>
     {(x, y). ybot st \<le> y \<and> op ((x, y) \<in> pts (rem1 st)) ((x, y) \<in> pts (rem2 st))}"

definition pointwise :: "(bool \<Rightarrow> bool \<Rightarrow> bool) \<Rightarrow> 'a set \<Rightarrow> 'a set \<Rightarrow> 'a set" where
  "pointwise op S T = {x. op (x \<in> S) (x \<in> T)}"

locale band_operation =
  fixes ofun :: overlap_func
    and op :: "bool \<Rightarrow> bool \<Rightarrow> bool"
    and a1 a2 :: bool
  assumes overlap: "xsep B1 \<Longrightarrow> xsep B2 \<Longrightarrow> B1 \<noteq> [] \<Longrightarrow> B2 \<noteq> [] \<Longrightarrow>
      overlap_spec (pointwise op) rects B1 B2 y1 y2 (fst (ofun rects B1 B2 y1 y2 ov))"
    and only1: "op True False = a1"
    and only2: "op False True = a2"
    and neither: "\<not> op False False"
begin

lemma op_only: "op P False \<longleftrightarrow> a1 \<and> P" "op False P \<longleftrightarrow> a2 \<and> P"
  using only1 only2 neither by (cases P; simp)+

lemma first_phase:
  assumes built: "built yb0 rects p" and xs: "xsep band1" "xsep band2"
    and ord: "yb0 \<le> max y1 y2" "yb0 < e1" "yb0 < e2" "y1 < e1" "y2 < e2"
    and res: "(if y1 < y2 then non_overlap a1 band1 (max y1 yb0) (min e1 y2) rects p
        else if y2 < y1 then non_overlap a2 band2 (max y2 yb0) (min e2 y1) rects p
        else (rects, p)) = (rects', p')"
  shows "built (min (max y1 y2) (min e1 e2)) rects' p' \<and> pts rects' = pts rects \<union>
    {(x, y). yb0 \<le> y \<and> y < min (max y1 y2) (min e1 e2) \<and>
       op (x \<in> spans band1 \<and> y1 \<le> y) (x \<in> spans band2 \<and> y2 \<le> y)}"
proof -
  let ?m = "min (max y1 y2) (min e1 e2)"
  let ?P = "\<lambda>x y. op (x \<in> spans band1 \<and> y1 \<le> y) (x \<in> spans band2 \<and> y2 \<le> y)"
  consider "y1 < y2" | "y2 < y1" | "y1 = y2" by linarith
  then show ?thesis
  proof cases
    case 1
    with ord have m: "?m = min e1 y2" "max y1 yb0 \<le> min e1 y2" by auto
    from 1 res have "non_overlap a1 band1 (max y1 yb0) (min e1 y2) rects p = (rects', p')" by simp
    note no = non_overlap_spec [OF built xs(1) max.cobounded2 m(2) this]
    have eq: "(a1 \<and> x \<in> spans band1 \<and> max y1 yb0 \<le> y \<and> y < min e1 y2) \<longleftrightarrow>
        (yb0 \<le> y \<and> y < min e1 y2 \<and> ?P x y)" for x y
    proof (cases "y < min e1 y2")
      case True
      then have "\<not> y2 \<le> y" by simp
      then show ?thesis using True by (auto simp: op_only)
    qed auto
    show ?thesis using no unfolding m(1) eq .
  next
    case 2
    with ord have m: "?m = min e2 y1" "max y2 yb0 \<le> min e2 y1" by auto
    from 2 res have "non_overlap a2 band2 (max y2 yb0) (min e2 y1) rects p = (rects', p')" by simp
    note no = non_overlap_spec [OF built xs(2) max.cobounded2 m(2) this]
    have eq: "(a2 \<and> x \<in> spans band2 \<and> max y2 yb0 \<le> y \<and> y < min e2 y1) \<longleftrightarrow>
        (yb0 \<le> y \<and> y < min e2 y1 \<and> ?P x y)" for x y
    proof (cases "y < min e2 y1")
      case True
      then have "\<not> y1 \<le> y" by simp
      then show ?thesis using True by (auto simp: op_only)
    qed auto
    show ?thesis using no unfolding m(1) eq .
  next
    case 3
    with res have eq: "rects' = rects" "p' = p" by simp_all
    have "yb0 \<le> ?m" using 3 ord by auto
    moreover have "\<not> (y < ?m \<and> ?P x y)" for x y
    proof (cases "y1 \<le> y")
      case True
      with 3 ord show ?thesis by auto
    next
      case False
      with 3 neither show ?thesis by auto
    qed
    ultimately show ?thesis using built_mono [OF built, of ?m] eq by blast
  qed
qed

lemma second_phase:
  assumes built: "built (min yt yb) rects p" and xs: "xsep band1" "xsep band2"
    and ne: "band1 \<noteq> []" "band2 \<noteq> []"
    and res: "(if yb > yt
        then (case ofun rects band1 band2 yt yb ov of
                (rs, o') \<Rightarrow> (case Coalesce rs p (length rects) of (rs', q) \<Rightarrow> (rs', q, o')))
        else (rects, p, ov)) = (rects', p', ov')"
  shows "built yb rects' p' \<and> pts rects' = pts rects \<union>
    {(x, y). yt \<le> y \<and> y < yb \<and> op (x \<in> spans band1) (x \<in> spans band2)}"
proof (cases "yt < yb")
  case True
  obtain new where new: "fst (ofun rects band1 band2 yt yb ov) = rects @ new" "xsep new"
    "is_band yt yb new" "spans new = pointwise op (spans band1) (spans band2)"
    using overlap [OF xs ne, of rects yt yb ov] by (auto simp: overlap_spec_def)
  then have "Coalesce (rects @ new) p (length rects) = (rects', p')"
    using res True by (auto split: prod.splits)
  with True add_band [OF _ new(2,3) order_refl True] built new(4) show ?thesis
    by (auto simp: pointwise_def)
next
  case False
  with res built show ?thesis by auto
qed

lemma op_step_correct:
  assumes inv: "op_inv st" and ne: "rem1 st \<noteq> []" "rem2 st \<noteq> []"
  shows "op_inv (op_step ofun a1 a2 st)"
    "op_target op (op_step ofun a1 a2 st) = op_target op st"
proof -
  obtain r1 t1 r2 t2 where r: "rem1 st = r1 # t1" "rem2 st = r2 # t2"
    using ne by (auto simp: neq_Nil_conv)
  have I: "banded (r1 # t1)" "banded (r2 # t2)" "built (ybot st) (newrects st) (prevBand st)"
    "ybot st < by2 r1" "ybot st < by2 r2" "ybot st \<le> max (by1 r1) (by1 r2)"
    using inv r by (simp_all add: op_inv_def)
  obtain band1 rest1 where B1: "FindBand (r1 # t1) = (band1, rest1)" "r1 # t1 = band1 @ rest1"
    "band1 \<noteq> []" "xsep band1" "is_band (by1 r1) (by2 r1) band1"
    "\<forall>b \<in> set rest1. by2 r1 \<le> by1 b" "banded rest1"
    using FindBand_spec [OF I(1)] by blast
  obtain band2 rest2 where B2: "FindBand (r2 # t2) = (band2, rest2)" "r2 # t2 = band2 @ rest2"
    "band2 \<noteq> []" "xsep band2" "is_band (by1 r2) (by2 r2) band2"
    "\<forall>b \<in> set rest2. by2 r2 \<le> by1 b" "banded rest2"
    using FindBand_spec [OF I(2)] by blast
  have nonempty: "by1 r1 < by2 r1" "by1 r2 < by2 r2"
    using I(1,2) by (auto simp: nonempty_def)
  let ?yt = "max (by1 r1) (by1 r2)" and ?yb = "min (by2 r1) (by2 r2)"
  obtain rects p where ph1: "(if by1 r1 < by1 r2
      then non_overlap a1 band1 (max (by1 r1) (ybot st)) (min (by2 r1) (by1 r2)) (newrects st) (prevBand st)
      else if by1 r2 < by1 r1
      then non_overlap a2 band2 (max (by1 r2) (ybot st)) (min (by2 r2) (by1 r1)) (newrects st) (prevBand st)
      else (newrects st, prevBand st)) = (rects, p)"
    by fastforce
  note P1 = first_phase [OF I(3) B1(4) B2(4) I(6,4,5) nonempty ph1]
  obtain rects' p' ov' where ph2: "(if ?yb > ?yt
      then (case ofun rects band1 band2 ?yt ?yb (pOverlap st) of
              (rs, o') \<Rightarrow> (case Coalesce rs p (length rects) of (rs', q) \<Rightarrow> (rs', q, o')))
      else (rects, p, pOverlap st)) = (rects', p', ov')"
    by (metis prod_cases3)
  note P2 = second_phase [OF conjunct1 [OF P1] B1(4) B2(4) B1(3) B2(3) ph2]
  have yt: "(if by1 r1 < by1 r2 then by1 r2 else by1 r1) = ?yt" by auto
  let ?st = "\<lparr>rem1 = (if by2 r1 = ?yb then rest1 else r1 # t1),
      rem2 = (if by2 r2 = ?yb then rest2 else r2 # t2),
      newrects = rects', prevBand = p', ybot = ?yb, pOverlap = ov'\<rparr>"
  have step: "op_step ofun a1 a2 st = ?st"
    unfolding op_step_def r list.sel B1(1) B2(1) Let_def prod.case ph1 yt ph2 by simp
  have in1: "(x, y) \<in> pts (r1 # t1) \<longleftrightarrow>
      x \<in> spans band1 \<and> by1 r1 \<le> y \<and> y < by2 r1 \<or> (x, y) \<in> pts rest1" for x y
    unfolding B1(2) by (simp add: pts_band [OF B1(5)])
  have in2: "(x, y) \<in> pts (r2 # t2) \<longleftrightarrow>
      x \<in> spans band2 \<and> by1 r2 \<le> y \<and> y < by2 r2 \<or> (x, y) \<in> pts rest2" for x y
    unfolding B2(2) by (simp add: pts_band [OF B2(5)])
  have late: "(x, y) \<in> pts rest1 \<Longrightarrow> by2 r1 \<le> y" "(x, y) \<in> pts rest2 \<Longrightarrow> by2 r2 \<le> y" for x y
    using B1(6) B2(6) by (fastforce simp: pts_def INBOX_def)+
  have built': "built ?yb rects' p'" using P2 by simp
  have pts': "pts rects' = pts (newrects st) \<union> {(x, y). ybot st \<le> y \<and> y < ?yb \<and>
      op (x \<in> spans band1 \<and> by1 r1 \<le> y) (x \<in> spans band2 \<and> by1 r2 \<le> y)}"
  proof -
    have "(x, y) \<in> pts rects' \<longleftrightarrow> (x, y) \<in> pts (newrects st) \<or> ybot st \<le> y \<and> y < ?yb \<and>
      op (x \<in> spans band1 \<and> by1 r1 \<le> y) (x \<in> spans band2 \<and> by1 r2 \<le> y)" for x y
    proof (cases "y < ?yt")
      case True
      then show ?thesis using P1 P2 by auto
    next
      case False
      then have "by1 r1 \<le> y" "by1 r2 \<le> y" "ybot st \<le> y" using I(6) by auto
      with False show ?thesis using P1 P2 by auto
    qed
    then show ?thesis by auto
  qed
  have same: "(x, y) \<in> pts (rem1 ?st) \<longleftrightarrow> (x, y) \<in> pts (r1 # t1)"
    "(x, y) \<in> pts (rem2 ?st) \<longleftrightarrow> (x, y) \<in> pts (r2 # t2)" if "?yb \<le> y" for x y
    using that in1 [of x y] in2 [of x y] by auto
  have early: "(x, y) \<in> pts (r1 # t1) \<longleftrightarrow> x \<in> spans band1 \<and> by1 r1 \<le> y"
    "(x, y) \<in> pts (r2 # t2) \<longleftrightarrow> x \<in> spans band2 \<and> by1 r2 \<le> y" if "y < ?yb" for x y
    using that in1 [of x y] in2 [of x y] late [of x y] by auto
  have "(x, y) \<in> op_target op ?st \<longleftrightarrow> (x, y) \<in> op_target op st" for x y
  proof (cases "y < ?yb")
    case True
    then show ?thesis
      using early [OF True] by (auto simp: op_target_def r pts')
  next
    case False
    then have "?yb \<le> y" "ybot st \<le> y" using I(4,5) by auto
    with same [of y x] False show ?thesis by (auto simp: op_target_def r pts')
  qed
  then show "op_target op (op_step ofun a1 a2 st) = op_target op st"
    unfolding step by auto
  have adv: "rest1 \<noteq> [] \<Longrightarrow> by2 r1 \<le> by1 (hd rest1) \<and> by1 (hd rest1) < by2 (hd rest1)"
    "rest2 \<noteq> [] \<Longrightarrow> by2 r2 \<le> by1 (hd rest2) \<and> by1 (hd rest2) < by2 (hd rest2)"
    using B1(6,7) B2(6,7) by (cases rest1; cases rest2; auto simp: nonempty_def)+
  have "op_inv ?st"
    unfolding op_inv_def using I(1,2) B1(7) B2(7) built' adv by (auto simp: min_def max_def)
  then show "op_inv (op_step ofun a1 a2 st)" unfolding step .
qed

lemma op_loop_correct:
  "op_inv st \<Longrightarrow> op_inv (op_loop ofun a1 a2 st) \<and>
     op_target op (op_loop ofun a1 a2 st) = op_target op st \<and>
     (rem1 (op_loop ofun a1 a2 st) = [] \<or> rem2 (op_loop ofun a1 a2 st) = [])"
proof (induction "length (rem1 st) + length (rem2 st)" arbitrary: st rule: less_induct)
  case less
  show ?case
  proof (cases "rem1 st \<noteq> [] \<and> rem2 st \<noteq> []")
    case True
    let ?st = "op_step ofun a1 a2 st"
    have "length (rem1 ?st) + length (rem2 ?st) < length (rem1 st) + length (rem2 st)"
      using True FindBand_rest_shorter [of "rem1 st"] FindBand_rest_shorter [of "rem2 st"]
      by (auto simp: op_step_rem min_def)
    from less.hyps [OF this] op_step_correct [OF less.prems] True show ?thesis
      by (simp add: op_loop.simps [of _ _ _ st])
  next
    case False
    with less.prems show ?thesis by (auto simp: op_loop.simps [of _ _ _ st])
  qed
qed

lemma op_finish_correct:
  assumes "op_inv st" "rem1 st = [] \<or> rem2 st = []"
  shows "banded (op_finish a1 a2 st) \<and> pts (op_finish a1 a2 st) = op_target op st"
proof -
  have built: "built (ybot st) (newrects st) (prevBand st)" and b: "banded (rem1 st)" "banded (rem2 st)"
    using assms(1) by (simp_all add: op_inv_def)
  have tail: "banded (op_tail r (newrects st) (prevBand st) (ybot st)) \<and>
      pts (op_tail r (newrects st) (prevBand st) (ybot st)) =
        pts (newrects st) \<union> {(x, y). ybot st \<le> y \<and> (x, y) \<in> pts r}"
    if r: "banded r" "r \<noteq> []" "ybot st < by2 (hd r)" for r
    using op_tail_correct [OF built r] by blast
  consider "rem1 st \<noteq> []" "rem2 st = []" | "rem1 st = []" "rem2 st \<noteq> []"
    | "rem1 st = []" "rem2 st = []"
    using assms(2) by blast
  then show ?thesis
  proof cases
    case 1
    with tail [OF b(1)] assms(1) built show ?thesis
      by (auto simp: op_finish_def op_target_def op_inv_def op_only built_def)
  next
    case 2
    with tail [OF b(2)] assms(1) built show ?thesis
      by (auto simp: op_finish_def op_target_def op_inv_def op_only built_def)
  next
    case 3
    with built neither show ?thesis
      by (auto simp: op_finish_def op_target_def built_def)
  qed
qed

text \<open>The whole walk, on two nonempty banded arrays.\<close>

lemma walk_correct:
  assumes "banded r1" "banded r2" "r1 \<noteq> []" "r2 \<noteq> []"
  shows "banded (op_finish a1 a2 (op_loop ofun a1 a2 (op_init r1 r2 ov))) \<and>
    pts (op_finish a1 a2 (op_loop ofun a1 a2 (op_init r1 r2 ov))) = pointwise op (pts r1) (pts r2)"
proof -
  let ?st = "op_init r1 r2 ov"
  have inv: "op_inv ?st"
    using assms by (cases r1; cases r2)
      (auto simp: op_inv_def op_init_def built_def last_band_def nonempty_def is_band_def)
  have low: "by1 (hd r) \<le> y" if "(x, y) \<in> pts r" "banded r" for x y and r :: "BoxRec list"
    using that by (cases r) (fastforce simp: pts_def INBOX_def before_def nonempty_def)+
  have "op_target op ?st = pointwise op (pts r1) (pts r2)"
  proof -
    have "ybot ?st \<le> y" if "op ((x, y) \<in> pts r1) ((x, y) \<in> pts r2)" for x y
    proof -
      have "(x, y) \<in> pts r1 \<or> (x, y) \<in> pts r2"
        using that neither by (cases "(x, y) \<in> pts r1"; cases "(x, y) \<in> pts r2") auto
      with low assms show ?thesis by (fastforce simp: op_init_def)
    qed
    then show ?thesis by (auto simp: op_target_def op_init_def pointwise_def)
  qed
  with op_loop_correct [OF inv] op_finish_correct show ?thesis by metis
qed

end

subsection \<open>The three operations\<close>

interpretation rgn_inter: band_operation miIntersectO "(\<and>)" False False
proof unfold_locales
  fix B1 B2 rects :: "BoxRec list" and y1 y2 ov
  assume "xsep B1" "xsep B2"
  moreover have "pointwise (\<and>) = ((\<inter>) :: int set \<Rightarrow> _)" by (auto simp: pointwise_def fun_eq_iff)
  ultimately show "overlap_spec (pointwise (\<and>)) rects B1 B2 y1 y2
      (fst (miIntersectO rects B1 B2 y1 y2 ov))"
    using miIntersectO_spec by simp
qed auto

interpretation rgn_union: band_operation miUnionO "(\<or>)" True True
proof unfold_locales
  fix B1 B2 rects :: "BoxRec list" and y1 y2 ov
  assume "xsep B1" "xsep B2" "B1 \<noteq> []" "B2 \<noteq> []"
  moreover have "pointwise (\<or>) = ((\<union>) :: int set \<Rightarrow> _)" by (auto simp: pointwise_def fun_eq_iff)
  ultimately show "overlap_spec (pointwise (\<or>)) rects B1 B2 y1 y2
      (fst (miUnionO rects B1 B2 y1 y2 ov))"
    using miUnionO_spec by simp
qed auto

interpretation rgn_diff: band_operation miSubtractO "\<lambda>a b. a \<and> \<not> b" True False
proof unfold_locales
  fix B1 B2 rects :: "BoxRec list" and y1 y2 ov
  assume "xsep B1" "xsep B2" "B1 \<noteq> []" "B2 \<noteq> []"
  moreover have "pointwise (\<lambda>a b. a \<and> \<not> b) = ((-) :: int set \<Rightarrow> _)"
    by (auto simp: pointwise_def fun_eq_iff)
  ultimately show "overlap_spec (pointwise (\<lambda>a b. a \<and> \<not> b)) rects B1 B2 y1 y2
      (fst (miSubtractO rects B1 B2 y1 y2 ov))"
    using miSubtractO_spec by simp
qed auto

end
