(* ===== verification/Regions.thy ===== *)
theory Regions
  imports RegionOp
begin

text \<open>
  The region operations of \<^verbatim>\<open>programs/Xserver/mi/miregion.c\<close> that the server calls: copy,
  intersection, union, subtraction, inversion, and the queries on a region. The operations take
  pointers, and the destination may be one of the sources, so they are modelled on a store of
  regions. Memory allocation is assumed to succeed.
\<close>

subsection \<open>The operations\<close>

type_synonym addr = nat
type_synonym regions = "addr \<Rightarrow> RegionRec"

definition miRegionInit :: "BoxRec option \<Rightarrow> int \<Rightarrow> RegionRec" where
  "miRegionInit rect sz =
     (case rect of
        Some r \<Rightarrow> \<lparr>extents = r, rdata = SingleRect\<rparr>
      | None \<Rightarrow> \<lparr>extents = miEmptyBox, rdata = (if sz > 1 then Rects [] else EmptyData)\<rparr>)"

definition miRegionCreate :: "BoxRec option \<Rightarrow> int \<Rightarrow> RegionRec" where
  "miRegionCreate rect sz =
     (case rect of
        Some r \<Rightarrow> \<lparr>extents = r, rdata = SingleRect\<rparr>
      | None \<Rightarrow> \<lparr>extents = miEmptyBox, rdata = (if sz > 1 then Rects [] else EmptyData)\<rparr>)"

definition miRegionReset :: "RegionRec \<Rightarrow> BoxRec \<Rightarrow> RegionRec" where
  "miRegionReset reg box = reg\<lparr>extents := box, rdata := SingleRect\<rparr>"

definition empty_at :: "BoxRec \<Rightarrow> BoxRec" where
  "empty_at e = Box (bx1 e) (by1 e) (bx1 e) (by1 e)"

definition miRegionEmpty :: "RegionRec \<Rightarrow> RegionRec" where
  "miRegionEmpty reg = reg\<lparr>extents := empty_at (extents reg), rdata := EmptyData\<rparr>"

definition miRegionNotEmpty :: "RegionRec \<Rightarrow> bool" where
  "miRegionNotEmpty reg \<longleftrightarrow> \<not> REGION_NIL reg"

definition miRegionBroken :: "RegionRec \<Rightarrow> bool" where
  "miRegionBroken reg \<longleftrightarrow> REGION_NAR reg"

definition miRegionExtents :: "RegionRec \<Rightarrow> BoxRec" where
  "miRegionExtents reg = extents reg"

fun boxes_equal :: "BoxRec list \<Rightarrow> BoxRec list \<Rightarrow> bool" where
  "boxes_equal (a # as) (b # bs) =
     (if bx1 a \<noteq> bx1 b then False
      else if bx2 a \<noteq> bx2 b then False
      else if by1 a \<noteq> by1 b then False
      else if by2 a \<noteq> by2 b then False
      else boxes_equal as bs)"
| "boxes_equal _ _ = True"

definition miRegionEqual :: "RegionRec \<Rightarrow> RegionRec \<Rightarrow> bool" where
  "miRegionEqual reg1 reg2 =
     (if bx1 (extents reg1) \<noteq> bx1 (extents reg2) then False
      else if bx2 (extents reg1) \<noteq> bx2 (extents reg2) then False
      else if by1 (extents reg1) \<noteq> by1 (extents reg2) then False
      else if by2 (extents reg1) \<noteq> by2 (extents reg2) then False
      else if REGION_NUM_RECTS reg1 \<noteq> REGION_NUM_RECTS reg2 then False
      else boxes_equal (REGION_RECTS reg1) (REGION_RECTS reg2))"

definition miRegionCopy :: "regions \<Rightarrow> addr \<Rightarrow> addr \<Rightarrow> bool \<times> regions" where
  "miRegionCopy h dst src = (if dst = src then (True, h) else (True, h(dst := h src)))"

text \<open>
  \<open>miSetExtents\<close>: top and bottom come from the first and the last box, the sides from a scan.
  An allocated array is nonempty whenever the function is called on a valid region.
\<close>

fun widen :: "BoxRec \<Rightarrow> BoxRec list \<Rightarrow> BoxRec" where
  "widen e [] = e"
| "widen e (b # bs) =
     (let e1 = (if bx1 b < bx1 e then e\<lparr>bx1 := bx1 b\<rparr> else e);
          e2 = (if bx2 b > bx2 e1 then e1\<lparr>bx2 := bx2 b\<rparr> else e1)
      in widen e2 bs)"

definition miSetExtents :: "RegionRec \<Rightarrow> RegionRec" where
  "miSetExtents reg =
     (case rdata reg of
        SingleRect \<Rightarrow> reg
      | Rects bs \<Rightarrow>
          reg\<lparr>extents := widen (Box (bx1 (hd bs)) (by1 (hd bs)) (bx2 (last bs)) (by2 (last bs))) bs\<rparr>
      | _ \<Rightarrow> reg\<lparr>extents := empty_at (extents reg)\<rparr>)"

definition miIntersect :: "regions \<Rightarrow> addr \<Rightarrow> addr \<Rightarrow> addr \<Rightarrow> bool \<times> regions" where
  "miIntersect h newReg reg1 reg2 =
     (let r1 = h reg1; r2 = h reg2; e1 = extents r1; e2 = extents r2
      in if REGION_NIL r1 \<or> REGION_NIL r2 \<or> \<not> EXTENTCHECK e1 e2
         then (let n = (h newReg)\<lparr>extents := empty_at (extents (h newReg))\<rparr>
               in if REGION_NAR r1 \<or> REGION_NAR r2
                  then (False, h(newReg := n\<lparr>rdata := BrokenData\<rparr>))
                  else (True, h(newReg := n\<lparr>rdata := EmptyData\<rparr>)))
         else if rdata r1 = SingleRect \<and> rdata r2 = SingleRect
         then (True, h(newReg := \<lparr>extents = Box (max (bx1 e1) (bx1 e2)) (max (by1 e1) (by1 e2))
                                              (min (bx2 e1) (bx2 e2)) (min (by2 e1) (by2 e2)),
                                  rdata = SingleRect\<rparr>))
         else if rdata r2 = SingleRect \<and> SUBSUMES e2 e1 then miRegionCopy h newReg reg1
         else if rdata r1 = SingleRect \<and> SUBSUMES e1 e2 then miRegionCopy h newReg reg2
         else if reg1 = reg2 then miRegionCopy h newReg reg1
         else (case miRegionOp (h newReg) r1 r2 miIntersectO False False False of
                 (ok, n, _) \<Rightarrow>
                   if \<not> ok then (False, h(newReg := n))
                   else (True, h(newReg := miSetExtents n))))"

definition miUnion :: "regions \<Rightarrow> addr \<Rightarrow> addr \<Rightarrow> addr \<Rightarrow> bool \<times> regions" where
  "miUnion h newReg reg1 reg2 =
     (let r1 = h reg1; r2 = h reg2
      in if reg1 = reg2 then miRegionCopy h newReg reg1
         else if REGION_NIL r1 then
           (if REGION_NAR r1 then (False, h(newReg := snd (miRegionBreak (h newReg))))
            else if newReg \<noteq> reg2 then miRegionCopy h newReg reg2 else (True, h))
         else if REGION_NIL r2 then
           (if REGION_NAR r2 then (False, h(newReg := snd (miRegionBreak (h newReg))))
            else if newReg \<noteq> reg1 then miRegionCopy h newReg reg1 else (True, h))
         else if rdata r1 = SingleRect \<and> SUBSUMES (extents r1) (extents r2) then
           (if newReg \<noteq> reg1 then miRegionCopy h newReg reg1 else (True, h))
         else if rdata r2 = SingleRect \<and> SUBSUMES (extents r2) (extents r1) then
           (if newReg \<noteq> reg2 then miRegionCopy h newReg reg2 else (True, h))
         else (case miRegionOp (h newReg) r1 r2 miUnionO True True False of
                 (ok, n, _) \<Rightarrow>
                   if \<not> ok then (False, h(newReg := n))
                   else (let h' = h(newReg := n); e1 = extents (h' reg1); e2 = extents (h' reg2)
                         in (True, h'(newReg := n\<lparr>extents :=
                               Box (min (bx1 e1) (bx1 e2)) (min (by1 e1) (by1 e2))
                                   (max (bx2 e1) (bx2 e2)) (max (by2 e1) (by2 e2))\<rparr>)))))"

definition miSubtract :: "regions \<Rightarrow> addr \<Rightarrow> addr \<Rightarrow> addr \<Rightarrow> bool \<times> regions" where
  "miSubtract h regD regM regS =
     (let rM = h regM; rS = h regS
      in if REGION_NIL rM \<or> REGION_NIL rS \<or> \<not> EXTENTCHECK (extents rM) (extents rS)
         then (if REGION_NAR rS then (False, h(regD := snd (miRegionBreak (h regD))))
               else miRegionCopy h regD regM)
         else if regM = regS
         then (True, h(regD := \<lparr>extents = empty_at (extents (h regD)), rdata = EmptyData\<rparr>))
         else (case miRegionOp (h regD) rM rS miSubtractO True False False of
                 (ok, n, _) \<Rightarrow>
                   if \<not> ok then (False, h(regD := n))
                   else (True, h(regD := miSetExtents n))))"

definition miInverse :: "regions \<Rightarrow> addr \<Rightarrow> addr \<Rightarrow> BoxRec \<Rightarrow> bool \<times> regions" where
  "miInverse h newReg reg1 invRect =
     (let r1 = h reg1
      in if REGION_NIL r1 \<or> \<not> EXTENTCHECK invRect (extents r1)
         then (if REGION_NAR r1 then (False, h(newReg := snd (miRegionBreak (h newReg))))
               else (True, h(newReg := \<lparr>extents = invRect, rdata = SingleRect\<rparr>)))
         else (case miRegionOp (h newReg) \<lparr>extents = invRect, rdata = SingleRect\<rparr> r1
                      miSubtractO True False False of
                 (ok, n, _) \<Rightarrow>
                   if \<not> ok then (False, h(newReg := n))
                   else (True, h(newReg := miSetExtents n))))"

text \<open>The scan of \<open>miPointInRegion\<close>; the result is the box that holds the point.\<close>

fun point_scan :: "BoxRec list \<Rightarrow> int \<Rightarrow> int \<Rightarrow> BoxRec option" where
  "point_scan [] x y = None"
| "point_scan (b # bs) x y =
     (if y \<ge> by2 b then point_scan bs x y
      else if y < by1 b \<or> x < bx1 b then None
      else if x \<ge> bx2 b then point_scan bs x y
      else Some b)"

definition miPointInRegion :: "RegionRec \<Rightarrow> int \<Rightarrow> int \<Rightarrow> BoxRec option" where
  "miPointInRegion reg x y =
     (if REGION_NUM_RECTS reg = 0 \<or> \<not> INBOX (extents reg) x y then None
      else if REGION_NUM_RECTS reg = 1 then Some (extents reg)
      else point_scan (REGION_RECTS reg) x y)"

text \<open>
  \<open>miRectIn\<close>. The scan keeps \<open>x\<close>, \<open>y\<close>, \<open>partIn\<close> and \<open>partOut\<close> and returns \<open>partIn\<close> and \<open>y\<close>.
\<close>

datatype rect_in = rgnOUT | rgnIN | rgnPART

fun rect_scan :: "BoxRec list \<Rightarrow> BoxRec \<Rightarrow> int \<Rightarrow> int \<Rightarrow> bool \<Rightarrow> bool \<Rightarrow> bool \<times> int" where
  "rect_scan [] prect x y partIn partOut = (partIn, y)"
| "rect_scan (b # bs) prect x y partIn partOut =
     (if by2 b \<le> y then rect_scan bs prect x y partIn partOut
      else if by1 b > y \<and> (partIn \<or> by1 b \<ge> by2 prect) then (partIn, y)
      else
        (let partOut1 = (partOut \<or> by1 b > y);
             y1 = (if by1 b > y then by1 b else y)
         in if bx2 b \<le> x then rect_scan bs prect x y1 partIn partOut1
            else if bx1 b > x \<and> partIn then (partIn, y1)
            else
              (let partOut2 = (partOut1 \<or> bx1 b > x);
                   partIn2 = (partIn \<or> bx1 b < bx2 prect)
               in if bx1 b < bx2 prect \<and> partOut2 then (partIn2, y1)
                  else if bx2 b \<ge> bx2 prect
                  then (if by2 b \<ge> by2 prect then (partIn2, by2 b)
                        else rect_scan bs prect (bx1 prect) (by2 b) partIn2 partOut2)
                  else (partIn2, y1))))"

definition miRectIn :: "RegionRec \<Rightarrow> BoxRec \<Rightarrow> rect_in" where
  "miRectIn region prect =
     (if REGION_NUM_RECTS region = 0 \<or> \<not> EXTENTCHECK (extents region) prect then rgnOUT
      else if REGION_NUM_RECTS region = 1
      then (if SUBSUMES (extents region) prect then rgnIN else rgnPART)
      else (case rect_scan (REGION_RECTS region) prect (bx1 prect) (by1 prect) False False of
              (partIn, y) \<Rightarrow>
                if partIn then (if y < by2 prect then rgnPART else rgnIN) else rgnOUT))"

subsection \<open>The pixels of a region and well-formedness\<close>

text \<open>
  A box is \<open>tight\<close> for a set of pixels when it holds all of them and each of its four sides
  touches one. A well-formed region is in one of the forms the file documents: one nonempty
  box, an empty region, or at least two boxes in banded order with tight extents.
\<close>

definition region_pts :: "RegionRec \<Rightarrow> (int \<times> int) set" where
  "region_pts reg = pts (REGION_RECTS reg)"

definition tight :: "BoxRec \<Rightarrow> (int \<times> int) set \<Rightarrow> bool" where
  "tight e S \<longleftrightarrow> (\<forall>(x, y) \<in> S. INBOX e x y) \<and>
     (\<exists>y. (bx1 e, y) \<in> S) \<and> (\<exists>y. (bx2 e - 1, y) \<in> S) \<and>
     (\<exists>x. (x, by1 e) \<in> S) \<and> (\<exists>x. (x, by2 e - 1) \<in> S)"

definition region_wf :: "RegionRec \<Rightarrow> bool" where
  "region_wf reg = (case rdata reg of
       SingleRect \<Rightarrow> nonempty (extents reg)
     | EmptyData \<Rightarrow> bx1 (extents reg) = bx2 (extents reg) \<and> by1 (extents reg) = by2 (extents reg)
     | BrokenData \<Rightarrow> False
     | Rects bs \<Rightarrow>
         if bs = [] then bx1 (extents reg) = bx2 (extents reg) \<and> by1 (extents reg) = by2 (extents reg)
         else length bs \<ge> 2 \<and> banded bs \<and> tight (extents reg) (pts bs))"

definition region_example :: RegionRec where
  "region_example = \<lparr>extents = Box 0 0 6 4, rdata = Rects [Box 0 0 2 2, Box 4 0 6 2, Box 1 2 5 4]\<rparr>"

definition store_example :: regions where
  "store_example = (\<lambda>_. region_example)(1 := \<lparr>extents = Box 1 1 5 3, rdata = SingleRect\<rparr>)"

lemma region_pts_simps [simp]:
  "rdata reg = EmptyData \<Longrightarrow> region_pts reg = {}"
  "rdata reg = BrokenData \<Longrightarrow> region_pts reg = {}"
  "rdata reg = SingleRect \<Longrightarrow> region_pts reg = {(x, y). INBOX (extents reg) x y}"
  "rdata reg = Rects bs \<Longrightarrow> region_pts reg = pts bs"
  by (auto simp: region_pts_def REGION_RECTS_def pts_Cons)

lemma empty_at_simps [simp]:
  "bx1 (empty_at e) = bx1 e" "bx2 (empty_at e) = bx1 e"
  "by1 (empty_at e) = by1 e" "by2 (empty_at e) = by1 e"
  by (simp_all add: empty_at_def)

lemma tight_box: "nonempty e \<Longrightarrow> tight e {(x, y). INBOX e x y}"
  by (auto simp: tight_def nonempty_def INBOX_def)

lemma wf_not_broken: "region_wf reg \<Longrightarrow> \<not> REGION_NAR reg"
  by (auto simp: region_wf_def REGION_NAR_def)

lemma wf_nil_iff:
  assumes "region_wf reg" shows "REGION_NIL reg \<longleftrightarrow> region_pts reg = {}"
proof (cases "rdata reg")
  case SingleRect
  with assms show ?thesis
    by (auto simp: region_wf_def REGION_NIL_def nonempty_def INBOX_def)
next
  case (Rects bs)
  with assms show ?thesis
    by (cases bs) (auto simp: region_wf_def REGION_NIL_def REGION_RECTS_def tight_def)
qed (auto simp: REGION_NIL_def REGION_RECTS_def)

lemma wf_rects:
  assumes "region_wf reg" "\<not> REGION_NIL reg"
  shows "banded (REGION_RECTS reg)" "REGION_RECTS reg \<noteq> []" "tight (extents reg) (region_pts reg)"
proof -
  have "banded (REGION_RECTS reg) \<and> REGION_RECTS reg \<noteq> [] \<and> tight (extents reg) (region_pts reg)"
    using assms tight_box [of "extents reg"]
    by (auto simp: region_wf_def REGION_NIL_def REGION_RECTS_def region_pts_def pts_Cons
        split: RegData.splits if_splits)
  then show "banded (REGION_RECTS reg)" "REGION_RECTS reg \<noteq> []" "tight (extents reg) (region_pts reg)"
    by blast+
qed

lemma tight_extents: "tight e S \<Longrightarrow> (x, y) \<in> S \<Longrightarrow> INBOX e x y"
  by (auto simp: tight_def)

lemma pts_in_extents: "region_wf reg \<Longrightarrow> (x, y) \<in> region_pts reg \<Longrightarrow> INBOX (extents reg) x y"
  using tight_extents wf_rects(3) wf_nil_iff by blast

lemma EXTENTCHECK_disjoint: "\<not> EXTENTCHECK e1 e2 \<Longrightarrow> INBOX e1 x y \<Longrightarrow> \<not> INBOX e2 x y"
  by (auto simp: EXTENTCHECK_def INBOX_def)

lemma SUBSUMES_INBOX: "SUBSUMES e1 e2 \<Longrightarrow> INBOX e2 x y \<Longrightarrow> INBOX e1 x y"
  by (auto simp: SUBSUMES_def INBOX_def)

lemma EXTENTCHECK_sym: "EXTENTCHECK a b \<longleftrightarrow> EXTENTCHECK b a"
  by (auto simp: EXTENTCHECK_def)

lemma disjoint_extents:
  "region_wf r1 \<Longrightarrow> region_wf r2 \<Longrightarrow> \<not> EXTENTCHECK (extents r1) (extents r2) \<Longrightarrow>
   region_pts r1 \<inter> region_pts r2 = {}"
  using pts_in_extents EXTENTCHECK_disjoint by fast

subsection \<open>Extents\<close>

lemma widen_rows [simp]: "by1 (widen e bs) = by1 e" "by2 (widen e bs) = by2 e"
  by (induction bs arbitrary: e) (auto simp: Let_def)

lemma widen_left:
  "bx1 (widen e bs) \<le> bx1 e \<and> (\<forall>b \<in> set bs. bx1 (widen e bs) \<le> bx1 b) \<and>
   (bx1 (widen e bs) = bx1 e \<or> bx1 (widen e bs) \<in> bx1 ` set bs)"
proof (induction bs arbitrary: e)
  case (Cons b bs)
  let ?e = "let e1 = (if bx1 b < bx1 e then e\<lparr>bx1 := bx1 b\<rparr> else e)
            in if bx2 b > bx2 e1 then e1\<lparr>bx2 := bx2 b\<rparr> else e1"
  have e: "bx1 ?e = min (bx1 b) (bx1 e)" by (auto simp: Let_def)
  have "widen e (b # bs) = widen ?e bs" by (simp add: Let_def)
  then show ?case using Cons.IH [of ?e] unfolding e by (auto simp: min_def split: if_splits)
qed simp

lemma widen_right:
  "bx2 e \<le> bx2 (widen e bs) \<and> (\<forall>b \<in> set bs. bx2 b \<le> bx2 (widen e bs)) \<and>
   (bx2 (widen e bs) = bx2 e \<or> bx2 (widen e bs) \<in> bx2 ` set bs)"
proof (induction bs arbitrary: e)
  case (Cons b bs)
  let ?e = "let e1 = (if bx1 b < bx1 e then e\<lparr>bx1 := bx1 b\<rparr> else e)
            in if bx2 b > bx2 e1 then e1\<lparr>bx2 := bx2 b\<rparr> else e1"
  have e: "bx2 ?e = max (bx2 b) (bx2 e)" by (auto simp: Let_def)
  have "widen e (b # bs) = widen ?e bs" by (simp add: Let_def)
  then show ?case using Cons.IH [of ?e] unfolding e by (auto simp: max_def split: if_splits)
qed simp

text \<open>In a banded list the first box has the smallest top and the last box the largest bottom.\<close>

lemma banded_rows:
  assumes "banded bs" "b \<in> set bs"
  shows "by1 (hd bs) \<le> by1 b" "by2 b \<le> by2 (last bs)" "nonempty b"
proof -
  show "nonempty b" using assms by (auto simp: banded_def)
  from assms(2) obtain us vs where bs: "bs = us @ b # vs" by (auto dest: split_list)
  show "by1 (hd bs) \<le> by1 b"
  proof (cases us)
    case (Cons u us')
    with assms(1) bs have "before u b" "nonempty u" by auto
    with Cons bs show ?thesis by (auto simp: before_def nonempty_def)
  qed (simp add: bs)
  show "by2 b \<le> by2 (last bs)"
  proof (cases vs rule: rev_cases)
    case (snoc vs' v)
    with assms(1) bs have "before b v" "nonempty v" by (auto simp: banded_append)
    with snoc bs show ?thesis by (auto simp: before_def nonempty_def)
  qed (simp add: bs)
qed

lemma miSetExtents_tight:
  assumes "banded bs" "bs \<noteq> []"
  shows "tight (widen (Box (bx1 (hd bs)) (by1 (hd bs)) (bx2 (last bs)) (by2 (last bs))) bs) (pts bs)"
    (is "tight ?w _")
proof -
  have hd: "hd bs \<in> set bs" and la: "last bs \<in> set bs" using assms(2) by auto
  note w = widen_left [of "Box (bx1 (hd bs)) (by1 (hd bs)) (bx2 (last bs)) (by2 (last bs))" bs]
    widen_right [of "Box (bx1 (hd bs)) (by1 (hd bs)) (bx2 (last bs)) (by2 (last bs))" bs]
  have l: "\<forall>b \<in> set bs. bx1 ?w \<le> bx1 b" "bx1 ?w \<in> bx1 ` set bs"
    and r: "\<forall>b \<in> set bs. bx2 b \<le> bx2 ?w" "bx2 ?w \<in> bx2 ` set bs"
    using w hd la by auto
  have rows: "by1 ?w = by1 (hd bs)" "by2 ?w = by2 (last bs)" by simp_all
  have inb: "INBOX ?w x y" if "(x, y) \<in> pts bs" for x y
  proof -
    from that obtain b where b: "b \<in> set bs" "INBOX b x y" by (auto simp: pts_def)
    with l(1) r(1) have "bx1 ?w \<le> bx1 b" "bx2 b \<le> bx2 ?w" by auto
    with b(2) banded_rows(1,2) [OF assms(1) b(1)] show ?thesis
      unfolding INBOX_def rows by linarith
  qed
  have corner: "(bx1 b, by1 b) \<in> pts bs" "(bx2 b - 1, by1 b) \<in> pts bs" "(bx1 b, by2 b - 1) \<in> pts bs"
    if "b \<in> set bs" for b
    using that banded_rows(3) [OF assms(1) that]
    by (auto simp: pts_def INBOX_def nonempty_def intro!: bexI [of _ b])
  obtain b c where "b \<in> set bs" "bx1 ?w = bx1 b" "c \<in> set bs" "bx2 ?w = bx2 c"
    using l(2) r(2) by blast
  then have "\<exists>y. (bx1 ?w, y) \<in> pts bs" "\<exists>y. (bx2 ?w - 1, y) \<in> pts bs"
    using corner by metis+
  moreover have "\<exists>x. (x, by1 ?w) \<in> pts bs" "\<exists>x. (x, by2 ?w - 1) \<in> pts bs"
    using corner [OF hd] corner [OF la] unfolding rows by blast+
  ultimately show ?thesis using inb by (auto simp: tight_def)
qed

lemma tight_unique: "tight d S \<Longrightarrow> tight e S \<Longrightarrow> d = e"
  by (rule BoxRec.equality) (fastforce simp: tight_def INBOX_def)+

lemma tight_hull:
  "tight d S \<Longrightarrow> tight e T \<Longrightarrow>
   tight (Box (min (bx1 d) (bx1 e)) (min (by1 d) (by1 e)) (max (bx2 d) (bx2 e)) (max (by2 d) (by2 e))) (S \<union> T)"
  unfolding tight_def INBOX_def by (auto simp: min_def max_def; fastforce)

text \<open>What \<open>miRegionOp\<close> leaves in the new region, whose extents may still have to be set.\<close>

definition op_result :: "RegionRec \<Rightarrow> bool" where
  "op_result n \<longleftrightarrow> (case rdata n of
       SingleRect \<Rightarrow> nonempty (extents n)
     | EmptyData \<Rightarrow> True
     | BrokenData \<Rightarrow> False
     | Rects bs \<Rightarrow> length bs \<ge> 2 \<and> banded bs)"

lemma miSetExtents_wf:
  assumes "op_result n" shows "region_wf (miSetExtents n)" "region_pts (miSetExtents n) = region_pts n"
proof -
  have "region_wf (miSetExtents n) \<and> region_pts (miSetExtents n) = region_pts n"
  proof (cases "rdata n")
    case (Rects bs)
    with assms have "banded bs" "bs \<noteq> []" "length bs \<ge> 2" by (auto simp: op_result_def)
    with Rects miSetExtents_tight [of bs] show ?thesis
      by (simp add: miSetExtents_def region_wf_def)
  qed (use assms in \<open>auto simp: op_result_def miSetExtents_def region_wf_def\<close>)
  then show "region_wf (miSetExtents n)" "region_pts (miSetExtents n) = region_pts n" by blast+
qed

context band_operation
begin

lemma miRegionOp_correct:
  assumes "region_wf r1" "region_wf r2" "\<not> REGION_NIL r1" "\<not> REGION_NIL r2"
    "miRegionOp n r1 r2 ofun a1 a2 ov = (ok, n', ov')"
  shows "ok" "op_result n'" "region_pts n' = pointwise op (region_pts r1) (region_pts r2)"
    "rdata n' = SingleRect \<or> extents n' = extents n"
proof -
  define rects where "rects = op_finish a1 a2 (op_loop ofun a1 a2 (op_init (REGION_RECTS r1) (REGION_RECTS r2) ov))"
  have w: "banded rects" "pts rects = pointwise op (region_pts r1) (region_pts r2)"
    using walk_correct [OF wf_rects(1) wf_rects(1) wf_rects(2) wf_rects(2), OF assms(1,3,2,4,1,3,2,4)]
    by (simp_all add: rects_def region_pts_def)
  have res: "(ok, n') = (True, case rects of [] \<Rightarrow> n\<lparr>rdata := EmptyData\<rparr>
      | [b] \<Rightarrow> n\<lparr>extents := b, rdata := SingleRect\<rparr> | _ \<Rightarrow> n\<lparr>rdata := Rects rects\<rparr>)"
    using assms(5) wf_not_broken [OF assms(1)] wf_not_broken [OF assms(2)]
    unfolding miRegionOp_def Let_def rects_def [symmetric] by simp
  consider "rects = []" | b where "rects = [b]" | b c bs where "rects = b # c # bs"
    by (cases rects rule: remdups_adj.cases) auto
  then have "ok \<and> op_result n' \<and> region_pts n' = pts rects \<and>
      (rdata n' = SingleRect \<or> extents n' = extents n)"
    by cases (use res w(1) in \<open>auto simp: op_result_def pts_Cons\<close>)
  with w(2) show "ok" "op_result n'" "region_pts n' = pointwise op (region_pts r1) (region_pts r2)"
    "rdata n' = SingleRect \<or> extents n' = extents n"
    by auto
qed

end

subsection \<open>Correctness of the operations\<close>

lemma store_example_wf [simp]: "region_wf (store_example a)"
proof -
  let ?bs = "[Box 0 0 2 2, Box 4 0 6 2, Box 1 2 5 4]"
  have "\<exists>y. (0, y) \<in> pts ?bs" "\<exists>y. (5, y) \<in> pts ?bs" "\<exists>x. (x, 0) \<in> pts ?bs" "\<exists>x. (x, 3) \<in> pts ?bs"
    by (auto simp: pts_Cons INBOX_def intro: exI [of _ 0] exI [of _ 1])
  moreover have "\<forall>(x, y) \<in> pts ?bs. INBOX (Box 0 0 6 4) x y"
    by (auto simp: pts_Cons INBOX_def)
  moreover have "banded ?bs" by (simp add: nonempty_def before_def)
  ultimately show ?thesis
    by (auto simp: store_example_def region_example_def region_wf_def tight_def nonempty_def)
qed

lemma region_pts_degenerate:
  "region_wf reg \<Longrightarrow> rdata reg \<noteq> SingleRect \<Longrightarrow> REGION_RECTS reg = [] \<Longrightarrow> region_pts reg = {}"
  by (simp add: region_pts_def)

lemma miRegionCopy_sel [simp]:
  "fst (miRegionCopy h d s)" "snd (miRegionCopy h d s) = h(d := h s)"
  by (auto simp: miRegionCopy_def)

text \<open>
  The contract of the three operations on the store: the destination is well-formed and holds
  the wanted pixels, and no other region changes. The destination may be one of the sources.
\<close>

definition computes :: "bool \<times> regions \<Rightarrow> regions \<Rightarrow> addr \<Rightarrow> (int \<times> int) set \<Rightarrow> bool" where
  "computes res h newReg S \<longleftrightarrow> fst res \<and> region_wf (snd res newReg) \<and>
     region_pts (snd res newReg) = S \<and> (\<forall>a. a \<noteq> newReg \<longrightarrow> snd res a = h a)"

lemma computes_copy:
  "region_wf (h s) \<Longrightarrow> region_pts (h s) = S \<Longrightarrow> computes (miRegionCopy h d s) h d S"
  by (simp add: computes_def)

lemma computes_same: "region_wf (h d) \<Longrightarrow> region_pts (h d) = S \<Longrightarrow> computes (True, h) h d S"
  by (simp add: computes_def)

lemma computes_upd:
  "region_wf r \<Longrightarrow> region_pts r = S \<Longrightarrow> computes (True, h(d := r)) h d S"
  by (simp add: computes_def)

lemma wf_empty_at: "region_wf \<lparr>extents = empty_at e, rdata = EmptyData\<rparr>"
  "region_pts \<lparr>extents = empty_at e, rdata = EmptyData\<rparr> = {}"
  by (simp_all add: region_wf_def)

lemma subsumed:
  assumes "region_wf r1" "region_wf r2" "rdata r1 = SingleRect" "SUBSUMES (extents r1) (extents r2)"
  shows "region_pts r2 \<subseteq> region_pts r1"
  using assms pts_in_extents [OF assms(2)] SUBSUMES_INBOX by auto

text \<open>
  C3. Intersection: on well-formed regions, and whatever pointers coincide, \<open>miIntersect\<close>
  succeeds, leaves a well-formed region in the destination that holds exactly the pixels in
  both sources, and changes no other region.
\<close>

theorem miIntersect_computes:
  assumes wf: "region_wf (h reg1)" "region_wf (h reg2)"
  shows "computes (miIntersect h newReg reg1 reg2) h newReg (region_pts (h reg1) \<inter> region_pts (h reg2))"
proof -
  let ?r1 = "h reg1" and ?r2 = "h reg2"
  note nar = wf_not_broken [OF wf(1)] wf_not_broken [OF wf(2)]
  consider "REGION_NIL ?r1 \<or> REGION_NIL ?r2 \<or> \<not> EXTENTCHECK (extents ?r1) (extents ?r2)"
    | "\<not> REGION_NIL ?r1" "\<not> REGION_NIL ?r2" "EXTENTCHECK (extents ?r1) (extents ?r2)"
    by blast
  then show ?thesis
  proof cases
    case 1
    then have "region_pts ?r1 \<inter> region_pts ?r2 = {}"
      using wf_nil_iff [OF wf(1)] wf_nil_iff [OF wf(2)] disjoint_extents [OF wf] by blast
    with 1 nar show ?thesis
      by (auto simp: miIntersect_def Let_def computes_def region_wf_def)
  next
    case 2
    obtain ok n ov where op: "miRegionOp (h newReg) ?r1 ?r2 miIntersectO False False False = (ok, n, ov)"
      by (metis prod_cases3)
    note o = rgn_inter.miRegionOp_correct [OF wf 2(1,2) op]
    have c: "computes (True, h(newReg := miSetExtents n)) h newReg (region_pts ?r1 \<inter> region_pts ?r2)"
      using miSetExtents_wf [OF o(2)] o(3) by (auto intro!: computes_upd simp: pointwise_def)
    consider "rdata ?r1 = SingleRect" "rdata ?r2 = SingleRect"
      | "rdata ?r2 = SingleRect" "SUBSUMES (extents ?r2) (extents ?r1)" "rdata ?r1 \<noteq> SingleRect"
      | "rdata ?r1 = SingleRect" "SUBSUMES (extents ?r1) (extents ?r2)" "rdata ?r2 \<noteq> SingleRect"
      | "\<not> (rdata ?r1 = SingleRect \<and> rdata ?r2 = SingleRect)"
        "\<not> (rdata ?r2 = SingleRect \<and> SUBSUMES (extents ?r2) (extents ?r1))"
        "\<not> (rdata ?r1 = SingleRect \<and> SUBSUMES (extents ?r1) (extents ?r2))"
      by blast
    then show ?thesis
    proof cases
      case A: 1
      from 2(3) wf A show ?thesis
        unfolding miIntersect_def Let_def using 2
        by (auto intro!: computes_upd simp: region_wf_def nonempty_def EXTENTCHECK_def INBOX_def)
    next
      case A: 2
      from subsumed [OF wf(2,1) A(1,2)] have "region_pts ?r1 \<inter> region_pts ?r2 = region_pts ?r1" by blast
      with A 2 wf show ?thesis by (auto simp: miIntersect_def Let_def intro!: computes_copy)
    next
      case A: 3
      from subsumed [OF wf A(1,2)] have "region_pts ?r1 \<inter> region_pts ?r2 = region_pts ?r2" by blast
      with A 2 wf show ?thesis by (auto simp: miIntersect_def Let_def intro!: computes_copy)
    next
      case A: 4
      with 2 c o(1) wf op show ?thesis
        by (cases "reg1 = reg2") (auto simp: miIntersect_def Let_def intro!: computes_copy)
    qed
  qed
qed

theorem miIntersect_computes_witness:
  "computes (miIntersect store_example 0 0 1) store_example 0
    (region_pts (store_example 0) \<inter> region_pts (store_example 1))"
  by (rule miIntersect_computes) simp_all

lemma op_result_extents:
  assumes "op_result n" "tight e (region_pts n)"
  shows "region_wf (n\<lparr>extents := e\<rparr>) \<and> region_pts (n\<lparr>extents := e\<rparr>) = region_pts n"
proof (cases "rdata n")
  case SingleRect
  then have "tight (extents n) (region_pts n)"
    using assms(1) by (simp add: op_result_def tight_box)
  with tight_unique assms(2) have "e = extents n" by blast
  with SingleRect assms(1) show ?thesis by (simp add: op_result_def region_wf_def)
next
  case (Rects bs)
  with assms show ?thesis by (auto simp: op_result_def region_wf_def)
qed (use assms in \<open>auto simp: op_result_def tight_def\<close>)

text \<open>
  C1. Union: on well-formed regions, and whatever pointers coincide, \<open>miUnion\<close> succeeds, leaves
  a well-formed region in the destination that holds exactly the pixels of either source, with
  the extents computed from the two sources, and changes no other region.
\<close>

theorem miUnion_computes:
  assumes wf: "region_wf (h reg1)" "region_wf (h reg2)"
  shows "computes (miUnion h newReg reg1 reg2) h newReg (region_pts (h reg1) \<union> region_pts (h reg2))"
proof -
  let ?r1 = "h reg1" and ?r2 = "h reg2"
  note nar = wf_not_broken [OF wf(1)] wf_not_broken [OF wf(2)]
  note nil = wf_nil_iff [OF wf(1)] wf_nil_iff [OF wf(2)]
  consider "reg1 = reg2 \<or> REGION_NIL ?r1 \<or> REGION_NIL ?r2"
    | "reg1 \<noteq> reg2" "\<not> REGION_NIL ?r1" "\<not> REGION_NIL ?r2"
    by blast
  then show ?thesis
  proof cases
    case 1
    with nar nil wf show ?thesis
      by (auto simp: miUnion_def Let_def computes_def)
  next
    case 2
    consider "rdata ?r1 = SingleRect \<and> SUBSUMES (extents ?r1) (extents ?r2)"
      | "rdata ?r2 = SingleRect \<and> SUBSUMES (extents ?r2) (extents ?r1)"
        "\<not> (rdata ?r1 = SingleRect \<and> SUBSUMES (extents ?r1) (extents ?r2))"
      | "\<not> (rdata ?r1 = SingleRect \<and> SUBSUMES (extents ?r1) (extents ?r2))"
        "\<not> (rdata ?r2 = SingleRect \<and> SUBSUMES (extents ?r2) (extents ?r1))"
      by blast
    then show ?thesis
    proof cases
      case A: 1
      then have "region_pts ?r1 \<union> region_pts ?r2 = region_pts ?r1"
        using subsumed [OF wf] by blast
      with A 2 nar wf show ?thesis
        by (auto simp: miUnion_def Let_def intro!: computes_copy computes_same)
    next
      case A: 2
      then have "region_pts ?r1 \<union> region_pts ?r2 = region_pts ?r2"
        using subsumed [OF wf(2,1)] by blast
      with A 2 nar wf show ?thesis
        by (auto simp: miUnion_def Let_def intro!: computes_copy computes_same)
    next
      case A: 3
      obtain ok n ov where op: "miRegionOp (h newReg) ?r1 ?r2 miUnionO True True False = (ok, n, ov)"
        by (metis prod_cases3)
      note o = rgn_union.miRegionOp_correct [OF wf 2(2,3) op]
      have pts: "region_pts n = region_pts ?r1 \<union> region_pts ?r2"
        using o(3) by (auto simp: pointwise_def)
      note t = wf_rects(3) [OF wf(1) 2(2)] wf_rects(3) [OF wf(2) 2(3)]
      define e1 where "e1 = extents ((h(newReg := n)) reg1)"
      define e2 where "e2 = extents ((h(newReg := n)) reg2)"
      let ?e = "Box (min (bx1 e1) (bx1 e2)) (min (by1 e1) (by1 e2)) (max (bx2 e1) (bx2 e2)) (max (by2 e1) (by2 e2))"
      have "region_wf (n\<lparr>extents := ?e\<rparr>) \<and> region_pts (n\<lparr>extents := ?e\<rparr>) = region_pts n"
      proof -
        have ne: "region_pts n \<noteq> {}"
          using pts wf_nil_iff [OF wf(1)] 2(2) by blast
        have e: "tight e (region_pts n)" if "rdata n = SingleRect" "e = extents n" for e
          using o(2) that by (simp add: op_result_def tight_box)
        have "e1 = extents ?r1 \<or> tight e1 (region_pts n)" "e2 = extents ?r2 \<or> tight e2 (region_pts n)"
          using o(4) e by (auto simp: e1_def e2_def)
        then have te: "tight ?e (region_pts n)"
          using tight_hull [of e1 _ e2] t pts by (metis sup.left_idem sup_commute)
        show ?thesis by (rule op_result_extents [OF o(2) te])
      qed
      then have "computes (True, (h(newReg := n))(newReg := n\<lparr>extents := ?e\<rparr>)) h newReg
          (region_pts ?r1 \<union> region_pts ?r2)"
        using pts by (simp add: computes_def)
      moreover have "miUnion h newReg reg1 reg2 = (True, (h(newReg := n))(newReg := n\<lparr>extents := ?e\<rparr>))"
        using 2 A op o(1) by (auto simp: miUnion_def Let_def e1_def e2_def)
      ultimately show ?thesis by simp
    qed
  qed
qed

theorem miUnion_computes_witness:
  "computes (miUnion store_example 1 0 1) store_example 1
    (region_pts (store_example 0) \<union> region_pts (store_example 1))"
  by (rule miUnion_computes) simp_all

text \<open>
  C2. Subtraction: on well-formed regions, and whatever pointers coincide, \<open>miSubtract\<close>
  succeeds, leaves a well-formed region in the destination that holds exactly the pixels of the
  minuend outside the subtrahend, and changes no other region.
\<close>

theorem miSubtract_computes:
  assumes wf: "region_wf (h regM)" "region_wf (h regS)"
  shows "computes (miSubtract h regD regM regS) h regD (region_pts (h regM) - region_pts (h regS))"
proof -
  let ?m = "h regM" and ?s = "h regS"
  note nar = wf_not_broken [OF wf(1)] wf_not_broken [OF wf(2)]
  consider "REGION_NIL ?m \<or> REGION_NIL ?s \<or> \<not> EXTENTCHECK (extents ?m) (extents ?s)"
    | "\<not> REGION_NIL ?m" "\<not> REGION_NIL ?s" "EXTENTCHECK (extents ?m) (extents ?s)"
    by blast
  then show ?thesis
  proof cases
    case 1
    then have "region_pts ?m - region_pts ?s = region_pts ?m"
      using wf_nil_iff [OF wf(1)] wf_nil_iff [OF wf(2)] disjoint_extents [OF wf] by blast
    with 1 nar wf show ?thesis
      by (auto simp: miSubtract_def Let_def intro!: computes_copy)
  next
    case 2
    obtain ok n ov where op: "miRegionOp (h regD) ?m ?s miSubtractO True False False = (ok, n, ov)"
      by (metis prod_cases3)
    note o = rgn_diff.miRegionOp_correct [OF wf 2(1,2) op]
    have "computes (True, h(regD := miSetExtents n)) h regD (region_pts ?m - region_pts ?s)"
      using miSetExtents_wf [OF o(2)] o(3) by (auto intro!: computes_upd simp: pointwise_def)
    with 2 op o(1) show ?thesis
      by (cases "regM = regS") (auto simp: miSubtract_def Let_def computes_def wf_empty_at)
  qed
qed

theorem miSubtract_computes_witness:
  "computes (miSubtract store_example 1 0 1) store_example 1
    (region_pts (store_example 0) - region_pts (store_example 1))"
  by (rule miSubtract_computes) simp_all

text \<open>
  Inversion: for a nonempty box and a well-formed region \<open>miInverse\<close> computes the pixels of
  the box outside the region.
\<close>

theorem miInverse_computes:
  assumes wf: "region_wf (h reg1)" and box: "nonempty invRect"
  shows "computes (miInverse h newReg reg1 invRect) h newReg
    ({(x, y). INBOX invRect x y} - region_pts (h reg1))"
proof -
  let ?r = "h reg1" and ?i = "\<lparr>extents = invRect, rdata = SingleRect\<rparr>"
  have i: "region_wf ?i" "region_pts ?i = {(x, y). INBOX invRect x y}" "\<not> REGION_NIL ?i"
    using box by (simp_all add: region_wf_def REGION_NIL_def)
  note nar = wf_not_broken [OF wf]
  consider "REGION_NIL ?r \<or> \<not> EXTENTCHECK invRect (extents ?r)"
    | "\<not> REGION_NIL ?r" "EXTENTCHECK invRect (extents ?r)"
    by blast
  then show ?thesis
  proof cases
    case 1
    then have "region_pts ?i - region_pts ?r = region_pts ?i"
      using wf_nil_iff [OF wf] disjoint_extents [OF i(1) wf] by auto
    with 1 nar i show ?thesis
      by (auto simp: miInverse_def Let_def intro!: computes_upd)
  next
    case 2
    obtain ok n ov where op: "miRegionOp (h newReg) ?i ?r miSubtractO True False False = (ok, n, ov)"
      by (metis prod_cases3)
    note o = rgn_diff.miRegionOp_correct [OF i(1) wf i(3) 2(1) op]
    have "computes (True, h(newReg := miSetExtents n)) h newReg (region_pts ?i - region_pts ?r)"
      using miSetExtents_wf [OF o(2)] o(3) by (auto intro!: computes_upd simp: pointwise_def)
    with 2 op o(1) i(2) show ?thesis
      by (auto simp: miInverse_def Let_def)
  qed
qed

theorem miInverse_computes_witness:
  "computes (miInverse store_example 2 0 (Box 0 0 9 9)) store_example 2
    ({(x, y). INBOX (Box 0 0 9 9) x y} - region_pts (store_example 0))"
  by (rule miInverse_computes) (simp_all add: nonempty_def)

subsection \<open>Queries\<close>

text \<open>The pixels of the boxes after \<open>b\<close> are in later rows or to the right of \<open>b\<close>, not touching it.\<close>

lemma pts_after:
  assumes "banded (b # bs)" "(x, y) \<in> pts bs"
  shows "by2 b \<le> y \<or> by1 b \<le> y \<and> y < by2 b \<and> bx2 b < x"
proof -
  from assms(2) obtain c where "c \<in> set bs" "INBOX c x y" by (auto simp: pts_def)
  with assms(1) have "before b c" "INBOX c x y" by auto
  then show ?thesis by (auto simp: before_def INBOX_def)
qed

lemma point_scan_correct:
  "banded bs \<Longrightarrow>
   (case point_scan bs x y of None \<Rightarrow> (x, y) \<notin> pts bs | Some b \<Rightarrow> b \<in> set bs \<and> INBOX b x y)"
proof (induction bs)
  case (Cons b bs)
  note after = pts_after [OF Cons.prems, of x y]
  have "banded bs" "nonempty b" using Cons.prems by simp_all
  with Cons.IH after show ?case
    by (auto simp: pts_Cons INBOX_def nonempty_def split: option.splits)
qed simp

definition rows_from :: "BoxRec \<Rightarrow> int \<Rightarrow> (int \<times> int) set" where
  "rows_from e y = {(a, b). INBOX e a b \<and> y \<le> b}"

lemma rows_fromI: "INBOX e a b \<Longrightarrow> y \<le> b \<Longrightarrow> (a, b) \<in> rows_from e y"
  by (simp add: rows_from_def)

definition scan_spec :: "BoxRec list \<Rightarrow> BoxRec \<Rightarrow> int \<Rightarrow> bool \<Rightarrow> bool \<Rightarrow> bool \<Rightarrow> int \<Rightarrow> bool" where
  "scan_spec bs e y partIn partOut pin y' \<longleftrightarrow>
     (pin \<longleftrightarrow> partIn \<or> rows_from e y \<inter> pts bs \<noteq> {}) \<and>
     (pin \<longrightarrow> (by2 e \<le> y' \<longleftrightarrow> \<not> partOut \<and> rows_from e y \<subseteq> pts bs))"

lemma rect_scan_at:
  assumes band: "banded (b # bs)" and e: "nonempty e" and y: "by1 b \<le> y" "y < by2 b" "by1 e \<le> y" "y < by2 e"
    and flags: "\<not> (partIn \<and> partOut)"
    and IH: "\<And>y partIn partOut pin y'. by1 e \<le> y \<Longrightarrow> y < by2 e \<Longrightarrow> \<not> (partIn \<and> partOut) \<Longrightarrow>
      rect_scan bs e (bx1 e) y partIn partOut = (pin, y') \<Longrightarrow> scan_spec bs e y partIn partOut pin y'"
    and scan: "rect_scan (b # bs) e (bx1 e) y partIn partOut = (pin, y')"
  shows "scan_spec (b # bs) e y partIn partOut pin y'"
proof -
  note after = pts_after [OF band]
  have mem: "(p, q) \<in> pts (b # bs) \<longleftrightarrow> INBOX b p q \<or> (p, q) \<in> pts bs" for p q
    by (simp add: pts_Cons)
  have box: "bx1 b < bx2 b" "bx1 e < bx2 e" using band e by (auto simp: nonempty_def)
  have row: "(p, q) \<in> rows_from e y \<longleftrightarrow> bx1 e \<le> p \<and> p < bx2 e \<and> y \<le> q \<and> q < by2 e" for p q
    using y(3) by (auto simp: rows_from_def INBOX_def)
  have outside: "(p, q) \<notin> pts (b # bs)" if "q < by2 b" "p \<le> bx2 b" "p < bx1 b \<or> bx2 b \<le> p" for p q
    using after [of p q] that by (auto simp: mem INBOX_def)
  have inside: "(p, q) \<in> pts (b # bs)" if "by1 b \<le> q" "q < by2 b" "bx1 b \<le> p" "p < bx2 b" for p q
    using that by (auto simp: mem INBOX_def)
  consider (left) "bx2 b \<le> bx1 e"
    | (gap) "bx1 e < bx2 b" "bx1 e < bx1 b" "partIn"
    | (part) "bx1 e < bx2 b" "\<not> (bx1 e < bx1 b \<and> partIn)" "bx1 b < bx2 e" "partOut \<or> bx1 e < bx1 b"
    | (covers) "bx2 e \<le> bx2 b" "bx1 b \<le> bx1 e" "\<not> partOut"
    | (right) "bx2 e \<le> bx1 b" "\<not> partIn"
    | (short) "bx1 e < bx2 b" "bx1 b \<le> bx1 e" "\<not> partOut" "bx2 b < bx2 e"
    using box by linarith
  then show ?thesis
  proof cases
    case left
    then have "rows_from e y \<inter> pts (b # bs) = rows_from e y \<inter> pts bs"
      by (auto simp: mem rows_from_def INBOX_def)
    moreover have "rect_scan bs e (bx1 e) y partIn partOut = (pin, y')"
      using scan left y by (simp add: Let_def)
    ultimately show ?thesis
      using IH [OF y(3,4) flags] by (auto simp: scan_spec_def)
  next
    case gap
    then have "(bx1 e, y) \<notin> pts (b # bs)" "(bx1 e, y) \<in> rows_from e y"
      using outside [of y "bx1 e"] y box row by auto
    moreover have "pin = True" "y' = y" using scan gap y by (auto simp: Let_def)
    ultimately show ?thesis using gap y by (auto simp: scan_spec_def)
  next
    case part
    let ?x = "max (bx1 b) (bx1 e)"
    have "(?x, y) \<in> pts (b # bs)" "(?x, y) \<in> rows_from e y"
      using inside [of y ?x] part y box row by auto
    moreover have "bx1 e < bx1 b \<longrightarrow> (bx1 e, y) \<notin> pts (b # bs) \<and> (bx1 e, y) \<in> rows_from e y"
      using outside [of y "bx1 e"] y box row by auto
    moreover have "pin = True" "y' = y" using scan part y by (auto simp: Let_def split: if_splits)
    ultimately show ?thesis using part y by (auto simp: scan_spec_def)
  next
    case covers
    have hit: "(bx1 e, y) \<in> pts (b # bs)" "(bx1 e, y) \<in> rows_from e y"
      using inside [of y "bx1 e"] covers y box row by auto
    have cov: "(p, q) \<in> pts (b # bs)" if "(p, q) \<in> rows_from e y" "q < by2 b" for p q
      using inside [of q p] that covers y row by auto
    show ?thesis
    proof (cases "by2 b \<ge> by2 e")
      case True
      then have "pin = True" "y' = by2 b" using scan covers y box by (auto simp: Let_def)
      moreover have "rows_from e y \<subseteq> pts (b # bs)" using cov row True by force
      ultimately show ?thesis using hit True covers by (auto simp: scan_spec_def)
    next
      case False
      then have rec: "rect_scan bs e (bx1 e) (by2 b) True False = (pin, y')"
        using scan covers y box by (auto simp: Let_def)
      have "rows_from e y \<subseteq> pts (b # bs) \<longleftrightarrow> rows_from e (by2 b) \<subseteq> pts bs"
        using cov y by (fastforce simp: rows_from_def mem INBOX_def)
      with IH [OF _ _ _ rec] False y hit covers show ?thesis
        by (auto simp: scan_spec_def)
    qed
  next
    case right
    have miss: "(p, q) \<notin> pts (b # bs)" if "(p, q) \<in> rows_from e y" "q < by2 b" for p q
      using outside [of q p] that right box row by auto
    have hit: "(bx1 e, y) \<notin> pts (b # bs)" "(bx1 e, y) \<in> rows_from e y"
      using miss [of "bx1 e" y] row y box by auto
    show ?thesis
    proof (cases "by2 b \<ge> by2 e")
      case True
      then have "pin = False" using scan right y box by (auto simp: Let_def)
      moreover have "rows_from e y \<inter> pts (b # bs) = {}" using miss row True by force
      ultimately show ?thesis using right by (auto simp: scan_spec_def)
    next
      case False
      then have rec: "rect_scan bs e (bx1 e) (by2 b) False True = (pin, y')"
        using scan right y box by (auto simp: Let_def)
      have "rows_from e y \<inter> pts (b # bs) = {} \<longleftrightarrow> rows_from e (by2 b) \<inter> pts bs = {}"
        using miss y by (fastforce simp: rows_from_def mem INBOX_def)
      with IH [OF _ _ _ rec] False y hit right show ?thesis
        by (auto simp: scan_spec_def)
    qed
  next
    case short
    have "(bx1 e, y) \<in> pts (b # bs)" "(bx1 e, y) \<in> rows_from e y"
      "(bx2 b, y) \<notin> pts (b # bs)" "(bx2 b, y) \<in> rows_from e y"
      using inside [of y "bx1 e"] outside [of y "bx2 b"] short y box row by auto
    moreover have "pin = True" "y' = y" using scan short y by (auto simp: Let_def)
    ultimately show ?thesis using short y by (auto simp: scan_spec_def)
  qed
qed

lemma rect_scan_correct:
  assumes "banded bs" "nonempty e" "by1 e \<le> y" "y < by2 e" "\<not> (partIn \<and> partOut)"
    "rect_scan bs e (bx1 e) y partIn partOut = (pin, y')"
  shows "scan_spec bs e y partIn partOut pin y'"
  using assms
proof (induction bs arbitrary: y partIn partOut pin y')
  case Nil
  then have "(bx1 e, y) \<in> rows_from e y"
    by (auto simp: rows_from_def INBOX_def nonempty_def)
  with Nil show ?case by (auto simp: scan_spec_def)
next
  case (Cons b bs)
  have b: "banded bs" "bx1 b < bx2 b" "by1 b < by2 b" and e: "bx1 e < bx2 e" "by1 e < by2 e"
    using Cons.prems by (auto simp: nonempty_def)
  note after = pts_after [OF Cons.prems(1)]
  note IH = Cons.IH [OF b(1) Cons.prems(2)]
  have mem: "(p, q) \<in> pts (b # bs) \<longleftrightarrow> INBOX b p q \<or> (p, q) \<in> pts bs" for p q
    by (simp add: pts_Cons)
  let ?y = "max y (by1 b)" and ?out = "partOut \<or> by1 b > y"
  have miss: "(p, q) \<notin> pts (b # bs)" if "q < by1 b" for p q
    using that after [of p q] b by (auto simp: mem INBOX_def)
  then have miss': "by1 b \<le> q" if "(p, q) \<in> pts (b # bs)" for p q
    using that not_le by blast
  consider (skip) "by2 b \<le> y"
    | (above) "y < by2 b" "by1 b > y" "partIn \<or> by1 b \<ge> by2 e"
    | (at) "y < by2 b" "\<not> (by1 b > y \<and> (partIn \<or> by1 b \<ge> by2 e))"
    by linarith
  then show ?case
  proof cases
    case skip
    then have "rows_from e y \<inter> pts (b # bs) = rows_from e y \<inter> pts bs"
      by (auto simp: mem rows_from_def INBOX_def)
    with IH [OF Cons.prems(3-5)] Cons.prems(6) skip show ?thesis by (auto simp: scan_spec_def)
  next
    case above
    then have res: "pin = partIn" "y' = y" using Cons.prems(6) by auto
    have "(bx1 e, y) \<in> rows_from e y"
      using e Cons.prems(3,4) by (auto simp: rows_from_def INBOX_def)
    moreover have "(bx1 e, y) \<notin> pts (b # bs)" using miss above by blast
    moreover have "rows_from e y \<inter> pts (b # bs) = {}" if "by1 b \<ge> by2 e"
      using that miss by (force simp: rows_from_def INBOX_def)
    ultimately show ?thesis using res above Cons.prems(4) by (auto simp: scan_spec_def)
  next
    case at
    have y: "by1 b \<le> ?y" "?y < by2 b" "y \<le> ?y" "by1 e \<le> ?y" "?y < by2 e" "\<not> (partIn \<and> ?out)"
      using at Cons.prems(3-5) b by auto
    have scan: "rect_scan (b # bs) e (bx1 e) y partIn partOut =
        rect_scan (b # bs) e (bx1 e) ?y partIn ?out"
      using at b(3) by (auto simp: Let_def max_def)
    have start: "(rows_from e y \<inter> pts (b # bs) = {} \<longleftrightarrow> rows_from e ?y \<inter> pts (b # bs) = {}) \<and>
        (\<not> partOut \<and> rows_from e y \<subseteq> pts (b # bs) \<longleftrightarrow> \<not> ?out \<and> rows_from e ?y \<subseteq> pts (b # bs))"
    proof (cases "by1 b > y")
      case True
      have "(bx1 e, y) \<in> rows_from e y"
        using e Cons.prems(3,4) by (auto simp: rows_from_def INBOX_def)
      moreover have "rows_from e y \<inter> pts (b # bs) = rows_from e ?y \<inter> pts (b # bs)"
        using miss' by (fastforce simp: rows_from_def)
      ultimately show ?thesis using True miss by blast
    next
      case False
      then have "?y = y" by simp
      with False show ?thesis by simp
    qed
    have "scan_spec (b # bs) e ?y partIn ?out pin y'"
      by (rule rect_scan_at [OF Cons.prems(1,2) y(1,2,4,5,6) IH trans [OF scan [symmetric] Cons.prems(6)]])
    with start show ?thesis unfolding scan_spec_def by blast
  qed
qed

text \<open>
  Point query: \<open>miPointInRegion\<close> answers no exactly for the pixels outside a well-formed
  region, and otherwise returns the box of the region that holds the pixel.
\<close>

theorem miPointInRegion_correct:
  assumes "region_wf reg"
  shows "case miPointInRegion reg x y of
      None \<Rightarrow> (x, y) \<notin> region_pts reg
    | Some b \<Rightarrow> b \<in> set (REGION_RECTS reg) \<and> INBOX b x y \<and> (x, y) \<in> region_pts reg"
proof (cases "rdata reg")
  case (Rects bs)
  show ?thesis
  proof (cases "bs = []")
    case False
    with Rects assms have bs: "length bs \<ge> 2" "banded bs" by (auto simp: region_wf_def)
    have "b \<in> set bs \<Longrightarrow> INBOX b x y \<Longrightarrow> (x, y) \<in> pts bs" for b by (auto simp: pts_def)
    moreover have "(x, y) \<in> pts bs \<Longrightarrow> INBOX (extents reg) x y"
      using pts_in_extents [OF assms] Rects by simp
    ultimately show ?thesis
      using point_scan_correct [OF bs(2), of x y] Rects bs(1)
      by (auto simp: miPointInRegion_def REGION_NUM_RECTS_def REGION_RECTS_def split: option.splits)
  qed (simp add: Rects miPointInRegion_def REGION_NUM_RECTS_def REGION_RECTS_def)
qed (use assms in \<open>auto simp: miPointInRegion_def REGION_NUM_RECTS_def REGION_RECTS_def region_wf_def\<close>)

theorem miPointInRegion_correct_witness:
  "miPointInRegion (store_example 0) 2 3 = Some (Box 1 2 5 4) \<and> (2, 3) \<in> region_pts (store_example 0)"
  using miPointInRegion_correct [OF store_example_wf [of 0], of 2 3]
  by (simp add: miPointInRegion_def store_example_def region_example_def REGION_NUM_RECTS_def
      REGION_RECTS_def INBOX_def)

text \<open>
  C4. Box query: for a nonempty box and a well-formed region, \<open>miRectIn\<close> answers \<open>rgnIN\<close> exactly
  when the region holds every pixel of the box, \<open>rgnOUT\<close> exactly when it holds none of them,
  and therefore \<open>rgnPART\<close> in every other case.
\<close>

theorem miRectIn_correct:
  assumes wf: "region_wf reg" and box: "nonempty e"
  shows "(miRectIn reg e = rgnIN \<longleftrightarrow> {(x, y). INBOX e x y} \<subseteq> region_pts reg) \<and>
    (miRectIn reg e = rgnOUT \<longleftrightarrow> {(x, y). INBOX e x y} \<inter> region_pts reg = {})"
proof -
  have corner: "INBOX e (bx1 e) (by1 e)" using box by (simp add: INBOX_def nonempty_def)
  consider (out) "REGION_NUM_RECTS reg = 0 \<or> \<not> EXTENTCHECK (extents reg) e"
    | (one) "rdata reg = SingleRect" "EXTENTCHECK (extents reg) e"
    | (more) bs where "rdata reg = Rects bs" "length bs \<ge> 2" "banded bs" "EXTENTCHECK (extents reg) e"
    using wf by (auto simp: region_wf_def REGION_NUM_RECTS_def REGION_RECTS_def
        split: RegData.splits if_splits)
  then show ?thesis
  proof cases
    case out
    then have "{(x, y). INBOX e x y} \<inter> region_pts reg = {}"
      using EXTENTCHECK_disjoint [of "extents reg" e] pts_in_extents [OF wf]
      by (auto simp: REGION_NUM_RECTS_def region_pts_def)
    with out corner show ?thesis by (auto simp: miRectIn_def)
  next
    case one
    let ?x = "max (bx1 e) (bx1 (extents reg))" and ?y = "max (by1 e) (by1 (extents reg))"
    have "INBOX e ?x ?y" "INBOX (extents reg) ?x ?y"
      using one box wf by (auto simp: EXTENTCHECK_def INBOX_def nonempty_def region_wf_def)
    moreover have "SUBSUMES (extents reg) e" if "{(x, y). INBOX e x y} \<subseteq> region_pts reg"
    proof -
      have "INBOX e (bx2 e - 1) (by2 e - 1)" using box by (simp add: INBOX_def nonempty_def)
      with that corner one have "INBOX (extents reg) (bx1 e) (by1 e)"
        "INBOX (extents reg) (bx2 e - 1) (by2 e - 1)" by auto
      then show ?thesis by (auto simp: INBOX_def SUBSUMES_def)
    qed
    ultimately show ?thesis
      using one SUBSUMES_INBOX [of "extents reg" e]
      by (auto simp: miRectIn_def REGION_NUM_RECTS_def REGION_RECTS_def)
  next
    case more
    obtain pin y where scan: "rect_scan bs e (bx1 e) (by1 e) False False = (pin, y)" by fastforce
    have "rows_from e (by1 e) = {(x, y). INBOX e x y}" by (auto simp: rows_from_def INBOX_def)
    with rect_scan_correct [OF more(3) box _ _ _ scan] box
    have s: "(pin \<longleftrightarrow> {(x, y). INBOX e x y} \<inter> pts bs \<noteq> {}) \<and>
        (pin \<longrightarrow> (by2 e \<le> y \<longleftrightarrow> {(x, y). INBOX e x y} \<subseteq> pts bs))"
      by (simp add: scan_spec_def nonempty_def)
    have "miRectIn reg e = (if pin then (if y < by2 e then rgnPART else rgnIN) else rgnOUT)"
      using more scan by (auto simp: miRectIn_def REGION_NUM_RECTS_def REGION_RECTS_def)
    with s more(1) corner show ?thesis by (auto simp: not_le)
  qed
qed

theorem miRectIn_correct_witness:
  "miRectIn (store_example 0) (Box 0 0 3 2) = rgnPART \<and>
   {(x, y). INBOX (Box 0 0 3 2) x y} \<inter> region_pts (store_example 0) \<noteq> {}"
  using miRectIn_correct [OF store_example_wf [of 0], of "Box 0 0 3 2"]
  by (simp add: miRectIn_def store_example_def region_example_def REGION_NUM_RECTS_def
      REGION_RECTS_def EXTENTCHECK_def nonempty_def Let_def)

text \<open>
  Comparison: \<open>miRegionEqual\<close> holds exactly when the two regions have the same extents and
  the same list of boxes; two well-formed regions it accepts hold the same pixels.
\<close>

theorem miRegionEqual_iff:
  "(miRegionEqual reg1 reg2 \<longleftrightarrow>
      extents reg1 = extents reg2 \<and> REGION_RECTS reg1 = REGION_RECTS reg2) \<and>
   (miRegionEqual reg1 reg2 \<longrightarrow> region_pts reg1 = region_pts reg2)"
proof -
  have "boxes_equal as bs \<longleftrightarrow> as = bs" if "length as = length bs" for as bs
    using that by (induction as bs rule: list_induct2) auto
  then have "miRegionEqual reg1 reg2 \<longleftrightarrow>
      extents reg1 = extents reg2 \<and> REGION_RECTS reg1 = REGION_RECTS reg2"
    by (auto simp: miRegionEqual_def REGION_NUM_RECTS_def)
  then show ?thesis by (simp add: region_pts_def)
qed

theorem miRegionEqual_iff_witness:
  "miRegionEqual region_example region_example \<and>
   region_pts region_example = region_pts region_example"
  using miRegionEqual_iff [of region_example region_example] by simp

end
