(* ===== verification/QuickSort.thy ===== *)
theory QuickSort
  imports Prelude "HOL-Library.Multiset"
begin

text \<open>
  The partition step shared by \<open>QuickSortRects\<close> and \<open>QuickSortSpans\<close> of
  \<^verbatim>\<open>programs/Xserver/mi/miregion.c\<close>, over an arbitrary strict comparison \<open>lt\<close>. The part of the
  array being sorted is a list; the indices are those of the code. Reading before the start of
  the array is the result \<open>None\<close>, so that a defined result says that the unchecked downward
  scan stops in time.
\<close>

definition exchange :: "'a list \<Rightarrow> nat \<Rightarrow> nat \<Rightarrow> 'a list" where
  "exchange xs a b = xs[a := xs ! b, b := xs ! a]"

text \<open>The two inner loops: \<open>i\<close> is advanced and \<open>j\<close> decremented before each test.\<close>

function scan_up :: "('a \<Rightarrow> 'a \<Rightarrow> bool) \<Rightarrow> 'a \<Rightarrow> 'a list \<Rightarrow> nat \<Rightarrow> nat" where
  "scan_up lt p xs i =
     (if i + 1 < length xs \<and> lt (xs ! (i + 1)) p then scan_up lt p xs (i + 1) else i + 1)"
  by pat_completeness auto
termination by (relation "measure (\<lambda>(lt, p, xs, i). length xs - i)") auto

declare scan_up.simps [simp del]

fun scan_down :: "('a \<Rightarrow> 'a \<Rightarrow> bool) \<Rightarrow> 'a \<Rightarrow> 'a list \<Rightarrow> nat \<Rightarrow> nat option" where
  "scan_down lt p xs 0 = None"
| "scan_down lt p xs (Suc j) = (if lt p (xs ! j) then scan_down lt p xs j else Some j)"

lemma scan_down_less: "scan_down lt p xs j = Some k \<Longrightarrow> k < j"
  by (induction j) (auto split: if_splits)

function partition_loop ::
    "('a \<Rightarrow> 'a \<Rightarrow> bool) \<Rightarrow> 'a \<Rightarrow> 'a list \<Rightarrow> nat \<Rightarrow> nat \<Rightarrow> ('a list \<times> nat) option" where
  "partition_loop lt p xs i j =
     (let i' = scan_up lt p xs i
      in case scan_down lt p xs j of
           None \<Rightarrow> None
         | Some j' \<Rightarrow>
             if i' < j' then partition_loop lt p (exchange xs i' j') i' j' else Some (xs, j'))"
  by pat_completeness auto
termination
  by (relation "measure (\<lambda>(lt, p, xs, i, j). j)") (auto dest: scan_down_less)

declare partition_loop.simps [simp del]

lemma exchange_simps [simp]:
  "length (exchange xs a b) = length xs"
  "a < length xs \<Longrightarrow> b < length xs \<Longrightarrow> mset (exchange xs a b) = mset xs"
  by (simp_all add: exchange_def mset_swap)

lemma nth_exchange:
  "a < length xs \<Longrightarrow> b < length xs \<Longrightarrow> k < length xs \<Longrightarrow>
   exchange xs a b ! k = (if k = a then xs ! b else if k = b then xs ! a else xs ! k)"
  by (auto simp: exchange_def nth_list_update)

lemma partition_loop_less:
  "partition_loop lt p xs i j = Some (ys, k) \<Longrightarrow> k < j \<and> length ys = length xs"
proof (induction lt p xs i j rule: partition_loop.induct)
  case (1 lt p xs i j)
  then show ?case
    by (subst (asm) partition_loop.simps)
       (fastforce simp: Let_def dest: scan_down_less split: option.splits if_splits)
qed

locale sort_order =
  fixes lt :: "'a \<Rightarrow> 'a \<Rightarrow> bool"
  assumes irrefl: "\<not> lt a a"
    and trans: "lt a b \<Longrightarrow> lt b c \<Longrightarrow> lt a c"
    and neg_trans: "\<not> lt a b \<Longrightarrow> \<not> lt b c \<Longrightarrow> \<not> lt a c"
begin

abbreviation ordered :: "'a list \<Rightarrow> bool" where
  "ordered xs \<equiv> sorted_wrt (\<lambda>a b. \<not> lt b a) xs"

lemma asym: "lt a b \<Longrightarrow> \<not> lt b a"
  using irrefl trans by blast

lemma scan_up_spec:
  assumes "i < length xs"
  shows "i < scan_up lt p xs i \<and> scan_up lt p xs i \<le> length xs \<and>
    (\<forall>k. i < k \<and> k < scan_up lt p xs i \<longrightarrow> lt (xs ! k) p) \<and>
    (scan_up lt p xs i < length xs \<longrightarrow> \<not> lt (xs ! scan_up lt p xs i) p)"
  using assms
proof (induction "length xs - i" arbitrary: i)
  case (Suc n)
  show ?case
  proof (cases "i + 1 < length xs \<and> lt (xs ! (i + 1)) p")
    case True
    then have eq: "scan_up lt p xs i = scan_up lt p xs (i + 1)" by (subst scan_up.simps) simp
    from Suc.hyps(1) [of "i + 1"] Suc.hyps(2) True
    have IH: "i + 1 < scan_up lt p xs (i + 1) \<and> scan_up lt p xs (i + 1) \<le> length xs \<and>
      (\<forall>k. i + 1 < k \<and> k < scan_up lt p xs (i + 1) \<longrightarrow> lt (xs ! k) p) \<and>
      (scan_up lt p xs (i + 1) < length xs \<longrightarrow> \<not> lt (xs ! scan_up lt p xs (i + 1)) p)"
      by simp
    have "lt (xs ! k) p" if "i < k" "k < scan_up lt p xs (i + 1)" for k
      using IH that True by (cases "k = i + 1") auto
    with IH show ?thesis unfolding eq by auto
  next
    case False
    then have "scan_up lt p xs i = i + 1" by (subst scan_up.simps) (rule if_not_P)
    with False Suc.prems show ?thesis by auto
  qed
qed simp

lemma scan_down_spec:
  "j \<le> length xs \<Longrightarrow> 0 < j \<Longrightarrow> \<not> lt p (xs ! 0) \<Longrightarrow>
   \<exists>k. scan_down lt p xs j = Some k \<and> k < j \<and> \<not> lt p (xs ! k) \<and> (\<forall>m. k < m \<and> m < j \<longrightarrow> lt p (xs ! m))"
proof (induction j)
  case (Suc j)
  then show ?case
    by (cases "lt p (xs ! j)"; cases j) (auto simp: less_Suc_eq)
qed simp

text \<open>
  The partition loop ends with a defined result, permutes the array, keeps the pivot at its
  start, and splits the array at the index it returns.
\<close>

lemma partition_loop_spec:
  assumes "i < j" "j \<le> length xs" "xs ! 0 = p" "\<forall>k \<le> i. \<not> lt p (xs ! k)"
    "\<forall>k. j \<le> k \<and> k < length xs \<longrightarrow> \<not> lt (xs ! k) p"
  shows "\<exists>ys m. partition_loop lt p xs i j = Some (ys, m) \<and> m < length xs \<and> mset ys = mset xs \<and>
    ys ! 0 = p \<and> (\<forall>k \<le> m. \<not> lt p (ys ! k)) \<and> (\<forall>k. m < k \<and> k < length xs \<longrightarrow> \<not> lt (ys ! k) p)"
  using assms
proof (induction j arbitrary: xs i rule: less_induct)
  case (less j)
  let ?i = "scan_up lt p xs i"
  have up: "i < ?i" "?i \<le> length xs" "\<forall>k. i < k \<and> k < ?i \<longrightarrow> lt (xs ! k) p"
    "?i < length xs \<longrightarrow> \<not> lt (xs ! ?i) p"
    using scan_up_spec [of i xs p] less.prems by auto
  have below: "\<not> lt p (xs ! k)" if "k < ?i" for k
    using that up(3) less.prems(4) asym by (metis not_le)
  obtain j' where down: "scan_down lt p xs j = Some j'" "j' < j" "\<not> lt p (xs ! j')"
    "\<forall>m. j' < m \<and> m < j \<longrightarrow> lt p (xs ! m)"
    using scan_down_spec [of j xs p] less.prems irrefl by auto
  have above: "\<not> lt (xs ! k) p" if "j' < k" "k < length xs" for k
    using that down(4) less.prems(5) asym by (metis not_le)
  show ?case
  proof (cases "?i < j'")
    case True
    let ?xs = "exchange xs ?i j'"
    have len: "?i < length xs" "j' < length xs" using True down(2) less.prems(2) by simp_all
    note nth = nth_exchange [OF len]
    have "0 < length xs" using len by linarith
    then have "?xs ! 0 = p" using nth [of 0] up(1) True less.prems(3) by auto
    moreover have "\<forall>k \<le> ?i. \<not> lt p (?xs ! k)"
      using nth below down(3) True len by (auto simp: le_less)
    moreover have "\<forall>k. j' \<le> k \<and> k < length ?xs \<longrightarrow> \<not> lt (?xs ! k) p"
      using nth above up(4) len True by (auto simp: le_less)
    ultimately obtain ys m where
      "partition_loop lt p ?xs ?i j' = Some (ys, m) \<and> m < length xs \<and> mset ys = mset xs \<and>
       ys ! 0 = p \<and> (\<forall>k \<le> m. \<not> lt p (ys ! k)) \<and> (\<forall>k. m < k \<and> k < length xs \<longrightarrow> \<not> lt (ys ! k) p)"
      using less.IH [OF down(2) True, of ?xs] len by auto
    moreover have "partition_loop lt p xs i j = partition_loop lt p ?xs ?i j'"
      by (subst partition_loop.simps) (simp add: Let_def down True)
    ultimately show ?thesis by auto
  next
    case False
    have "partition_loop lt p xs i j = Some (xs, j')"
      by (subst partition_loop.simps) (simp add: Let_def down False)
    moreover have "\<forall>k \<le> j'. \<not> lt p (xs ! k)"
      using below down(3) False by (metis le_less not_less order.strict_trans2)
    moreover have "j' < length xs" using down(2) less.prems(2) by simp
    ultimately show ?thesis using above less.prems(3) by auto
  qed
qed

text \<open>The whole step: after the pivot is moved to the returned index the array is split there.\<close>

lemma partition_spec:
  assumes "xs \<noteq> []"
  shows "\<exists>ys m. partition_loop lt (xs ! 0) xs 0 (length xs) = Some (ys, m) \<and> m < length xs \<and>
    length ys = length xs \<and> mset (exchange ys 0 m) = mset xs \<and>
    (\<forall>a \<in> set (take m (exchange ys 0 m)). \<not> lt (exchange ys 0 m ! m) a) \<and>
    (\<forall>a \<in> set (drop (m + 1) (exchange ys 0 m)). \<not> lt a (exchange ys 0 m ! m))"
proof -
  obtain ys m where p: "partition_loop lt (xs ! 0) xs 0 (length xs) = Some (ys, m)" "m < length xs"
    "mset ys = mset xs" "ys ! 0 = xs ! 0" "\<forall>k \<le> m. \<not> lt (xs ! 0) (ys ! k)"
    "\<forall>k. m < k \<and> k < length xs \<longrightarrow> \<not> lt (ys ! k) (xs ! 0)"
  proof -
    have "\<forall>k \<le> 0. \<not> lt (xs ! 0) (xs ! k)" "\<forall>k. length xs \<le> k \<and> k < length xs \<longrightarrow> \<not> lt (xs ! k) (xs ! 0)"
      using irrefl by auto
    from partition_loop_spec [OF _ order_refl refl this] assms that show ?thesis by blast
  qed
  have len: "length ys = length xs" using p(3) mset_eq_length by blast
  let ?z = "exchange ys 0 m"
  have l: "0 < length ys" "m < length ys" using p(2) len by auto
  note nth = nth_exchange [OF l]
  have m: "?z ! m = xs ! 0" using nth [of m] l p(4) by (simp add: p(4))
  have "\<forall>a \<in> set (take m ?z). \<not> lt (?z ! m) a"
    using nth p(5) l unfolding m by (auto simp: in_set_conv_nth split: if_splits)
  moreover have "\<forall>a \<in> set (drop (m + 1) ?z). \<not> lt a (?z ! m)"
    using nth p(6) l len unfolding m by (auto simp: in_set_conv_nth split: if_splits)
  ultimately show ?thesis using p(1-3) len l by auto
qed

lemma ordered_join:
  assumes "ordered lo" "ordered hi" "\<forall>a \<in> set lo. \<not> lt p a" "\<forall>a \<in> set hi. \<not> lt a p"
  shows "ordered (lo @ p # hi)"
  using assms neg_trans by (auto simp: sorted_wrt_append)

end

end
