(* ===== verification/RegionValidate.thy ===== *)
theory RegionValidate
  imports Regions QuickSort
begin

text \<open>
  Building a region from unsorted rectangles: \<open>QuickSortRects\<close>, \<open>miRegionAppend\<close>,
  \<open>miRegionValidate\<close> and \<open>miRectsToRegion\<close> of \<^verbatim>\<open>programs/Xserver/mi/miregion.c\<close>. Memory
  allocation is assumed to succeed.
\<close>

subsection \<open>Sorting\<close>

definition rect_lt :: "BoxRec \<Rightarrow> BoxRec \<Rightarrow> bool" where
  "rect_lt a b \<longleftrightarrow> by1 a < by1 b \<or> by1 a = by1 b \<and> bx1 a < bx1 b"

text \<open>
  The recursive call sorts the part after the partition element, the do-while loop goes on with
  the part before it. \<open>None\<close> would be a read outside the array.
\<close>

function QuickSortRects :: "BoxRec list \<Rightarrow> BoxRec list option" where
  "QuickSortRects rects =
     (let numRects = length rects
      in if numRects = 2
         then Some (if rect_lt (rects ! 1) (rects ! 0) then exchange rects 0 1 else rects)
         else
           (let rects1 = exchange rects 0 (numRects div 2)
            in case partition_loop rect_lt (rects1 ! 0) rects1 0 numRects of
                 None \<Rightarrow> None
               | Some (rects2, j) \<Rightarrow>
                   (let rects3 = exchange rects2 0 j;
                        hi = (if numRects - j - 1 > 1 then QuickSortRects (drop (j + 1) rects3)
                              else Some (drop (j + 1) rects3));
                        lo = (if j > 1 then QuickSortRects (take j rects3)
                              else Some (take j rects3))
                    in case (lo, hi) of
                         (Some l, Some h) \<Rightarrow> Some (l @ (rects3 ! j) # h)
                       | _ \<Rightarrow> None)))"
  by pat_completeness auto
termination
  by (relation "measure length") (auto dest!: partition_loop_less)

declare QuickSortRects.simps [simp del]

interpretation rect_order: sort_order rect_lt
  by unfold_locales (auto simp: rect_lt_def)

lemma QuickSortRects_sorts_aux:
  "rects \<noteq> [] \<Longrightarrow>
   \<exists>sorted. QuickSortRects rects = Some sorted \<and> mset sorted = mset rects \<and>
     sorted_wrt (\<lambda>a b. \<not> rect_lt b a) sorted"
proof (induction rects rule: length_induct)
  case (1 rects)
  let ?n = "length rects"
  show ?case
  proof (cases "?n = 2")
    case True
    then obtain a b where "rects = [a, b]" by (auto simp: length_Suc_conv numeral_2_eq_2)
    then show ?thesis
      by (subst QuickSortRects.simps) (auto simp: exchange_def dest: rect_order.asym)
  next
    case False
    let ?r1 = "exchange rects 0 (?n div 2)"
    have pos: "0 < ?n" using "1.prems" by simp
    then have half: "?n div 2 < ?n" by simp
    have len1: "length ?r1 = ?n" by simp
    then have ne1: "?r1 \<noteq> []" using pos by (metis length_greater_0_conv)
    have ms1: "mset ?r1 = mset rects" by (rule exchange_simps(2) [OF pos half])
    obtain r2 j where part: "partition_loop rect_lt (?r1 ! 0) ?r1 0 ?n = Some (r2, j)" "j < ?n"
      "length r2 = ?n" "mset (exchange r2 0 j) = mset ?r1"
      "\<forall>a \<in> set (take j (exchange r2 0 j)). \<not> rect_lt (exchange r2 0 j ! j) a"
      "\<forall>a \<in> set (drop (j + 1) (exchange r2 0 j)). \<not> rect_lt a (exchange r2 0 j ! j)"
      using rect_order.partition_spec [OF ne1] unfolding len1 by blast
    define r3 where "r3 = exchange r2 0 j"
    have len3: "length r3 = ?n" by (simp add: r3_def part(3))
    have srt: "\<exists>s. (if length xs > 1 then QuickSortRects xs else Some xs) = Some s \<and>
        mset s = mset xs \<and> sorted_wrt (\<lambda>a b. \<not> rect_lt b a) s" if "length xs < ?n" for xs
    proof (cases "length xs > 1")
      case True
      then have "xs \<noteq> []" by auto
      with True "1.IH" that show ?thesis by simp
    next
      case False
      then have "xs = [] \<or> (\<exists>a. xs = [a])" by (cases xs) auto
      then show ?thesis by auto
    qed
    obtain l where l: "(if j > 1 then QuickSortRects (take j r3) else Some (take j r3)) = Some l"
      "mset l = mset (take j r3)" "sorted_wrt (\<lambda>a b. \<not> rect_lt b a) l"
      using srt [of "take j r3"] part(2) len3 by (auto simp: min_def)
    have "length (drop (j + 1) r3) = ?n - j - 1" "length (drop (j + 1) r3) < ?n"
      using part(2) len3 by simp_all
    from srt [OF this(2)] obtain h where h: "(if ?n - j - 1 > 1 then QuickSortRects (drop (j + 1) r3) else Some (drop (j + 1) r3)) = Some h"
      "mset h = mset (drop (j + 1) r3)" "sorted_wrt (\<lambda>a b. \<not> rect_lt b a) h"
      unfolding \<open>length (drop (j + 1) r3) = ?n - j - 1\<close> by blast
    have "QuickSortRects rects = Some (l @ (r3 ! j) # h)"
      by (subst QuickSortRects.simps)
         (simp only: Let_def False if_False part(1) option.case prod.case r3_def [symmetric] l(1) h(1))
    moreover have "mset (l @ (r3 ! j) # h) = mset rects"
    proof -
      have "mset (l @ (r3 ! j) # h) = mset (take j r3 @ (r3 ! j) # drop (Suc j) r3)"
        by (simp add: l(2) h(2))
      also have "take j r3 @ (r3 ! j) # drop (Suc j) r3 = r3"
        using part(2) len3 by (simp add: id_take_nth_drop [symmetric])
      finally show ?thesis using part(4) ms1 by (simp add: r3_def)
    qed
    moreover have "sorted_wrt (\<lambda>a b. \<not> rect_lt b a) (l @ (r3 ! j) # h)"
    proof (rule rect_order.ordered_join [OF l(3) h(3)])
      have "set l = set (take j r3)" "set h = set (drop (j + 1) r3)"
        using l(2) h(2) mset_eq_setD by blast+
      then show "\<forall>a \<in> set l. \<not> rect_lt (r3 ! j) a" "\<forall>a \<in> set h. \<not> rect_lt a (r3 ! j)"
        using part(5,6) by (simp_all add: r3_def)
    qed
    ultimately show ?thesis by blast
  qed
qed

text \<open>
  Sorting: on every nonempty array \<open>QuickSortRects\<close> returns without reading outside the
  array; the result is a permutation of the boxes in which no box precedes one with a smaller
  \<open>(y1, x1)\<close>.
\<close>

theorem QuickSortRects_sorts:
  "rects \<noteq> [] \<Longrightarrow>
   \<exists>sorted. QuickSortRects rects = Some sorted \<and> mset sorted = mset rects \<and>
     sorted_wrt (\<lambda>a b. by1 a < by1 b \<or> by1 a = by1 b \<and> bx1 a \<le> bx1 b) sorted"
proof -
  have "(\<lambda>a b. \<not> rect_lt b a) = (\<lambda>a b. by1 a < by1 b \<or> by1 a = by1 b \<and> bx1 a \<le> bx1 b)"
    by (auto simp: fun_eq_iff rect_lt_def)
  then show "rects \<noteq> [] \<Longrightarrow> ?thesis" using QuickSortRects_sorts_aux [of rects] by simp
qed

theorem QuickSortRects_sorts_witness:
  "\<exists>sorted. QuickSortRects [Box 3 1 4 2, Box 0 0 1 1, Box 0 1 1 2] = Some sorted \<and>
     mset sorted = mset [Box 3 1 4 2, Box 0 0 1 1, Box 0 1 1 2] \<and>
     sorted_wrt (\<lambda>a b. by1 a < by1 b \<or> by1 a = by1 b \<and> bx1 a \<le> bx1 b) sorted"
  by (rule QuickSortRects_sorts) simp

subsection \<open>Appending\<close>

text \<open>
  \<open>miRegionAppend\<close> puts the boxes of \<open>rgn\<close> before or after those of \<open>dstrgn\<close> when this keeps
  the banding, and otherwise after them, marking the extents as invalid (\<open>x2 = x1\<close>).
\<close>

definition clear_of :: "BoxRec \<Rightarrow> BoxRec \<Rightarrow> bool" where
  "clear_of b a \<longleftrightarrow> by1 b > by2 a \<or> (by1 b = by1 a \<and> by2 b = by2 a \<and> bx1 b > bx2 a)"

definition widen_x :: "BoxRec \<Rightarrow> BoxRec \<Rightarrow> BoxRec" where
  "widen_x e e' = e\<lparr>bx1 := (if bx1 e' < bx1 e then bx1 e' else bx1 e),
                    bx2 := (if bx2 e' > bx2 e then bx2 e' else bx2 e)\<rparr>"

definition miRegionAppend :: "RegionRec \<Rightarrow> RegionRec \<Rightarrow> bool \<times> RegionRec" where
  "miRegionAppend dstrgn rgn =
     (let old = REGION_RECTS rgn; dst = REGION_RECTS dstrgn; e = extents dstrgn; e' = extents rgn
      in if REGION_NAR rgn then miRegionBreak dstrgn
         else if rdata rgn = SingleRect \<and> rdata dstrgn = EmptyData
         then (True, dstrgn\<lparr>extents := e', rdata := SingleRect\<rparr>)
         else if old = [] then (True, dstrgn)
         else if dst = [] then (True, \<lparr>extents = e', rdata = Rects old\<rparr>)
         else if bx2 e > bx1 e then
           (if clear_of (hd old) (last dst)
            then (True, \<lparr>extents = (widen_x e e')\<lparr>by2 := by2 e'\<rparr>, rdata = Rects (dst @ old)\<rparr>)
            else if clear_of (hd dst) (last old)
            then (True, \<lparr>extents = (widen_x e e')\<lparr>by1 := by1 e'\<rparr>, rdata = Rects (old @ dst)\<rparr>)
            else (True, \<lparr>extents = e\<lparr>bx2 := bx1 e\<rparr>, rdata = Rects (dst @ old)\<rparr>))
         else (True, \<lparr>extents = e, rdata = Rects (dst @ old)\<rparr>))"

subsection \<open>Validation\<close>

text \<open>A region under construction in step 2: its extents, its array, and the two band indices.\<close>

record RegionInfo =
  ri_ext :: BoxRec
  ri_rects :: "BoxRec list"
  ri_prevBand :: nat
  ri_curBand :: nat

text \<open>
  Step 2 puts one box into the first region it fits, or into a new one. The second component is
  \<open>*pOverlap\<close>.
\<close>

fun scatter_box :: "BoxRec \<Rightarrow> RegionInfo list \<Rightarrow> bool \<Rightarrow> RegionInfo list \<times> bool" where
  "scatter_box box [] overlap =
     ([\<lparr>ri_ext = box, ri_rects = [box], ri_prevBand = 0, ri_curBand = 0\<rparr>], overlap)"
| "scatter_box box (rit # ris) overlap =
     (let riBox = last (ri_rects rit)
      in if by1 box = by1 riBox \<and> by2 box = by2 riBox then
           (if bx1 box \<le> bx2 riBox
            then (rit\<lparr>ri_rects := butlast (ri_rects rit) @
                        [if bx2 box > bx2 riBox then riBox\<lparr>bx2 := bx2 box\<rparr> else riBox]\<rparr> # ris,
                  overlap \<or> bx1 box < bx2 riBox)
            else (rit\<lparr>ri_rects := ri_rects rit @ [box]\<rparr> # ris, overlap))
         else if by1 box \<ge> by2 riBox then
           (let e = ri_ext rit;
                e1 = (if bx2 e < bx2 riBox then e\<lparr>bx2 := bx2 riBox\<rparr> else e);
                e2 = (if bx1 e1 > bx1 box then e1\<lparr>bx1 := bx1 box\<rparr> else e1);
                (rects, prev) = Coalesce (ri_rects rit) (ri_prevBand rit) (ri_curBand rit)
            in (\<lparr>ri_ext = e2, ri_rects = rects @ [box], ri_prevBand = prev,
                 ri_curBand = length rects\<rparr> # ris, overlap))
         else (case scatter_box box ris overlap of (ris', ov) \<Rightarrow> (rit # ris', ov)))"

fun scatter :: "BoxRec list \<Rightarrow> RegionInfo list \<Rightarrow> bool \<Rightarrow> RegionInfo list \<times> bool" where
  "scatter [] ris overlap = (ris, overlap)"
| "scatter (box # boxes) ris overlap =
     (case scatter_box box ris overlap of (ris', ov) \<Rightarrow> scatter boxes ris' ov)"

text \<open>The final pass over each region.\<close>

definition finish_info :: "RegionInfo \<Rightarrow> RegionRec" where
  "finish_info rit =
     (let riBox = last (ri_rects rit);
          e = (ri_ext rit)\<lparr>by2 := by2 riBox\<rparr>;
          e1 = (if bx2 e < bx2 riBox then e\<lparr>bx2 := bx2 riBox\<rparr> else e);
          rects = fst (Coalesce (ri_rects rit) (ri_prevBand rit) (ri_curBand rit))
      in \<lparr>extents = e1, rdata = (if length rects = 1 then SingleRect else Rects rects)\<rparr>)"

text \<open>Step 3 unites region \<open>j\<close> with region \<open>j + half\<close> until one is left.\<close>

definition merge_regions :: "RegionRec \<Rightarrow> RegionRec \<Rightarrow> bool \<Rightarrow> bool \<times> RegionRec \<times> bool" where
  "merge_regions reg hreg overlap =
     (case miRegionOp reg reg hreg miUnionO True True overlap of
        (ok, n, ov) \<Rightarrow>
          (let e = extents n; e' = extents hreg
           in (ok, n\<lparr>extents :=
                 Box (if bx1 e' < bx1 e then bx1 e' else bx1 e) (if by1 e' < by1 e then by1 e' else by1 e)
                     (if bx2 e' > bx2 e then bx2 e' else bx2 e) (if by2 e' > by2 e then by2 e' else by2 e)\<rparr>,
               ov)))"

fun merge_pairs ::
    "RegionRec list \<Rightarrow> RegionRec list \<Rightarrow> bool \<Rightarrow> bool \<Rightarrow> bool \<times> RegionRec list \<times> bool" where
  "merge_pairs (reg # regs) (hreg # hregs) ret overlap =
     (case merge_regions reg hreg overlap of
        (ok, n, ov) \<Rightarrow>
          (case merge_pairs regs hregs (ret \<and> ok) ov of (ret', ns, ov') \<Rightarrow> (ret', n # ns, ov')))"
| "merge_pairs _ _ ret overlap = (ret, [], overlap)"

lemma merge_pairs_length:
  "length (fst (snd (merge_pairs as bs ret ov))) = min (length as) (length bs)"
  by (induction as bs ret ov rule: merge_pairs.induct) (auto split: prod.splits)

definition merge_round :: "RegionRec list \<Rightarrow> bool \<Rightarrow> bool \<Rightarrow> bool \<times> RegionRec list \<times> bool" where
  "merge_round regs ret overlap =
     (let half = length regs div 2; odd = length regs mod 2
      in case merge_pairs (take half (drop odd regs)) (drop (odd + half) regs) ret overlap of
           (ret', ns, ov) \<Rightarrow> (ret', take odd regs @ ns, ov))"

lemma merge_round_length:
  "length (fst (snd (merge_round regs ret ov))) = length regs - length regs div 2"
proof -
  obtain half odd where n: "half = length regs div 2" "odd = length regs mod 2" by simp
  have len: "length regs = 2 * half + odd" unfolding n by simp
  obtain r ns ov' where p: "merge_pairs (take half (drop odd regs)) (drop (odd + half) regs) ret ov = (r, ns, ov')"
    by (metis prod_cases3)
  from merge_pairs_length [of "take half (drop odd regs)" "drop (odd + half) regs" ret ov] len
  have "length ns = half" by (simp add: p)
  moreover have "merge_round regs ret ov = (r, take odd regs @ ns, ov')"
    using p by (simp add: merge_round_def Let_def n)
  moreover have "odd div 2 = 0" by (simp add: n)
  ultimately show ?thesis using len by (simp flip: n)
qed

lemma merge_round_shrinks:
  "merge_round regs ret ov = (ret', regs', ov') \<Longrightarrow> Suc 0 < length regs \<Longrightarrow> length regs' < length regs"
  using merge_round_length [of regs ret ov] by simp

function merge_all :: "RegionRec list \<Rightarrow> bool \<Rightarrow> bool \<Rightarrow> bool \<times> RegionRec list \<times> bool" where
  "merge_all regs ret overlap =
     (if length regs > 1
      then (case merge_round regs ret overlap of (ret', regs', ov) \<Rightarrow> merge_all regs' ret' ov)
      else (ret, regs, overlap))"
  by pat_completeness auto
termination
  by (relation "measure (\<lambda>(regs, ret, ov). length regs)") (auto dest: merge_round_shrinks [OF sym] merge_round_shrinks)

declare merge_all.simps [simp del]

text \<open>
  \<open>miRegionValidate\<close> returns the status, the region and \<open>*pOverlap\<close>; \<open>None\<close> would be a read
  outside the array in the sort. \<open>ri[0]\<close> shares the array of \<open>badreg\<close>: it never holds more
  boxes than have been scattered, so the boxes still to come are not overwritten.
\<close>

definition miRegionValidate :: "RegionRec \<Rightarrow> (bool \<times> RegionRec \<times> bool) option" where
  "miRegionValidate badreg =
     (let rects = REGION_RECTS badreg
      in if rdata badreg = SingleRect then Some (True, badreg, False)
         else if rects = [] then Some (\<not> REGION_NAR badreg, badreg, False)
         else if bx1 (extents badreg) < bx2 (extents badreg)
         then Some (True, if length rects = 1 then badreg\<lparr>rdata := SingleRect\<rparr> else badreg, False)
         else (case QuickSortRects rects of
                 None \<Rightarrow> None
               | Some [] \<Rightarrow> None
               | Some (box # boxes) \<Rightarrow>
                   (let ri0 = \<lparr>ri_ext = box, ri_rects = [box], ri_prevBand = 0, ri_curBand = 0\<rparr>
                    in case scatter boxes [ri0] False of
                         (ris, ov) \<Rightarrow>
                           (case merge_all (map finish_info ris) True ov of
                              (ret, regs, ov') \<Rightarrow> Some (ret, hd regs, ov')))))"

subsection \<open>Step 2: every region under construction is banded\<close>

definition hull :: "BoxRec \<Rightarrow> BoxRec \<Rightarrow> BoxRec" where
  "hull d e = Box (min (bx1 d) (bx1 e)) (min (by1 d) (by1 e)) (max (bx2 d) (bx2 e)) (max (by2 d) (by2 e))"

lemma BoxRec_eqI:
  fixes a b :: BoxRec
  shows "bx1 a = bx1 b \<Longrightarrow> by1 a = by1 b \<Longrightarrow> bx2 a = bx2 b \<Longrightarrow> by2 a = by2 b \<Longrightarrow> a = b"
  by simp

text \<open>The extents of a region under construction once its last box is taken into account.\<close>

definition final_ext :: "RegionInfo \<Rightarrow> BoxRec" where
  "final_ext rit = (let b = last (ri_rects rit) in
     (ri_ext rit)\<lparr>bx2 := max (bx2 (ri_ext rit)) (bx2 b), by2 := by2 b\<rparr>)"

definition ri_wf :: "RegionInfo \<Rightarrow> bool" where
  "ri_wf rit \<longleftrightarrow> (\<exists>pre band y1 y2. ri_rects rit = pre @ band \<and> length pre = ri_curBand rit \<and>
     band \<noteq> [] \<and> xsep band \<and> is_band y1 y2 band \<and> y1 < y2 \<and> built y1 pre (ri_prevBand rit)) \<and>
     tight (final_ext rit) (pts (ri_rects rit))"

lemma ri_wfI:
  "ri_rects rit = pre @ band \<Longrightarrow> length pre = ri_curBand rit \<Longrightarrow> band \<noteq> [] \<Longrightarrow> xsep band \<Longrightarrow>
   is_band y1 y2 band \<Longrightarrow> y1 < y2 \<Longrightarrow> built y1 pre (ri_prevBand rit) \<Longrightarrow>
   tight (final_ext rit) (pts (ri_rects rit)) \<Longrightarrow> ri_wf rit"
  unfolding ri_wf_def by blast

definition box_pts :: "BoxRec \<Rightarrow> (int \<times> int) set" where
  "box_pts b = {(x, y). INBOX b x y}"

lemma tight_extend:
  "tight e S \<Longrightarrow> nonempty b \<Longrightarrow> e' = hull e b \<Longrightarrow> T = S \<union> box_pts b \<Longrightarrow> tight e' T"
  using tight_hull [OF _ tight_box] by (auto simp: hull_def box_pts_def)

lemma ri_wf_new:
  assumes "nonempty b"
  shows "ri_wf \<lparr>ri_ext = b, ri_rects = [b], ri_prevBand = 0, ri_curBand = 0\<rparr>"
proof -
  have "built (by1 b) [] 0" by (simp add: built_def last_band_def)
  moreover have "final_ext \<lparr>ri_ext = b, ri_rects = [b], ri_prevBand = 0, ri_curBand = 0\<rparr> = b"
    by (simp add: final_ext_def)
  ultimately show ?thesis
    using assms tight_box [OF assms]
    by (auto simp: ri_wf_def pts_Cons nonempty_def intro!: exI [of _ "[]"])
qed

text \<open>Appending to the last band.\<close>

lemma ri_wf_append:
  assumes wf: "ri_wf rit" and box: "nonempty box" "by1 box = by1 (last (ri_rects rit))"
    "by2 box = by2 (last (ri_rects rit))" "bx2 (last (ri_rects rit)) < bx1 box"
  shows "ri_wf (rit\<lparr>ri_rects := ri_rects rit @ [box]\<rparr>)"
proof -
  obtain pre band y1 y2 where b: "ri_rects rit = pre @ band" "length pre = ri_curBand rit" "band \<noteq> []"
    "xsep band" "is_band y1 y2 band" "y1 < y2" "built y1 pre (ri_prevBand rit)"
    and t: "tight (final_ext rit) (pts (ri_rects rit))"
    using wf by (auto simp: ri_wf_def)
  obtain init l where band: "band = init @ [l]" using b(3) by (cases band rule: rev_cases) auto
  have last: "last (ri_rects rit) = l" by (simp add: b(1) band)
  have "xsep (band @ [box])" "is_band y1 y2 (band @ [box])"
    using b(4,5) box unfolding last by (auto simp: band xsep_append nonempty_def)
  moreover have "tight (final_ext (rit\<lparr>ri_rects := ri_rects rit @ [box]\<rparr>)) (pts (ri_rects rit @ [box]))"
  proof (rule tight_extend [OF t box(1)])
    have l: "(bx1 l, by1 l) \<in> pts (ri_rects rit)" "bx1 l < bx2 l"
      using b(4,5,6) by (auto simp: b(1) band pts_Cons INBOX_def xsep_append)
    then have "bx1 (ri_ext rit) \<le> bx1 l \<and> by1 (ri_ext rit) \<le> by1 l"
      using tight_extents [OF t l(1)] by (simp add: INBOX_def final_ext_def Let_def)
    then show "final_ext (rit\<lparr>ri_rects := ri_rects rit @ [box]\<rparr>) = hull (final_ext rit) box"
      using box l(2) unfolding last
      by (intro BoxRec_eqI) (auto simp: final_ext_def hull_def last Let_def nonempty_def)
  qed (simp add: pts_Cons box_pts_def)
  ultimately show ?thesis
    using b by (intro ri_wfI [of _ pre "band @ [box]" y1 y2]) simp_all
qed

text \<open>Widening the last box.\<close>

lemma ri_wf_widen:
  assumes wf: "ri_wf rit" and box: "nonempty box" "by1 box = by1 (last (ri_rects rit))"
    "by2 box = by2 (last (ri_rects rit))" "bx1 box \<le> bx2 (last (ri_rects rit))"
    "bx1 (last (ri_rects rit)) \<le> bx1 box"
    and upd: "rit' = rit\<lparr>ri_rects := butlast (ri_rects rit) @
      [if bx2 box > bx2 (last (ri_rects rit)) then (last (ri_rects rit))\<lparr>bx2 := bx2 box\<rparr>
       else last (ri_rects rit)]\<rparr>"
  shows "ri_wf rit' \<and> pts (ri_rects rit') = pts (ri_rects rit) \<union> box_pts box"
proof -
  obtain pre band y1 y2 where b: "ri_rects rit = pre @ band" "length pre = ri_curBand rit" "band \<noteq> []"
    "xsep band" "is_band y1 y2 band" "y1 < y2" "built y1 pre (ri_prevBand rit)"
    and t: "tight (final_ext rit) (pts (ri_rects rit))"
    using wf by (auto simp: ri_wf_def)
  obtain init l where band: "band = init @ [l]" using b(3) by (cases band rule: rev_cases) auto
  have last: "last (ri_rects rit) = l" "butlast (ri_rects rit) = pre @ init"
    by (simp_all add: b(1) band butlast_append)
  note box = box [unfolded last] and upd = upd [unfolded last]
  define l' where "l' = Box (bx1 l) (by1 l) (max (bx2 l) (bx2 box)) (by2 l)"
  have l': "ri_rects rit' = pre @ init @ [l']"
    unfolding upd l'_def by (auto simp: max_def intro!: BoxRec_eqI)
  have fields: "bx1 l' = bx1 l" "by1 l' = by1 l" "bx2 l' = max (bx2 l) (bx2 box)" "by2 l' = by2 l"
    by (simp_all add: l'_def)
  have "box_pts l' = box_pts l \<union> box_pts box"
    using box by (auto simp: box_pts_def INBOX_def fields)
  then have p: "pts (ri_rects rit') = pts (ri_rects rit) \<union> box_pts box"
    by (auto simp: l' b(1) band pts_Cons box_pts_def)
  have "xsep (init @ [l'])" "is_band y1 y2 (init @ [l'])"
    using b(4,5) by (auto simp: band xsep_append fields)
  moreover have "tight (final_ext rit') (pts (ri_rects rit'))"
  proof (rule tight_extend [OF t box(1) _ p])
    have l: "(bx1 l, by1 l) \<in> pts (ri_rects rit)" "bx1 l < bx2 l"
      using b(4,5,6) by (auto simp: b(1) band pts_Cons INBOX_def xsep_append)
    then have "bx1 (ri_ext rit) \<le> bx1 l \<and> by1 (ri_ext rit) \<le> by1 l"
      using tight_extents [OF t l(1)] by (simp add: INBOX_def final_ext_def last Let_def)
    then show "final_ext rit' = hull (final_ext rit) box"
      using box by (intro BoxRec_eqI) (auto simp: final_ext_def hull_def last l' fields upd Let_def)
  qed
  moreover have "ri_curBand rit' = ri_curBand rit" "ri_prevBand rit' = ri_prevBand rit"
    by (simp_all add: upd)
  ultimately show ?thesis
    using b(2,6,7) p l' by (intro conjI ri_wfI [of rit' pre "init @ [l']" y1 y2]) simp_all
qed

text \<open>Closing the last band: the array stays banded and keeps its pixels.\<close>

lemma ri_wf_close:
  assumes wf: "ri_wf rit" and co: "Coalesce (ri_rects rit) (ri_prevBand rit) (ri_curBand rit) = (rects, prev)"
  shows "built (by2 (last (ri_rects rit))) rects prev" "pts rects = pts (ri_rects rit)" "rects \<noteq> []"
proof -
  obtain pre band y1 y2 where b: "ri_rects rit = pre @ band" "length pre = ri_curBand rit" "band \<noteq> []"
    "xsep band" "is_band y1 y2 band" "y1 < y2" "built y1 pre (ri_prevBand rit)"
    and t: "tight (final_ext rit) (pts (ri_rects rit))"
    using wf by (auto simp: ri_wf_def)
  have "by2 (last (ri_rects rit)) = y2"
    using b(3,5) by (auto simp: b(1) is_band_def)
  with add_band [OF b(7,4,5) order_refl b(6), of rects prev] co b(2)
  show "built (by2 (last (ri_rects rit))) rects prev" and p: "pts rects = pts (ri_rects rit)"
    by (simp_all add: b(1) pts_band [OF b(5)])
  show "rects \<noteq> []" using t by (auto simp flip: p simp: tight_def)
qed

lemma ri_wf_new_band:
  assumes wf: "ri_wf rit" and box: "nonempty box" "by2 (last (ri_rects rit)) \<le> by1 box"
    and co: "Coalesce (ri_rects rit) (ri_prevBand rit) (ri_curBand rit) = (rects, prev)"
    and upd: "rit' = \<lparr>ri_ext = e, ri_rects = rects @ [box], ri_prevBand = prev, ri_curBand = length rects\<rparr>"
    and e: "e = Box (min (bx1 (ri_ext rit)) (bx1 box)) (by1 (ri_ext rit))
      (max (bx2 (ri_ext rit)) (bx2 (last (ri_rects rit)))) e2"
  shows "ri_wf rit' \<and> pts (ri_rects rit') = pts (ri_rects rit) \<union> box_pts box"
proof -
  note close = ri_wf_close [OF wf co]
  have t: "tight (final_ext rit) (pts (ri_rects rit))" using wf by (simp add: ri_wf_def)
  have p: "pts (ri_rects rit') = pts (ri_rects rit) \<union> box_pts box"
    by (simp add: upd close(2) pts_Cons box_pts_def)
  have "tight (final_ext rit') (pts (ri_rects rit'))"
  proof (rule tight_extend [OF t box(1) _ p])
    obtain x where "(x, by1 (final_ext rit)) \<in> pts (ri_rects rit)" using t by (auto simp: tight_def)
    then have "by1 (ri_ext rit) < by2 (last (ri_rects rit))"
      using tight_extents [OF t] by (fastforce simp: INBOX_def final_ext_def Let_def)
    then show "final_ext rit' = hull (final_ext rit) box"
      using box by (intro BoxRec_eqI) (auto simp: final_ext_def hull_def upd e Let_def nonempty_def)
  qed
  moreover have "built (by1 box) rects prev" using close(1) box(2) built_mono by blast
  ultimately show ?thesis
    using box(1) p
    by (intro conjI ri_wfI [of rit' rects "[box]" "by1 box" "by2 box"]) (simp_all add: upd nonempty_def)
qed

text \<open>
  Scattering in sorted order: every region stays well-formed, no pixel is lost or added, and
  each region ends at a box that is not after the box just placed.
\<close>

definition all_pts :: "RegionInfo list \<Rightarrow> (int \<times> int) set" where
  "all_pts ris = (\<Union>rit \<in> set ris. pts (ri_rects rit))"

lemma all_pts_simps [simp]:
  "all_pts [] = {}" "all_pts (rit # ris) = pts (ri_rects rit) \<union> all_pts ris"
  by (simp_all add: all_pts_def)

definition not_after :: "BoxRec \<Rightarrow> RegionInfo list \<Rightarrow> bool" where
  "not_after box ris \<longleftrightarrow> (\<forall>rit \<in> set ris. \<not> rect_lt box (last (ri_rects rit)))"

lemma scatter_box_spec:
  assumes "nonempty box" "\<forall>rit \<in> set ris. ri_wf rit" "not_after box ris"
    "scatter_box box ris ov = (ris', ov')"
  shows "(\<forall>rit \<in> set ris'. ri_wf rit) \<and> all_pts ris' = all_pts ris \<union> box_pts box \<and>
    not_after box ris' \<and> ris' \<noteq> []"
  using assms
proof (induction ris arbitrary: ris' ov')
  case Nil
  then show ?case using ri_wf_new [OF assms(1)]
    by (auto simp: not_after_def pts_Cons box_pts_def rect_lt_def)
next
  case (Cons rit ris)
  let ?b = "last (ri_rects rit)"
  have wf: "ri_wf rit" and na: "\<not> rect_lt box ?b" and na': "not_after box ris"
    using Cons.prems by (simp_all add: not_after_def)
  have ne: "ri_rects rit \<noteq> []" using wf by (auto simp: ri_wf_def)
  consider (widen) "by1 box = by1 ?b" "by2 box = by2 ?b" "bx1 box \<le> bx2 ?b"
    | (append) "by1 box = by1 ?b" "by2 box = by2 ?b" "\<not> bx1 box \<le> bx2 ?b"
    | (band) "\<not> (by1 box = by1 ?b \<and> by2 box = by2 ?b)" "by1 box \<ge> by2 ?b"
    | (skip) "\<not> (by1 box = by1 ?b \<and> by2 box = by2 ?b)" "\<not> by1 box \<ge> by2 ?b"
    by blast
  then show ?case
  proof cases
    case widen
    have "bx1 ?b \<le> bx1 box" using na widen by (auto simp: rect_lt_def)
    note w = ri_wf_widen [OF wf Cons.prems(1) widen this]
    define l where "l = (if bx2 box > bx2 ?b then ?b\<lparr>bx2 := bx2 box\<rparr> else ?b)"
    define rit' where "rit' = rit\<lparr>ri_rects := butlast (ri_rects rit) @ [l]\<rparr>"
    have "ris' = rit' # ris"
      using Cons.prems(4) widen by (simp add: Let_def l_def rit'_def)
    moreover have "\<not> rect_lt box (last (ri_rects rit'))"
      using na by (simp add: rect_lt_def rit'_def l_def)
    ultimately show ?thesis
      using w [of rit'] Cons.prems(2) na' by (auto simp: rit'_def l_def not_after_def)
  next
    case append
    with ri_wf_append [OF wf Cons.prems(1) append(1,2)] Cons.prems na' show ?thesis
      by (auto simp: Let_def not_after_def rect_lt_def pts_Cons box_pts_def)
  next
    case band
    obtain rects prev where co: "Coalesce (ri_rects rit) (ri_prevBand rit) (ri_curBand rit) = (rects, prev)"
      by fastforce
    define e where "e = (let e = ri_ext rit; e1 = (if bx2 e < bx2 ?b then e\<lparr>bx2 := bx2 ?b\<rparr> else e)
      in if bx1 e1 > bx1 box then e1\<lparr>bx1 := bx1 box\<rparr> else e1)"
    have "e = Box (min (bx1 (ri_ext rit)) (bx1 box)) (by1 (ri_ext rit))
        (max (bx2 (ri_ext rit)) (bx2 ?b)) (by2 (ri_ext rit))"
      by (intro BoxRec_eqI) (auto simp: e_def Let_def)
    note n = ri_wf_new_band [OF wf Cons.prems(1) band(2) co refl this]
    have "ris' = \<lparr>ri_ext = e, ri_rects = rects @ [box], ri_prevBand = prev, ri_curBand = length rects\<rparr> # ris"
      using Cons.prems(4) band co by (auto simp: Let_def e_def)
    then show ?thesis
      using n Cons.prems(2) na' by (auto simp: not_after_def rect_lt_def)
  next
    case skip
    obtain r o' where rec: "scatter_box box ris ov = (r, o')" by fastforce
    with skip Cons.prems(4) have "ris' = rit # r" by (auto simp: Let_def)
    with Cons.IH [OF Cons.prems(1) _ na' rec] Cons.prems(2) na show ?thesis
      by (auto simp: not_after_def)
  qed
qed

lemma scatter_spec:
  assumes "sorted_wrt (\<lambda>a b. \<not> rect_lt b a) boxes" "\<forall>b \<in> set boxes. nonempty b"
    "\<forall>rit \<in> set ris. ri_wf rit" "\<forall>b \<in> set boxes. not_after b ris" "ris \<noteq> []"
    "scatter boxes ris ov = (ris', ov')"
  shows "(\<forall>rit \<in> set ris'. ri_wf rit) \<and> all_pts ris' = all_pts ris \<union> pts boxes \<and> ris' \<noteq> []"
  using assms
proof (induction boxes arbitrary: ris ov)
  case (Cons b bs)
  obtain r o' where b: "scatter_box b ris ov = (r, o')" by fastforce
  have "not_after b ris" using Cons.prems(4) by simp
  note s = scatter_box_spec [OF _ Cons.prems(3) this b]
  have "not_after c r" if "c \<in> set bs" for c
    using s Cons.prems(1,2) that rect_order.neg_trans by (fastforce simp: not_after_def)
  with Cons.IH [of r o'] s Cons.prems b show ?case
    by (auto simp: pts_Cons box_pts_def)
qed simp

subsection \<open>Step 3: the union of the regions\<close>

lemma finish_info_wf:
  assumes "ri_wf rit"
  shows "region_wf (finish_info rit)" "region_pts (finish_info rit) = pts (ri_rects rit)"
    "region_pts (finish_info rit) \<noteq> {}"
proof -
  obtain rects prev where co: "Coalesce (ri_rects rit) (ri_prevBand rit) (ri_curBand rit) = (rects, prev)"
    by fastforce
  note close = ri_wf_close [OF assms co]
  have t: "tight (final_ext rit) (pts rects)" using assms close(2) by (simp add: ri_wf_def)
  have b: "banded rects" using close(1) by (simp add: built_def)
  have fin: "finish_info rit =
      \<lparr>extents = final_ext rit, rdata = (if length rects = 1 then SingleRect else Rects rects)\<rparr>"
    using co by (auto simp: finish_info_def final_ext_def Let_def max_def)
  have "region_wf (finish_info rit) \<and> region_pts (finish_info rit) = pts rects"
  proof (cases "length rects = 1")
    case True
    then obtain c where c: "rects = [c]" by (cases rects) auto
    then have "nonempty c" using b by simp
    moreover have "pts rects = {(x, y). INBOX c x y}" by (simp add: c pts_Cons)
    ultimately have "final_ext rit = c" using t tight_unique tight_box by metis
    with c \<open>nonempty c\<close> show ?thesis by (simp add: fin region_wf_def pts_Cons)
  next
    case False
    then have "length rects \<ge> 2" using close(3) by (cases rects) (auto simp: Suc_le_eq)
    with False b t close(3) show ?thesis by (simp add: fin region_wf_def)
  qed
  then show "region_wf (finish_info rit)" "region_pts (finish_info rit) = pts (ri_rects rit)"
    using close(2) by simp_all
  with t close(2) show "region_pts (finish_info rit) \<noteq> {}" by (auto simp: tight_def)
qed

definition full :: "RegionRec \<Rightarrow> bool" where
  "full reg \<longleftrightarrow> region_wf reg \<and> region_pts reg \<noteq> {}"

definition union_pts :: "RegionRec list \<Rightarrow> (int \<times> int) set" where
  "union_pts regs = (\<Union>reg \<in> set regs. region_pts reg)"

lemma merge_regions_spec:
  assumes "full reg" "full hreg" "merge_regions reg hreg ov = (ok, n, ov')"
  shows "ok \<and> full n \<and> region_pts n = region_pts reg \<union> region_pts hreg"
proof -
  have wf: "region_wf reg" "region_wf hreg" and nil: "\<not> REGION_NIL reg" "\<not> REGION_NIL hreg"
    using assms(1,2) wf_nil_iff by (auto simp: full_def)
  obtain ok' m o' where op: "miRegionOp reg reg hreg miUnionO True True ov = (ok', m, o')"
    by (metis prod_cases3)
  note o = rgn_union.miRegionOp_correct [OF wf nil op]
  have p: "region_pts m = region_pts reg \<union> region_pts hreg"
    using o(3) by (auto simp: pointwise_def)
  have n: "n = m\<lparr>extents := hull (extents m) (extents hreg)\<rparr>" "ok = ok'"
    using assms(3) op by (auto simp: merge_regions_def hull_def Let_def intro!: BoxRec_eqI)
  have "tight (extents m) (region_pts reg) \<or> tight (extents m) (region_pts m)"
    using o(2,4) wf_rects(3) [OF wf(1) nil(1)] tight_box by (auto simp: op_result_def)
  then have "tight (hull (extents m) (extents hreg)) (region_pts m)"
    using tight_hull [OF _ wf_rects(3) [OF wf(2) nil(2)], of "extents m"] p
    unfolding hull_def by (metis Un_absorb1 Un_commute Un_upper2)
  from op_result_extents [OF o(2) this] show ?thesis
    using n o(1) p assms(1) by (simp add: full_def)
qed

lemma merge_pairs_spec:
  "length as = length bs \<Longrightarrow> \<forall>r \<in> set as \<union> set bs. full r \<Longrightarrow> merge_pairs as bs ret ov = (ret', ns, ov') \<Longrightarrow>
   ret' = ret \<and> (\<forall>r \<in> set ns. full r) \<and> union_pts ns = union_pts as \<union> union_pts bs"
proof (induction as bs ret ov arbitrary: ns ret' ov' rule: merge_pairs.induct)
  case (1 reg regs hreg hregs ret overlap)
  obtain ok n ov where m: "merge_regions reg hreg overlap = (ok, n, ov)" by (metis prod_cases3)
  obtain r ms o' where rec: "merge_pairs regs hregs (ret \<and> ok) ov = (r, ms, o')" by (metis prod_cases3)
  have "full reg" "full hreg" using "1.prems"(2) by simp_all
  from merge_regions_spec [OF this m]
  have "ok \<and> full n \<and> region_pts n = region_pts reg \<union> region_pts hreg" .
  moreover have "length regs = length hregs" "\<forall>r \<in> set regs \<union> set hregs. full r"
    using "1.prems"(1,2) by simp_all
  note IH = "1.IH" [OF m [symmetric] refl this rec]
  moreover have "ret' = r" "ns = n # ms" using "1.prems"(3) m rec by simp_all
  ultimately show ?case by (simp add: union_pts_def Un_ac)
qed (auto simp: union_pts_def)

lemma merge_round_spec:
  assumes "\<forall>r \<in> set regs. full r" "merge_round regs ret ov = (ret', regs', ov')"
  shows "ret' = ret \<and> (\<forall>r \<in> set regs'. full r) \<and> union_pts regs' = union_pts regs"
proof -
  obtain half odd where n: "half = length regs div 2" "odd = length regs mod 2" by simp
  have len: "length regs = 2 * half + odd" unfolding n by simp
  let ?as = "take half (drop odd regs)" and ?bs = "drop (odd + half) regs"
  have split: "regs = take odd regs @ ?as @ ?bs"
    by (metis append_take_drop_id drop_drop add.commute)
  obtain r ns o' where p: "merge_pairs ?as ?bs ret ov = (r, ns, o')" by (metis prod_cases3)
  have "set regs = set (take odd regs) \<union> set ?as \<union> set ?bs"
    by (subst split) auto
  moreover have "length ?as = length ?bs" using len by simp
  moreover have "regs' = take odd regs @ ns" "ret' = r"
    using assms(2) p by (simp_all add: merge_round_def Let_def n)
  ultimately show ?thesis
    using merge_pairs_spec [OF _ _ p] assms(1) by (auto simp: union_pts_def)
qed

lemma merge_all_spec:
  "\<forall>r \<in> set regs. full r \<Longrightarrow> regs \<noteq> [] \<Longrightarrow> merge_all regs ret ov = (ret', regs', ov') \<Longrightarrow>
   ret' = ret \<and> full (hd regs') \<and> region_pts (hd regs') = union_pts regs"
proof (induction regs ret ov rule: merge_all.induct)
  case (1 regs ret ov)
  show ?case
  proof (cases "length regs > 1")
    case True
    obtain r rs o' where m: "merge_round regs ret ov = (r, rs, o')" by (metis prod_cases3)
    have "length rs \<noteq> 0" using merge_round_length [of regs ret ov] True m by simp
    moreover have "merge_all rs r o' = (ret', regs', ov')"
      using "1.prems"(3) True m by (subst (asm) merge_all.simps) simp
    ultimately show ?thesis
      using "1.IH" [OF True m [symmetric] refl] merge_round_spec [OF "1.prems"(1) m] by auto
  next
    case False
    with "1.prems"(2) obtain x where "regs = [x]" by (cases regs) auto
    with "1.prems" show ?thesis by (auto simp: merge_all.simps union_pts_def)
  qed
qed

lemma miRegionValidate_aux:
  assumes "rdata badreg = Rects bs" "bs \<noteq> []" "\<forall>b \<in> set bs. nonempty b"
    "bx2 (extents badreg) \<le> bx1 (extents badreg)"
  shows "\<exists>reg ov. miRegionValidate badreg = Some (True, reg, ov) \<and> region_wf reg \<and>
    region_pts reg = pts bs"
proof -
  obtain s where s: "QuickSortRects bs = Some s" "mset s = mset bs"
    "sorted_wrt (\<lambda>a b. \<not> rect_lt b a) s"
    using QuickSortRects_sorts_aux [OF assms(2)] by blast
  have set: "set s = set bs" using s(2) mset_eq_setD by blast
  with assms(2) obtain box boxes where c: "s = box # boxes" by (cases s) auto
  let ?ri = "\<lparr>ri_ext = box, ri_rects = [box], ri_prevBand = 0, ri_curBand = 0\<rparr>"
  obtain ris ov where sc: "scatter boxes [?ri] False = (ris, ov)" by fastforce
  obtain ret regs ov' where m: "merge_all (map finish_info ris) True ov = (ret, regs, ov')"
    by (metis prod_cases3)
  have ne: "\<forall>b \<in> set s. nonempty b" using set assms(3) by simp
  have "(\<forall>rit \<in> set ris. ri_wf rit) \<and> all_pts ris = all_pts [?ri] \<union> pts boxes \<and> ris \<noteq> []"
    by (rule scatter_spec [OF _ _ _ _ _ sc])
       (use s(3) ne in \<open>auto simp: c not_after_def intro: ri_wf_new\<close>)
  moreover from this have "\<forall>r \<in> set (map finish_info ris). full r"
    using finish_info_wf by (auto simp: full_def)
  ultimately have "ret \<and> full (hd regs) \<and> region_pts (hd regs) = pts s"
    using merge_all_spec [OF _ _ m] finish_info_wf(2)
    by (auto simp: c union_pts_def all_pts_def pts_Cons)
  moreover have "pts s = pts bs" using set by (simp add: pts_def)
  moreover have "miRegionValidate badreg = Some (ret, hd regs, ov')"
    using assms s(1) c sc m by (simp add: miRegionValidate_def REGION_RECTS_def Let_def)
  ultimately show ?thesis by (auto simp: full_def)
qed

text \<open>
  C5. Validation: whatever nonempty rectangles are collected in a region whose extents are
  marked invalid, \<open>miRegionValidate\<close> returns a well-formed region with exactly their pixels;
  in particular its sort never reads outside the array.
\<close>

theorem miRegionValidate_correct:
  assumes "rdata badreg = Rects bs" "bs \<noteq> []" "\<forall>b \<in> set bs. nonempty b"
    "bx2 (extents badreg) \<le> bx1 (extents badreg)"
  shows "\<exists>reg ov. miRegionValidate badreg = Some (True, reg, ov) \<and> region_wf reg \<and>
    region_pts reg = pts bs"
  by (rule miRegionValidate_aux [OF assms])

theorem miRegionValidate_correct_witness:
  "\<exists>reg ov. miRegionValidate \<lparr>extents = Box 0 0 0 0, rdata = Rects [Box 3 1 9 4, Box 0 0 5 2]\<rparr> =
     Some (True, reg, ov) \<and> region_wf reg \<and> region_pts reg = pts [Box 3 1 9 4, Box 0 0 5 2]"
  by (rule miRegionValidate_correct) (simp_all add: nonempty_def)

subsection \<open>Regions from protocol rectangles\<close>

text \<open>Positions are \<open>INT16\<close>, sizes \<open>CARD16\<close> values.\<close>

record xRectangle =
  rx :: int
  ry :: int
  rwidth :: int
  rheight :: int

definition MAXSHORT :: int where "MAXSHORT = 32767"
definition MINSHORT :: int where "MINSHORT = -32768"

definition rect_box :: "xRectangle \<Rightarrow> BoxRec list" where
  "rect_box r =
     (let x1 = rx r; y1 = ry r;
          x2 = (if x1 + rwidth r > MAXSHORT then MAXSHORT else x1 + rwidth r);
          y2 = (if y1 + rheight r > MAXSHORT then MAXSHORT else y1 + rheight r)
      in if x1 \<noteq> x2 \<and> y1 \<noteq> y2 then [Box x1 y1 x2 y2] else [])"

definition miRectsToRegion :: "xRectangle list \<Rightarrow> bool \<Rightarrow> RegionRec option" where
  "miRectsToRegion prect yxbanded =
     (let pRgn = miRegionCreate None 0
      in case prect of
           [] \<Rightarrow> Some pRgn
         | [r] \<Rightarrow> Some (case rect_box r of [] \<Rightarrow> pRgn | b # _ \<Rightarrow> pRgn\<lparr>extents := b, rdata := SingleRect\<rparr>)
         | _ \<Rightarrow>
             (let boxes = concat (map rect_box prect)
              in if boxes = [] then Some pRgn
                 else if \<not> yxbanded
                 then (case miRegionValidate (pRgn\<lparr>extents := (extents pRgn)\<lparr>bx1 := 0, bx2 := 0\<rparr>,
                                                    rdata := Rects boxes\<rparr>) of
                         None \<Rightarrow> None
                       | Some (ret, reg, ov) \<Rightarrow> Some reg)
                 else Some (miSetExtents (pRgn\<lparr>rdata := Rects boxes\<rparr>))))"

definition valid_xrect :: "xRectangle \<Rightarrow> bool" where
  "valid_xrect r \<longleftrightarrow> MINSHORT \<le> rx r \<and> rx r \<le> MAXSHORT \<and> MINSHORT \<le> ry r \<and> ry r \<le> MAXSHORT \<and>
     0 \<le> rwidth r \<and> rwidth r \<le> 65535 \<and> 0 \<le> rheight r \<and> rheight r \<le> 65535"

definition xrect_pts :: "xRectangle \<Rightarrow> (int \<times> int) set" where
  "xrect_pts r = {(x, y). rx r \<le> x \<and> x < rx r + rwidth r \<and> x < MAXSHORT \<and>
     ry r \<le> y \<and> y < ry r + rheight r \<and> y < MAXSHORT}"

lemma rect_box_spec:
  "valid_xrect r \<Longrightarrow> (\<forall>b \<in> set (rect_box r). nonempty b) \<and> pts (rect_box r) = xrect_pts r"
  by (auto simp: valid_xrect_def rect_box_def xrect_pts_def Let_def nonempty_def pts_Cons INBOX_def)

lemma rect_boxes_spec:
  "\<forall>r \<in> set rs. valid_xrect r \<Longrightarrow>
   (\<forall>b \<in> set (concat (map rect_box rs)). nonempty b) \<and>
   pts (concat (map rect_box rs)) = (\<Union>r \<in> set rs. xrect_pts r)"
proof (induction rs)
  case (Cons r rs)
  then show ?case using rect_box_spec [of r] by auto
qed simp

text \<open>
  Rectangles of a request: for any list of protocol rectangles, in any order and
  overlapping or empty, \<open>miRectsToRegion\<close> without the banding hint returns a well-formed region
  that holds exactly their pixels, cut at the largest coordinate.
\<close>

theorem miRectsToRegion_correct:
  assumes "\<forall>r \<in> set rs. valid_xrect r"
  shows "\<exists>reg. miRectsToRegion rs False = Some reg \<and> region_wf reg \<and>
    region_pts reg = (\<Union>r \<in> set rs. xrect_pts r)"
proof -
  have empty: "region_wf (miRegionCreate None 0)" "region_pts (miRegionCreate None 0) = {}"
    by (simp_all add: miRegionCreate_def region_wf_def miEmptyBox_def)
  consider "rs = []" | r where "rs = [r]" | "length rs > 1"
    by (cases rs rule: remdups_adj.cases) auto
  then show ?thesis
  proof cases
    case 1
    with empty show ?thesis by (simp add: miRectsToRegion_def)
  next
    case (2 r)
    with assms have b: "\<forall>b \<in> set (rect_box r). nonempty b" "pts (rect_box r) = xrect_pts r"
      using rect_box_spec [of r] by simp_all
    have "rect_box r = [] \<or> (\<exists>b. rect_box r = [b])" by (auto simp: rect_box_def Let_def)
    then show ?thesis
    proof (elim disjE exE)
      assume "rect_box r = []"
      with b empty 2 show ?thesis by (simp add: miRectsToRegion_def)
    next
      fix b assume "rect_box r = [b]"
      with b 2 show ?thesis by (auto simp: miRectsToRegion_def region_wf_def pts_Cons)
    qed
  next
    case 3
    let ?boxes = "concat (map rect_box rs)"
    note b = rect_boxes_spec [OF assms]
    have rs: "miRectsToRegion rs False = (if ?boxes = [] then Some (miRegionCreate None 0)
        else case miRegionValidate ((miRegionCreate None 0)\<lparr>extents :=
            (extents (miRegionCreate None 0))\<lparr>bx1 := 0, bx2 := 0\<rparr>, rdata := Rects ?boxes\<rparr>) of
          None \<Rightarrow> None | Some (ret, reg, ov) \<Rightarrow> Some reg)"
      using 3 by (auto simp: miRectsToRegion_def Let_def split: list.splits)
    show ?thesis
    proof (cases "?boxes = []")
      case True
      with b empty rs show ?thesis by (auto simp: pts_def)
    next
      case False
      with miRegionValidate_aux [OF _ False, of "(miRegionCreate None 0)\<lparr>extents :=
            (extents (miRegionCreate None 0))\<lparr>bx1 := 0, bx2 := 0\<rparr>, rdata := Rects ?boxes\<rparr>"] b rs
      show ?thesis by auto
    qed
  qed
qed

theorem miRectsToRegion_correct_witness:
  "\<exists>reg. miRectsToRegion [\<lparr>rx = 3, ry = 1, rwidth = 6, rheight = 3\<rparr>,
       \<lparr>rx = 0, ry = 0, rwidth = 5, rheight = 2\<rparr>, \<lparr>rx = 7, ry = 0, rwidth = 0, rheight = 2\<rparr>] False =
     Some reg \<and> region_wf reg \<and>
   region_pts reg = xrect_pts \<lparr>rx = 3, ry = 1, rwidth = 6, rheight = 3\<rparr> \<union>
     (xrect_pts \<lparr>rx = 0, ry = 0, rwidth = 5, rheight = 2\<rparr> \<union>
      xrect_pts \<lparr>rx = 7, ry = 0, rwidth = 0, rheight = 2\<rparr>)"
  using miRectsToRegion_correct [of "[\<lparr>rx = 3, ry = 1, rwidth = 6, rheight = 3\<rparr>,
       \<lparr>rx = 0, ry = 0, rwidth = 5, rheight = 2\<rparr>, \<lparr>rx = 7, ry = 0, rwidth = 0, rheight = 2\<rparr>]"]
  by (simp add: valid_xrect_def MAXSHORT_def MINSHORT_def)

text \<open>
  With the banding hint (\<open>CT_YXBANDED\<close>) and one nonempty rectangle among several empty ones,
  \<open>miRectsToRegion\<close> returns an array of one box, a form \<open>miValidRegion\<close> rejects.
\<close>

theorem miRectsToRegion_banded_single_box:
  "\<exists>reg b. miRectsToRegion [\<lparr>rx = 0, ry = 0, rwidth = 5, rheight = 2\<rparr>,
       \<lparr>rx = 0, ry = 2, rwidth = 0, rheight = 2\<rparr>] True = Some reg \<and>
     rdata reg = Rects [b] \<and> \<not> region_wf reg"
  by (simp add: miRectsToRegion_def Let_def rect_box_def MAXSHORT_def miSetExtents_def region_wf_def)

end
