(* ===== verification/RegionClip.thy ===== *)
theory RegionClip
  imports RegionValidate
begin

text \<open>
  Moving a region and clipping scanlines to it: \<open>miTranslateRegion\<close>, \<open>QuickSortSpans\<close>,
  \<open>miClipSpans\<close>, \<open>miFindMaxBand\<close> and \<open>miRegionDataCopy\<close> of
  \<^verbatim>\<open>programs/Xserver/mi/miregion.c\<close>. Coordinates stored in a box are cut to 16 bits.
\<close>

subsection \<open>Translation\<close>

definition to_short :: "int \<Rightarrow> int" where
  "to_short n = (n + 32768) mod 65536 - 32768"

text \<open>The two tests, written with the bitwise or of the code.\<close>

definition all_inside :: "int \<Rightarrow> int \<Rightarrow> int \<Rightarrow> int \<Rightarrow> bool" where
  "all_inside x1 y1 x2 y2 \<longleftrightarrow>
     ((x1 - MINSHORT) OR (y1 - MINSHORT) OR (MAXSHORT - x2) OR (MAXSHORT - y2)) \<ge> 0"

definition all_outside :: "int \<Rightarrow> int \<Rightarrow> int \<Rightarrow> int \<Rightarrow> bool" where
  "all_outside x1 y1 x2 y2 \<longleftrightarrow>
     ((x2 - MINSHORT) OR (y2 - MINSHORT) OR (MAXSHORT - x1) OR (MAXSHORT - y1)) \<le> 0"

definition clip_short :: "int \<Rightarrow> int \<Rightarrow> int \<Rightarrow> int \<Rightarrow> BoxRec" where
  "clip_short x1 y1 x2 y2 =
     Box (if x1 < MINSHORT then MINSHORT else to_short x1)
         (if y1 < MINSHORT then MINSHORT else to_short y1)
         (if x1 < MINSHORT then to_short x2 else if x2 > MAXSHORT then MAXSHORT else to_short x2)
         (if y1 < MINSHORT then to_short y2 else if y2 > MAXSHORT then MAXSHORT else to_short y2)"

fun translate_clip :: "BoxRec list \<Rightarrow> int \<Rightarrow> int \<Rightarrow> BoxRec list" where
  "translate_clip [] x y = []"
| "translate_clip (b # bs) x y =
     (let x1 = bx1 b + x; y1 = by1 b + y; x2 = bx2 b + x; y2 = by2 b + y
      in if all_outside x1 y1 x2 y2 then translate_clip bs x y
         else clip_short x1 y1 x2 y2 # translate_clip bs x y)"

definition miTranslateRegion :: "RegionRec \<Rightarrow> int \<Rightarrow> int \<Rightarrow> RegionRec" where
  "miTranslateRegion reg x y =
     (let e = extents reg;
          x1 = bx1 e + x; y1 = by1 e + y; x2 = bx2 e + x; y2 = by2 e + y
      in if all_inside x1 y1 x2 y2
         then reg\<lparr>extents := Box (to_short x1) (to_short y1) (to_short x2) (to_short y2),
                  rdata := (case rdata reg of
                      Rects bs \<Rightarrow> Rects (map (\<lambda>b. Box (to_short (bx1 b + x)) (to_short (by1 b + y))
                                                   (to_short (bx2 b + x)) (to_short (by2 b + y))) bs)
                    | d \<Rightarrow> d)\<rparr>
         else if all_outside x1 y1 x2 y2
         then reg\<lparr>extents := Box (to_short x1) (to_short y1) (to_short x1) (to_short y1),
                  rdata := EmptyData\<rparr>
         else
           (let reg1 = reg\<lparr>extents := clip_short x1 y1 x2 y2\<rparr>
            in case rdata reg of
                 Rects bs \<Rightarrow>
                   (let bs' = translate_clip bs x y; reg2 = reg1\<lparr>rdata := Rects bs'\<rparr>
                    in if length bs' = length bs then reg2
                       else if length bs' = 1
                       then reg2\<lparr>extents := hd bs', rdata := SingleRect\<rparr>
                       else miSetExtents reg2)
               | _ \<Rightarrow> reg1))"

lemma to_short_id [simp]: "MINSHORT \<le> n \<Longrightarrow> n \<le> MAXSHORT \<Longrightarrow> to_short n = n"
  by (simp add: to_short_def MINSHORT_def MAXSHORT_def)

lemma all_inside_iff:
  "all_inside x1 y1 x2 y2 \<longleftrightarrow> MINSHORT \<le> x1 \<and> MINSHORT \<le> y1 \<and> x2 \<le> MAXSHORT \<and> y2 \<le> MAXSHORT"
  by (simp add: all_inside_def)

lemma all_outside_iff:
  "all_outside x1 y1 x2 y2 \<longleftrightarrow>
     x2 < MINSHORT \<or> y2 < MINSHORT \<or> MAXSHORT < x1 \<or> MAXSHORT < y1 \<or>
     x2 = MINSHORT \<and> y2 = MINSHORT \<and> MAXSHORT = x1 \<and> MAXSHORT = y1"
  unfolding all_outside_def le_less by (auto simp: or_eq_0_iff)

text \<open>A box whose coordinates are values of a \<open>short\<close>.\<close>

definition short_box :: "BoxRec \<Rightarrow> bool" where
  "short_box b \<longleftrightarrow> MINSHORT \<le> bx1 b \<and> bx2 b \<le> MAXSHORT \<and> MINSHORT \<le> by1 b \<and> by2 b \<le> MAXSHORT \<and>
     bx1 b \<le> bx2 b \<and> by1 b \<le> by2 b"

definition shift_clip :: "(int \<times> int) set \<Rightarrow> int \<Rightarrow> int \<Rightarrow> (int \<times> int) set" where
  "shift_clip S x y = {(p, q). (p - x, q - y) \<in> S \<and>
     MINSHORT \<le> p \<and> p < MAXSHORT \<and> MINSHORT \<le> q \<and> q < MAXSHORT}"

lemma clip_short_pts:
  assumes "short_box b" "\<not> all_outside (bx1 b + x) (by1 b + y) (bx2 b + x) (by2 b + y)"
  shows "box_pts (clip_short (bx1 b + x) (by1 b + y) (bx2 b + x) (by2 b + y)) = shift_clip (box_pts b) x y"
proof -
  have c: "(if bx1 b + x < MINSHORT then MINSHORT else to_short (bx1 b + x)) = max MINSHORT (bx1 b + x)"
    "(if by1 b + y < MINSHORT then MINSHORT else to_short (by1 b + y)) = max MINSHORT (by1 b + y)"
    "(if bx1 b + x < MINSHORT then to_short (bx2 b + x)
      else if bx2 b + x > MAXSHORT then MAXSHORT else to_short (bx2 b + x)) = min MAXSHORT (bx2 b + x)"
    "(if by1 b + y < MINSHORT then to_short (by2 b + y)
      else if by2 b + y > MAXSHORT then MAXSHORT else to_short (by2 b + y)) = min MAXSHORT (by2 b + y)"
    using assms by (auto simp: short_box_def all_outside_iff MINSHORT_def MAXSHORT_def to_short_def)
  show ?thesis
    unfolding clip_short_def c by (auto simp: box_pts_def INBOX_def shift_clip_def)
qed

lemma outside_pts:
  "short_box b \<Longrightarrow> all_outside (bx1 b + x) (by1 b + y) (bx2 b + x) (by2 b + y) \<Longrightarrow>
   shift_clip (box_pts b) x y = {}"
  by (auto simp: all_outside_iff box_pts_def INBOX_def shift_clip_def)

lemma shift_clip_simps [simp]:
  "shift_clip {} x y = {}"
  "shift_clip (S \<union> T) x y = shift_clip S x y \<union> shift_clip T x y"
  by (auto simp: shift_clip_def)

lemma pts_Cons_box: "pts (b # bs) = box_pts b \<union> pts bs"
  by (simp add: pts_Cons box_pts_def)

lemma translate_clip_pts:
  "\<forall>b \<in> set bs. short_box b \<Longrightarrow> pts (translate_clip bs x y) = shift_clip (pts bs) x y"
  by (induction bs) (auto simp: pts_Cons_box Let_def clip_short_pts outside_pts)

lemma translate_inside_pts:
  assumes "\<forall>b \<in> set bs. SUBSUMES e b" "all_inside (bx1 e + x) (by1 e + y) (bx2 e + x) (by2 e + y)"
    "\<forall>b \<in> set bs. short_box b"
  shows "pts (map (\<lambda>b. Box (to_short (bx1 b + x)) (to_short (by1 b + y))
      (to_short (bx2 b + x)) (to_short (by2 b + y))) bs) = shift_clip (pts bs) x y"
  using assms
proof (induction bs)
  case (Cons b bs)
  have "MINSHORT \<le> bx1 b + x" "bx2 b + x \<le> MAXSHORT" "MINSHORT \<le> by1 b + y" "by2 b + y \<le> MAXSHORT"
    "bx1 b \<le> bx2 b" "by1 b \<le> by2 b"
    using Cons.prems by (auto simp: all_inside_iff SUBSUMES_def short_box_def)
  then have "box_pts (Box (to_short (bx1 b + x)) (to_short (by1 b + y))
      (to_short (bx2 b + x)) (to_short (by2 b + y))) = shift_clip (box_pts b) x y"
    by (auto simp: box_pts_def INBOX_def shift_clip_def)
  with Cons show ?case by (simp add: pts_Cons_box)
qed simp

text \<open>
  C40. Translation: a region with 16-bit coordinates whose extents hold its boxes is moved pixel
  by pixel; the pixels that leave the coordinate range are dropped and no other.
\<close>

theorem miTranslateRegion_pixels:
  assumes "short_box (extents reg)" "\<forall>b \<in> set (REGION_RECTS reg). short_box b \<and> SUBSUMES (extents reg) b"
  shows "region_pts (miTranslateRegion reg x y) = shift_clip (region_pts reg) x y"
proof -
  let ?e = "extents reg"
  let ?x1 = "bx1 ?e + x" and ?y1 = "by1 ?e + y" and ?x2 = "bx2 ?e + x" and ?y2 = "by2 ?e + y"
  have single: "region_pts reg = box_pts ?e" if "rdata reg = SingleRect"
    using that by (simp add: box_pts_def)
  consider (inside) "all_inside ?x1 ?y1 ?x2 ?y2"
    | (outside) "\<not> all_inside ?x1 ?y1 ?x2 ?y2" "all_outside ?x1 ?y1 ?x2 ?y2"
    | (part) "\<not> all_inside ?x1 ?y1 ?x2 ?y2" "\<not> all_outside ?x1 ?y1 ?x2 ?y2"
    by blast
  then show ?thesis
  proof cases
    case inside
    show ?thesis
    proof (cases "rdata reg")
      case (Rects bs)
      with assms(2) translate_inside_pts [OF _ inside] inside show ?thesis
        by (simp add: miTranslateRegion_def REGION_RECTS_def Let_def)
    next
      case SingleRect
      with translate_inside_pts [of "[?e]", OF _ inside] inside assms(1) single show ?thesis
        by (simp add: miTranslateRegion_def pts_Cons_box SUBSUMES_def box_pts_def Let_def)
    qed (use inside in \<open>simp_all add: miTranslateRegion_def Let_def\<close>)
  next
    case outside
    have "region_pts reg \<subseteq> box_pts ?e"
      using assms(2) SUBSUMES_INBOX by (auto simp: region_pts_def pts_def box_pts_def)
    then have "shift_clip (region_pts reg) x y \<subseteq> shift_clip (box_pts ?e) x y"
      by (auto simp: shift_clip_def)
    with outside_pts [OF assms(1) outside(2)] outside show ?thesis
      by (simp add: miTranslateRegion_def Let_def)
  next
    case part
    show ?thesis
    proof (cases "rdata reg")
      case (Rects bs)
      then have "pts (translate_clip bs x y) = shift_clip (region_pts reg) x y"
        using translate_clip_pts assms(2) by (simp add: REGION_RECTS_def)
      moreover have "pts [hd bs'] = pts bs'" if "length bs' = 1" for bs'
        using that by (cases bs') auto
      ultimately show ?thesis
        using part Rects by (simp add: miTranslateRegion_def Let_def miSetExtents_def pts_Cons)
    next
      case SingleRect
      with part clip_short_pts [OF assms(1) part(2)] single show ?thesis
        by (simp add: miTranslateRegion_def Let_def box_pts_def)
    qed (use part in \<open>simp_all add: miTranslateRegion_def Let_def\<close>)
  qed
qed

theorem miTranslateRegion_pixels_witness:
  "region_pts (miTranslateRegion region_example 32765 0) = shift_clip (region_pts region_example) 32765 0"
  by (rule miTranslateRegion_pixels)
     (auto simp: region_example_def REGION_RECTS_def short_box_def SUBSUMES_def MINSHORT_def MAXSHORT_def)

text \<open>
  A one-box region moved so that its right edge falls exactly on the smallest coordinate has
  no pixel left, but stays a one-box region: it is not reported as empty.
\<close>

theorem miTranslateRegion_edge_not_nil:
  "let reg = miTranslateRegion \<lparr>extents = Box 0 0 10 10, rdata = SingleRect\<rparr> (-32778) 0
   in region_pts reg = {} \<and> miRegionNotEmpty reg \<and> \<not> region_wf reg"
proof -
  have "miTranslateRegion \<lparr>extents = Box 0 0 10 10, rdata = SingleRect\<rparr> (-32778) 0 =
      \<lparr>extents = Box (-32768) 0 (-32768) 10, rdata = SingleRect\<rparr>"
    by (simp add: miTranslateRegion_def Let_def all_inside_iff all_outside_iff clip_short_def
        MINSHORT_def MAXSHORT_def to_short_def)
  then show ?thesis
    by (simp add: miRegionNotEmpty_def REGION_NIL_def region_wf_def nonempty_def INBOX_def)
qed

text \<open>
  When every box leaves the range although the extents do not, the array is left allocated
  and empty when \<open>miSetExtents\<close> is called, which then reads boxes that are not there.
\<close>

theorem miTranslateRegion_drops_all_boxes:
  "let reg = \<lparr>extents = Box 0 0 20 20, rdata = Rects [Box 10 0 20 5, Box 0 10 5 20]\<rparr>
   in banded (REGION_RECTS reg) \<and> tight (extents reg) (region_pts reg) \<and>
      translate_clip (REGION_RECTS reg) 32758 32758 = [] \<and>
      rdata (miTranslateRegion reg 32758 32758) = Rects []"
proof -
  let ?bs = "[Box 10 0 20 5, Box 0 10 5 20]"
  have "(10, 0) \<in> pts ?bs" "(19, 0) \<in> pts ?bs" "(0, 10) \<in> pts ?bs" "(0, 19) \<in> pts ?bs"
    by (simp_all add: pts_Cons INBOX_def)
  then have "\<exists>y. (0, y) \<in> pts ?bs" "\<exists>y. (19, y) \<in> pts ?bs" "\<exists>x. (x, 0) \<in> pts ?bs" "\<exists>x. (x, 19) \<in> pts ?bs"
    by blast+
  moreover have "\<forall>(x, y) \<in> pts ?bs. INBOX (Box 0 0 20 20) x y"
    by (auto simp: pts_Cons INBOX_def)
  ultimately have "tight (Box 0 0 20 20) (pts ?bs)" by (simp add: tight_def)
  then show ?thesis
    by (simp add: REGION_RECTS_def nonempty_def before_def miTranslateRegion_def Let_def
        all_inside_iff all_outside_iff MINSHORT_def MAXSHORT_def miSetExtents_def)
qed

subsection \<open>Sorting scanlines\<close>

text \<open>The parallel arrays of points and widths are one list of spans.\<close>

record span =
  sx :: int
  sy :: int
  swidth :: int

definition span_lt :: "span \<Rightarrow> span \<Rightarrow> bool" where
  "span_lt a b \<longleftrightarrow> sy a < sy b"

interpretation span_order: sort_order span_lt
  by unfold_locales (auto simp: span_lt_def)

text \<open>One round of the insertion sort used below nine spans.\<close>

definition insertion_step :: "nat \<Rightarrow> span list \<Rightarrow> span list" where
  "insertion_step i sps =
     (if sy (sps ! (i - 1)) > sy (sps ! i)
      then (let j = length (takeWhile (\<lambda>s. sy (sps ! i) \<ge> sy s) sps)
            in take j sps @ (sps ! i) # drop j (take i sps) @ drop (i + 1) sps)
      else sps)"

definition median_first :: "span list \<Rightarrow> span list" where
  "median_first sps =
     (let n = length sps; m = n div 2;
          s1 = (if sy (sps ! m) > sy (sps ! 0) then exchange sps m 0 else sps);
          s2 = (if sy (s1 ! m) > sy (s1 ! (n - 1)) then exchange s1 m (n - 1) else s1)
      in if sy (s2 ! m) > sy (s2 ! 0) then exchange s2 m 0 else s2)"

lemma median_first_mset: "sps \<noteq> [] \<Longrightarrow> mset (median_first sps) = mset sps"
proof -
  assume "sps \<noteq> []"
  then have "0 < length sps" by simp
  moreover from this have "length sps div 2 < length sps" "length sps - 1 < length sps" by simp_all
  ultimately show ?thesis by (auto simp: median_first_def Let_def)
qed

lemma median_first_length [simp]: "length (median_first sps) = length sps"
  by (simp add: median_first_def Let_def)

function QuickSortSpans :: "span list \<Rightarrow> span list option" where
  "QuickSortSpans sps =
     (let numSpans = length sps
      in if numSpans < 9 then Some (fold insertion_step [1..<numSpans] sps)
         else
           (let spans1 = median_first sps
            in case partition_loop span_lt (spans1 ! 0) spans1 0 numSpans of
                 None \<Rightarrow> None
               | Some (spans2, j) \<Rightarrow>
                   (let spans3 = exchange spans2 0 j;
                        hi = (if numSpans - j - 1 > 1 then QuickSortSpans (drop (j + 1) spans3)
                              else Some (drop (j + 1) spans3));
                        lo = (if j > 1 then QuickSortSpans (take j spans3)
                              else Some (take j spans3))
                    in case (lo, hi) of
                         (Some l, Some h) \<Rightarrow> Some (l @ (spans3 ! j) # h)
                       | _ \<Rightarrow> None)))"
  by pat_completeness auto
termination
  by (relation "measure length") (auto dest!: partition_loop_less)

declare QuickSortSpans.simps [simp del]

text \<open>The insertion step extends the sorted prefix by one.\<close>

lemma insertion_step_spec:
  assumes "0 < i" "i < length sps" "sorted (map sy (take i sps))"
  shows "mset (insertion_step i sps) = mset sps" "length (insertion_step i sps) = length sps"
    "sorted (map sy (take (i + 1) (insertion_step i sps)))"
proof -
  let ?P = "\<lambda>s. sy (sps ! i) \<ge> sy s"
  have all: "sps = take i sps @ (sps ! i) # drop (i + 1) sps"
    using assms(2) by (simp add: id_take_nth_drop)
  have ne: "take i sps \<noteq> []" using assms(1,2) by auto
  then have last: "take i sps \<noteq> []" "last (take i sps) = sps ! (i - 1)"
    using assms(1,2) by (simp_all add: last_conv_nth [OF ne] min_def)
  have "mset (insertion_step i sps) = mset sps \<and> length (insertion_step i sps) = length sps \<and>
    sorted (map sy (take (i + 1) (insertion_step i sps)))"
  proof (cases "sy (sps ! (i - 1)) > sy (sps ! i)")
    case True
    define pre where "pre = take i sps"
    have "\<exists>s \<in> set pre. \<not> ?P s"
      using True last last_in_set [OF last(1)] by (auto simp: pre_def not_le intro!: bexI [of _ "sps ! (i - 1)"])
    then have tw: "takeWhile ?P sps = takeWhile ?P pre"
      using takeWhile_append1 [of _ pre ?P "drop i sps"] by (auto simp: pre_def)
    let ?j = "length (takeWhile ?P pre)"
    have j: "?j \<le> i" using length_takeWhile_le [of ?P pre] assms(2) by (simp add: pre_def)
    have tk: "take ?j sps = takeWhile ?P pre" "drop ?j (take i sps) = dropWhile ?P pre"
    proof -
      have "take ?j sps = take ?j pre" using j by (simp add: pre_def min_def)
      then show "take ?j sps = takeWhile ?P pre" by (metis takeWhile_eq_take)
      show "drop ?j (take i sps) = dropWhile ?P pre" by (metis dropWhile_eq_drop pre_def)
    qed
    have eq: "insertion_step i sps = takeWhile ?P pre @ (sps ! i) # dropWhile ?P pre @ drop (i + 1) sps"
      using True by (simp add: insertion_step_def Let_def tw tk)
    have "mset sps = mset pre + mset ((sps ! i) # drop (i + 1) sps)"
      using arg_cong [OF all, of mset] by (simp add: pre_def)
    moreover have "mset (takeWhile ?P pre) + mset (dropWhile ?P pre) = mset pre"
      by (metis mset_append takeWhile_dropWhile_id)
    ultimately have ms: "mset (insertion_step i sps) = mset sps"
      unfolding eq by (simp flip: add.assoc)
    have len: "length (takeWhile ?P pre @ (sps ! i) # dropWhile ?P pre) = i + 1"
    proof -
      have "length (takeWhile ?P pre) + length (dropWhile ?P pre) = length pre"
        by (metis length_append takeWhile_dropWhile_id)
      then show ?thesis using assms(2) by (simp add: pre_def)
    qed
    have "(takeWhile ?P pre @ (sps ! i) # dropWhile ?P pre) @ drop (i + 1) sps = insertion_step i sps"
      by (simp add: eq)
    then have "takeWhile ?P pre @ (sps ! i) # dropWhile ?P pre =
        take (length (takeWhile ?P pre @ (sps ! i) # dropWhile ?P pre)) (insertion_step i sps)"
      by (simp only: append_eq_conv_conj)
    then have tki: "take (i + 1) (insertion_step i sps) = takeWhile ?P pre @ (sps ! i) # dropWhile ?P pre"
      by (simp only: len)
    have "sorted (map sy (takeWhile ?P pre) @ map sy (dropWhile ?P pre))"
      using assms(3) by (simp add: pre_def flip: map_append)
    then have A: "sorted (map sy (takeWhile ?P pre))" and B: "sorted (map sy (dropWhile ?P pre))"
      by (simp_all only: sorted_append)
    have lo: "\<forall>a \<in> set (takeWhile ?P pre). sy a \<le> sy (sps ! i)"
      by (auto dest: set_takeWhileD)
    have hi: "\<forall>a \<in> set (dropWhile ?P pre). sy (sps ! i) \<le> sy a"
    proof (cases "dropWhile ?P pre")
      case (Cons d ds)
      from dropWhile_ConsD [OF this] have "\<not> ?P d" by simp
      with B show ?thesis unfolding Cons by auto
    next
      case Nil
      show ?thesis unfolding Nil by simp
    qed
    have "sorted (map sy (take (i + 1) (insertion_step i sps)))"
      unfolding tki map_append list.map sorted_append using A B lo hi by fastforce
    with ms show ?thesis using mset_eq_length by blast
  next
    case False
    then have "insertion_step i sps = sps" by (simp add: insertion_step_def)
    moreover have "sorted (map sy (take i sps @ [sps ! i]))"
    proof -
      have "\<forall>a \<in> set (take i sps). sy a \<le> sy (last (take i sps))"
      proof -
        have "take i sps = butlast (take i sps) @ [last (take i sps)]" using last(1) by simp
        then have "sorted (map sy (butlast (take i sps)) @ [sy (last (take i sps))])"
          using assms(3) by (metis list.map(1) list.map(2) map_append)
        then have "\<forall>a \<in> set (butlast (take i sps)). sy a \<le> sy (last (take i sps))"
          by (simp add: sorted_append)
        then show ?thesis using last(1)
          by (metis append_butlast_last_id insert_iff
              list.simps(15) order_refl rotate1.simps(2) set_rotate1)
      qed
      with assms(3) False last(2) show ?thesis by (fastforce simp: sorted_append)
    qed
    ultimately show ?thesis using assms(2) by (simp add: take_Suc_conv_app_nth)
  qed
  then show "mset (insertion_step i sps) = mset sps" "length (insertion_step i sps) = length sps"
    "sorted (map sy (take (i + 1) (insertion_step i sps)))" by blast+
qed

lemma insertion_sort_spec:
  assumes "sps \<noteq> []" "n \<le> length sps" "1 \<le> n"
  shows "mset (fold insertion_step [1..<n] sps) = mset sps \<and>
    length (fold insertion_step [1..<n] sps) = length sps \<and>
    sorted (map sy (take n (fold insertion_step [1..<n] sps)))"
  using assms(2,3)
proof (induction n)
  case (Suc n)
  show ?case
  proof (cases "n = 0")
    case True
    then show ?thesis using assms(1) by (cases sps) auto
  next
    case False
    let ?s = "fold insertion_step [1..<n] sps"
    have IH: "mset ?s = mset sps" "length ?s = length sps" "sorted (map sy (take n ?s))"
      using Suc False by auto
    have "fold insertion_step [1..<Suc n] sps = insertion_step n ?s"
      using False by (simp add: upt_Suc_append)
    with insertion_step_spec [of n ?s] IH False Suc.prems show ?thesis by simp
  qed
qed simp

lemma ordered_span_iff: "span_order.ordered xs \<longleftrightarrow> sorted (map sy xs)"
  by (simp add: span_lt_def sorted_map not_less)

lemma QuickSortSpans_sorts_aux:
  "sps \<noteq> [] \<Longrightarrow>
   \<exists>s. QuickSortSpans sps = Some s \<and> mset s = mset sps \<and> sorted (map sy s)"
proof (induction sps rule: length_induct)
  case (1 sps)
  let ?n = "length sps"
  show ?case
  proof (cases "?n < 9")
    case True
    have "1 \<le> ?n" using "1.prems" by (simp add: Suc_le_eq)
    from insertion_sort_spec [OF "1.prems" order_refl this] True show ?thesis
      by (subst QuickSortSpans.simps) (auto simp: Let_def)
  next
    case False
    let ?r1 = "median_first sps"
    have len1: "length ?r1 = ?n" and ms1: "mset ?r1 = mset sps"
      using median_first_mset "1.prems" by simp_all
    then have ne1: "?r1 \<noteq> []" using "1.prems" by (metis length_0_conv)
    obtain r2 j where part: "partition_loop span_lt (?r1 ! 0) ?r1 0 ?n = Some (r2, j)" "j < ?n"
      "length r2 = ?n" "mset (exchange r2 0 j) = mset ?r1"
      "\<forall>a \<in> set (take j (exchange r2 0 j)). \<not> span_lt (exchange r2 0 j ! j) a"
      "\<forall>a \<in> set (drop (j + 1) (exchange r2 0 j)). \<not> span_lt a (exchange r2 0 j ! j)"
      using span_order.partition_spec [OF ne1] unfolding len1 by blast
    define r3 where "r3 = exchange r2 0 j"
    have len3: "length r3 = ?n" by (simp add: r3_def part(3))
    have srt: "\<exists>s. (if length xs > 1 then QuickSortSpans xs else Some xs) = Some s \<and>
        mset s = mset xs \<and> span_order.ordered s" if "length xs < ?n" for xs
    proof (cases "length xs > 1")
      case True
      then have "xs \<noteq> []" by auto
      with True "1.IH" that show ?thesis by (simp add: ordered_span_iff)
    next
      case False
      then have "xs = [] \<or> (\<exists>a. xs = [a])" by (cases xs) auto
      then show ?thesis by auto
    qed
    have lt: "length (take j r3) = j" "length (take j r3) < ?n"
      "length (drop (j + 1) r3) = ?n - j - 1" "length (drop (j + 1) r3) < ?n"
      using part(2) len3 by simp_all
    from srt [OF lt(2)] obtain l where l:
      "(if j > 1 then QuickSortSpans (take j r3) else Some (take j r3)) = Some l"
      "mset l = mset (take j r3)" "span_order.ordered l"
      unfolding lt(1) by blast
    from srt [OF lt(4)] obtain h where h:
      "(if ?n - j - 1 > 1 then QuickSortSpans (drop (j + 1) r3) else Some (drop (j + 1) r3)) = Some h"
      "mset h = mset (drop (j + 1) r3)" "span_order.ordered h"
      unfolding lt(3) by blast
    have "QuickSortSpans sps = Some (l @ (r3 ! j) # h)"
      by (subst QuickSortSpans.simps)
         (simp only: Let_def False if_False part(1) option.case prod.case r3_def [symmetric] l(1) h(1))
    moreover have "mset (l @ (r3 ! j) # h) = mset sps"
    proof -
      have "mset (l @ (r3 ! j) # h) = mset (take j r3 @ (r3 ! j) # drop (Suc j) r3)"
        by (simp add: l(2) h(2))
      also have "take j r3 @ (r3 ! j) # drop (Suc j) r3 = r3"
        using part(2) len3 by (simp add: id_take_nth_drop [symmetric])
      finally show ?thesis using part(4) ms1 by (simp add: r3_def)
    qed
    moreover have "span_order.ordered (l @ (r3 ! j) # h)"
    proof (rule span_order.ordered_join [OF l(3) h(3)])
      have "set l = set (take j r3)" "set h = set (drop (j + 1) r3)"
        using l(2) h(2) mset_eq_setD by blast+
      then show "\<forall>a \<in> set l. \<not> span_lt (r3 ! j) a" "\<forall>a \<in> set h. \<not> span_lt a (r3 ! j)"
        using part(5,6) by (simp_all add: r3_def)
    qed
    ultimately show ?thesis unfolding ordered_span_iff by blast
  qed
qed

subsection \<open>Clipping scanlines\<close>

definition clip_one :: "int \<Rightarrow> int \<Rightarrow> span \<Rightarrow> span list" where
  "clip_one left right s =
     (let x1 = sx s; x2 = x1 + swidth s;
          newx1 = (if x1 < left then left else x1);
          newx2 = (if x2 > right then right else x2)
      in if newx1 < newx2 then [\<lparr>sx = newx1, sy = sy s, swidth = newx2 - newx1\<rparr>] else [])"

text \<open>
  The loop over the spans: \<open>band\<close> is the current band and \<open>rest\<close> the boxes after it. The macro
  \<open>NextBand\<close> finds a band and skips the spans above it.
\<close>

function clip_bands :: "span list \<Rightarrow> BoxRec list \<Rightarrow> BoxRec list \<Rightarrow> span list" where
  "clip_bands [] band rest = []"
| "clip_bands (s # ss) band rest =
     (if sy s < by2 (hd band)
      then concat (map (\<lambda>b. clip_one (bx1 b) (bx2 b) s) band) @ clip_bands ss band rest
      else if rest = [] then []
      else (let (band', rest') = FindBand rest
            in clip_bands (dropWhile (\<lambda>s. sy s < by1 (hd band')) (s # ss)) band' rest'))"
  by pat_completeness auto
termination
proof (relation "measures [\<lambda>(ss, band, rest). length rest, \<lambda>(ss, band, rest). length ss]", goal_cases)
  case (3 s ss band rest x band' rest')
  then have "rest' = snd (FindBand rest)" by (metis snd_conv)
  with FindBand_rest_shorter [of rest] 3 have "length rest' < length rest" by simp
  then show ?case by simp
qed auto

definition miClipSpans :: "RegionRec \<Rightarrow> span list \<Rightarrow> bool \<Rightarrow> span list option" where
  "miClipSpans prgnDst sps fSorted =
     (case rdata prgnDst of
        SingleRect \<Rightarrow>
          (let e = extents prgnDst
           in Some (concat (map (\<lambda>s. if by1 e \<le> sy s \<and> sy s < by2 e
                                     then clip_one (bx1 e) (bx2 e) s else []) sps)))
      | Rects bs \<Rightarrow>
          if bs = [] then Some []
          else (case (if \<not> fSorted \<and> length sps > 1 then QuickSortSpans sps else Some sps) of
                  None \<Rightarrow> None
                | Some ss \<Rightarrow>
                    (let (band, rest) = FindBand bs
                     in Some (clip_bands (dropWhile (\<lambda>s. sy s < by1 (hd band)) ss) band rest)))
      | _ \<Rightarrow> Some [])"

text \<open>The reference: each span is clipped by every box of its row.\<close>

definition clip_span :: "BoxRec list \<Rightarrow> span \<Rightarrow> span list" where
  "clip_span bs s = concat (map (\<lambda>b. if by1 b \<le> sy s \<and> sy s < by2 b
     then clip_one (bx1 b) (bx2 b) s else []) bs)"

lemma clip_span_simps [simp]:
  "clip_span [] s = []"
  "clip_span (b # bs) s = (if by1 b \<le> sy s \<and> sy s < by2 b then clip_one (bx1 b) (bx2 b) s else []) @ clip_span bs s"
  "clip_span (bs @ cs) s = clip_span bs s @ clip_span cs s"
  by (simp_all add: clip_span_def)

lemma clip_span_outside: "\<forall>b \<in> set bs. sy s < by1 b \<or> by2 b \<le> sy s \<Longrightarrow> clip_span bs s = []"
  by (induction bs) auto

lemma clip_span_band:
  "is_band y1 y2 bs \<Longrightarrow> y1 \<le> sy s \<Longrightarrow> sy s < y2 \<Longrightarrow>
   clip_span bs s = concat (map (\<lambda>b. clip_one (bx1 b) (bx2 b) s) bs)"
  by (induction bs) auto

lemma clip_bands_spec:
  assumes "band \<noteq> []" "is_band y1 y2 band" "banded rest" "\<forall>b \<in> set rest. y2 \<le> by1 b"
    "sorted (map sy ss)" "\<forall>s \<in> set ss. y1 \<le> sy s"
  shows "clip_bands ss band rest = concat (map (clip_span (band @ rest)) ss)"
  using assms
proof (induction ss band rest arbitrary: y1 y2 rule: clip_bands.induct)
  case (2 s ss band rest)
  have y2: "by2 (hd band) = y2" using "2.prems"(1,2) by (cases band) auto
  show ?case
  proof (cases "sy s < y2")
    case True
    have "clip_span (band @ rest) s = concat (map (\<lambda>b. clip_one (bx1 b) (bx2 b) s) band)"
      using True "2.prems" clip_span_outside [of rest s] clip_span_band [of y1 y2 band s] by fastforce
    with True y2 "2.IH"(1) [OF _ "2.prems"(1-4)] "2.prems"(5,6) show ?thesis by simp
  next
    case below: False
    have drop_band: "clip_span band t = []" if "t \<in> set (s # ss)" for t
      using that below "2.prems"(2,5) by (intro clip_span_outside) (auto simp: is_band_def)
    show ?thesis
    proof (cases "rest = []")
      case True
      with below y2 drop_band show ?thesis by simp
    next
      case False
      then obtain a t where r: "rest = a # t" by (cases rest) auto
      obtain band' rest' where B: "FindBand rest = (band', rest')" "rest = band' @ rest'"
        "is_band (by1 a) (by2 a) band'" "\<forall>b \<in> set rest'. by2 a \<le> by1 b" "banded rest'" "band' \<noteq> []"
        using FindBand_spec [of a t] "2.prems"(3) unfolding r by blast
      have hd: "by1 (hd band') = by1 a" using B(3,6) by (cases band') auto
      let ?dw = "dropWhile (\<lambda>s. sy s < by1 (hd band')) (s # ss)"
      let ?tw = "takeWhile (\<lambda>s. sy s < by1 (hd band')) (s # ss)"
      have "sorted (map sy ?tw @ map sy ?dw)" using "2.prems"(5) by (simp flip: map_append)
      then have dw1: "sorted (map sy ?dw)" by (simp only: sorted_append)
      moreover have "\<forall>u \<in> set ?dw. by1 a \<le> sy u"
      proof (cases ?dw)
        case (Cons d ds)
        from dropWhile_ConsD [OF this] have "\<not> sy d < by1 (hd band')" by simp
        with dw1 hd show ?thesis unfolding Cons by auto
      next
        case Nil
        show ?thesis unfolding Nil by simp
      qed
      ultimately have dw: "sorted (map sy ?dw)" "\<forall>u \<in> set ?dw. by1 a \<le> sy u" by blast+
      have skip: "clip_span (band @ rest) u = []" if "u \<in> set ?tw" for u
      proof -
        from that hd have u: "u \<in> set (s # ss)" "sy u < by1 a" using set_takeWhileD by metis+
        have "by1 a \<le> by1 b" if "b \<in> set rest" for b
          using "2.prems"(3) that unfolding r by (auto simp: before_def nonempty_def)
        with u have "clip_span rest u = []" by (intro clip_span_outside) fastforce
        with drop_band [OF u(1)] show ?thesis by simp
      qed
      have "clip_bands (s # ss) band rest = clip_bands ?dw band' rest'"
        using below False y2 B(1) by simp
      also have "\<dots> = concat (map (clip_span (band' @ rest')) ?dw)"
        using below y2 by (intro "2.IH"(2) [OF _ False B(1) [symmetric] refl B(6,3,5,4) dw]) simp
      also have "\<dots> = concat (map (clip_span (band @ rest)) ?dw)"
      proof -
        have "clip_span band u = []" if "u \<in> set ?dw" for u
          using drop_band that by (meson set_dropWhileD)
        then have "map (clip_span (band' @ rest')) ?dw = map (clip_span (band @ rest)) ?dw"
          by (intro map_cong [OF refl]) (simp add: B(2))
        then show ?thesis by (simp only:)
      qed
      also have "\<dots> = concat (map (clip_span (band @ rest)) (?tw @ ?dw))"
        unfolding map_append concat_append using skip by simp
      finally show ?thesis by (simp only: takeWhile_dropWhile_id)
    qed
  qed
qed simp

definition span_pts :: "span list \<Rightarrow> (int \<times> int) set" where
  "span_pts sps = {(x, y). \<exists>s \<in> set sps. y = sy s \<and> sx s \<le> x \<and> x < sx s + swidth s}"

lemma span_pts_simps [simp]:
  "span_pts [] = {}"
  "span_pts (sps @ tps) = span_pts sps \<union> span_pts tps"
  by (auto simp: span_pts_def)

lemma span_pts_Cons: "span_pts (s # ss) = span_pts [s] \<union> span_pts ss"
  by (auto simp: span_pts_def)

lemma clip_one_pts:
  "by1 b \<le> sy s \<Longrightarrow> sy s < by2 b \<Longrightarrow>
   span_pts (clip_one (bx1 b) (bx2 b) s) = span_pts [s] \<inter> box_pts b"
  by (auto simp: clip_one_def Let_def span_pts_def box_pts_def INBOX_def)

lemma clip_span_pts: "span_pts (clip_span bs s) = span_pts [s] \<inter> pts bs"
proof (induction bs)
  case (Cons b bs)
  show ?case
  proof (cases "by1 b \<le> sy s \<and> sy s < by2 b")
    case True
    with Cons clip_one_pts [of b s] show ?thesis by (auto simp: pts_Cons_box)
  next
    case False
    then have "span_pts [s] \<inter> box_pts b = {}" by (auto simp: span_pts_def box_pts_def INBOX_def)
    with False Cons show ?thesis by (auto simp: pts_Cons_box)
  qed
qed simp

lemma clip_spans_pts: "span_pts (concat (map (clip_span bs) ss)) = span_pts ss \<inter> pts bs"
proof (induction ss)
  case (Cons s ss)
  then show ?case using span_pts_Cons [of s ss] by (auto simp: clip_span_pts)
qed simp

lemma span_pts_mset: "mset ss = mset sps \<Longrightarrow> span_pts ss = span_pts sps"
  using mset_eq_setD [of ss sps] by (simp add: span_pts_def)

lemma miClipSpans_reference:
  assumes "region_wf reg" "fSorted \<Longrightarrow> sorted (map sy sps)"
  shows "\<exists>ss. miClipSpans reg sps fSorted = Some (concat (map (clip_span (REGION_RECTS reg)) ss)) \<and>
    mset ss = mset sps"
proof (cases "rdata reg")
  case SingleRect
  moreover have "concat (map (\<lambda>s. if by1 (extents reg) \<le> sy s \<and> sy s < by2 (extents reg)
      then clip_one (bx1 (extents reg)) (bx2 (extents reg)) s else []) sps) =
    concat (map (clip_span [extents reg]) sps)"
    by (induction sps) auto
  ultimately show ?thesis
    by (intro exI [of _ sps]) (simp add: miClipSpans_def Let_def REGION_RECTS_def)
next
  case (Rects bs)
  show ?thesis
  proof (cases "bs = []")
    case True
    with Rects show ?thesis
      by (intro exI [of _ sps]) (simp add: miClipSpans_def REGION_RECTS_def clip_span_def)
  next
    case False
    with Rects assms(1) have b: "banded bs" by (simp add: region_wf_def)
    obtain a t where bs: "bs = a # t" using False by (cases bs) auto
    obtain band rest where B: "FindBand bs = (band, rest)" "bs = band @ rest" "band \<noteq> []"
      "is_band (by1 a) (by2 a) band" "\<forall>b \<in> set rest. by2 a \<le> by1 b" "banded rest" "hd band = a"
      using FindBand_spec [of a t] b unfolding bs by blast
    obtain ss where ss: "(if \<not> fSorted \<and> length sps > 1 then QuickSortSpans sps else Some sps) = Some ss"
      "mset ss = mset sps" "sorted (map sy ss)"
    proof (cases "\<not> fSorted \<and> length sps > 1")
      case True
      then have "sps \<noteq> []" by auto
      with QuickSortSpans_sorts_aux that True show ?thesis by metis
    next
      case False
      then have "sorted (map sy sps)"
        using assms(2) by (cases sps rule: remdups_adj.cases) auto
      with that False show ?thesis by auto
    qed
    let ?P = "\<lambda>s. sy s < by1 a"
    have "sorted (map sy (takeWhile ?P ss) @ map sy (dropWhile ?P ss))"
      using ss(3) by (simp flip: map_append)
    then have dw1: "sorted (map sy (dropWhile ?P ss))" by (simp only: sorted_append)
    have "\<forall>s \<in> set (dropWhile ?P ss). by1 a \<le> sy s"
    proof (cases "dropWhile ?P ss")
      case (Cons d ds)
      from dropWhile_ConsD [OF this] have "\<not> ?P d" by simp
      with dw1 show ?thesis unfolding Cons by auto
    next
      case Nil
      show ?thesis unfolding Nil by simp
    qed
    from clip_bands_spec [OF B(3,4,6,5) dw1 this]
    have clip: "clip_bands (dropWhile ?P ss) band rest = concat (map (clip_span bs) (dropWhile ?P ss))"
      by (simp add: B(2))
    have skip: "clip_span bs u = []" if "u \<in> set (takeWhile ?P ss)" for u
    proof (rule clip_span_outside, intro ballI disjI1)
      fix b assume "b \<in> set bs"
      then have "by1 a \<le> by1 b" using banded_rows(1) [OF b] by (simp add: bs)
      with set_takeWhileD [OF that] show "sy u < by1 b" by simp
    qed
    have "concat (map (clip_span bs) (takeWhile ?P ss)) = []"
      using skip by simp
    then have "concat (map (clip_span bs) ss) = concat (map (clip_span bs) (dropWhile ?P ss))"
      by (metis append_Nil concat_append map_append takeWhile_dropWhile_id)
    with clip ss(1,2) Rects B(1,7) False show ?thesis
      by (intro exI [of _ ss]) (simp add: miClipSpans_def REGION_RECTS_def)
  qed
qed (simp_all add: miClipSpans_def REGION_RECTS_def clip_span_def exI [of _ sps])

text \<open>
  C39. Span clipping: \<open>miClipSpans\<close> returns, for each span of a permutation of its input, the parts
  inside the boxes of the span's row; the pixels it returns are those of the spans inside the
  region. The input may be unsorted when \<open>fSorted\<close> is not set.
\<close>

theorem miClipSpans_correct:
  assumes "region_wf reg" "fSorted \<Longrightarrow> sorted (map sy sps)"
  shows "\<exists>ss out. miClipSpans reg sps fSorted = Some out \<and> mset ss = mset sps \<and>
    out = concat (map (clip_span (REGION_RECTS reg)) ss) \<and>
    span_pts out = span_pts sps \<inter> region_pts reg"
proof -
  obtain ss where ss: "miClipSpans reg sps fSorted = Some (concat (map (clip_span (REGION_RECTS reg)) ss))"
    "mset ss = mset sps"
    using miClipSpans_reference [of reg fSorted sps] assms by blast
  then show ?thesis
    using clip_spans_pts [of "REGION_RECTS reg" ss] span_pts_mset [OF ss(2)]
    by (auto simp: region_pts_def)
qed

theorem miClipSpans_correct_witness:
  "\<exists>ss out. miClipSpans (store_example 0)
       [\<lparr>sx = 0, sy = 3, swidth = 9\<rparr>, \<lparr>sx = 1, sy = 0, swidth = 4\<rparr>] False = Some out \<and>
     mset ss = mset [\<lparr>sx = 0, sy = 3, swidth = 9\<rparr>, \<lparr>sx = 1, sy = 0, swidth = 4\<rparr>] \<and>
     out = concat (map (clip_span (REGION_RECTS (store_example 0))) ss) \<and>
     span_pts out = span_pts [\<lparr>sx = 0, sy = 3, swidth = 9\<rparr>, \<lparr>sx = 1, sy = 0, swidth = 4\<rparr>] \<inter>
       region_pts (store_example 0)"
  by (rule miClipSpans_correct) simp_all

subsection \<open>Smaller operations\<close>

function max_band :: "BoxRec list \<Rightarrow> nat \<Rightarrow> nat" where
  "max_band [] nMaxBand = nMaxBand"
| "max_band (b # bs) nMaxBand =
     (let nThisBand = length (takeWhile (\<lambda>c. by1 c = by1 b) (b # bs))
      in max_band (dropWhile (\<lambda>c. by1 c = by1 b) (b # bs))
           (if nThisBand > nMaxBand then nThisBand else nMaxBand))"
  by pat_completeness auto
termination
  by (relation "measure (\<lambda>(bs, n). length bs)") (auto simp: le_imp_less_Suc length_dropWhile_le)

definition miFindMaxBand :: "RegionRec \<Rightarrow> nat" where
  "miFindMaxBand prgn = max_band (REGION_RECTS prgn) 0"

lemma max_band_mono: "n \<le> max_band bs n"
  by (induction bs n rule: max_band.induct) (auto simp: Let_def split: if_splits)

lemma max_band_bound:
  "sorted (map by1 bs) \<Longrightarrow> length (filter (\<lambda>b. by1 b = y) bs) \<le> max_band bs n"
proof (induction bs n rule: max_band.induct)
  case (2 b bs n)
  let ?P = "\<lambda>c. by1 c = by1 b"
  let ?tw = "takeWhile ?P (b # bs)" and ?dw = "dropWhile ?P (b # bs)"
  let ?n = "if length ?tw > n then length ?tw else n"
  have step: "max_band (b # bs) n = max_band ?dw ?n" by (simp add: Let_def)
  have "sorted (map by1 ?tw @ map by1 ?dw)"
    using "2.prems" by (simp only: takeWhile_dropWhile_id flip: map_append)
  then have srt: "sorted (map by1 ?dw)" by (simp only: sorted_append)
  have split: "filter (\<lambda>c. by1 c = y) (b # bs) = filter (\<lambda>c. by1 c = y) ?tw @ filter (\<lambda>c. by1 c = y) ?dw"
    by (simp only: takeWhile_dropWhile_id flip: filter_append)
  show ?case
  proof (cases "y = by1 b")
    case True
    have "c \<notin> set ?dw" if "by1 c = y" for c
    proof (cases ?dw)
      case (Cons d ds)
      from dropWhile_ConsD [OF Cons] have "by1 d \<noteq> by1 b" "d \<in> set (b # bs)" by blast+
      moreover from this have "by1 b \<le> by1 d" using "2.prems" by auto
      ultimately have "by1 b < by1 d" by linarith
      moreover have "\<forall>e \<in> set (d # ds). by1 d \<le> by1 e" using srt unfolding Cons by simp
      ultimately show ?thesis using True that unfolding Cons by fastforce
    next
      case Nil
      show ?thesis unfolding Nil by simp
    qed
    then have "filter (\<lambda>c. by1 c = y) ?dw = []" by (fastforce simp: filter_empty_conv)
    then have "length (filter (\<lambda>c. by1 c = y) (b # bs)) \<le> length ?tw"
      unfolding split by (simp only: append_Nil2 length_filter_le)
    also have "\<dots> \<le> ?n" by simp
    also have "\<dots> \<le> max_band ?dw ?n" by (rule max_band_mono)
    finally show ?thesis unfolding step .
  next
    case False
    then have "filter (\<lambda>c. by1 c = y) ?tw = []" by (auto simp: filter_empty_conv dest: set_takeWhileD)
    then have "filter (\<lambda>c. by1 c = y) (b # bs) = filter (\<lambda>c. by1 c = y) ?dw"
      unfolding split by (simp only: append_Nil)
    with "2.IH" [OF refl srt] show ?thesis unfolding step by (simp only:)
  qed
qed simp

text \<open>
  Largest band: no row of a well-formed region has more boxes than \<open>miFindMaxBand\<close> returns,
  the number callers use to size the buffers of clipped spans.
\<close>

theorem miFindMaxBand_bound:
  assumes "region_wf reg"
  shows "length (filter (\<lambda>b. by1 b \<le> y \<and> y < by2 b) (REGION_RECTS reg)) \<le> miFindMaxBand reg"
proof (cases "filter (\<lambda>b. by1 b \<le> y \<and> y < by2 b) (REGION_RECTS reg)")
  case (Cons a as)
  let ?bs = "REGION_RECTS reg"
  have "a \<in> set (filter (\<lambda>b. by1 b \<le> y \<and> y < by2 b) ?bs)" by (simp add: Cons)
  then have a: "a \<in> set ?bs" "by1 a \<le> y" "y < by2 a" by simp_all
  have ban: "banded ?bs"
    using assms by (auto simp: region_wf_def REGION_RECTS_def split: RegData.splits if_splits)
  have "sorted (map by1 ?bs)"
    unfolding sorted_map
  proof (rule sorted_wrt_mono_rel)
    show "sorted_wrt before ?bs" using ban by (simp add: banded_def)
    fix a b assume "a \<in> set ?bs" "before a b"
    moreover from this have "nonempty a" using ban by (simp add: banded_def)
    ultimately show "by1 a \<le> by1 b" by (auto simp: before_def nonempty_def)
  qed
  moreover have "by1 b = by1 a" if "b \<in> set ?bs" "by1 b \<le> y \<and> y < by2 b" for b
  proof -
    have "a = b \<or> before a b \<or> before b a"
      using sorted_wrt_cases [of before ?bs a b] that(1) a(1) ban by (simp add: banded_def)
    then consider "a = b" | "before a b" | "before b a" by blast
    then show ?thesis using that(2) a(2,3) by cases (auto simp: before_def)
  qed
  then have "length (filter (\<lambda>b. by1 b \<le> y \<and> y < by2 b) ?bs) \<le> length (filter (\<lambda>b. by1 b = by1 a) ?bs)"
    by (intro length_filter_mono) blast
  ultimately show ?thesis
    using max_band_bound [of ?bs "by1 a" 0] by (simp add: miFindMaxBand_def)
qed simp

theorem miFindMaxBand_bound_witness:
  "length (filter (\<lambda>b. by1 b \<le> 1 \<and> 1 < by2 b) (REGION_RECTS (store_example 0))) \<le> miFindMaxBand (store_example 0)"
  by (rule miFindMaxBand_bound) simp

text \<open>
  \<open>miRegionDataCopy\<close> gives a one-box destination an array of the size of the source's; the boxes
  are not copied, so the new array holds arbitrary ones (the parameter).
\<close>

definition miRegionDataCopy :: "BoxRec list \<Rightarrow> RegionRec \<Rightarrow> RegionRec \<Rightarrow> bool \<times> RegionRec" where
  "miRegionDataCopy uninit dst src =
     (if rdata dst \<noteq> SingleRect then (True, dst)
      else case rdata src of
             Rects bs \<Rightarrow> (True, dst\<lparr>rdata := Rects (take (length bs) uninit)\<rparr>)
           | _ \<Rightarrow> (True, dst\<lparr>rdata := SingleRect\<rparr>))"

end
