(* ===== verification/Resources.thy ===== *)
theory Resources
  imports Prelude
begin

text \<open>
  The resource database of \<^verbatim>\<open>programs/Xserver/dix/resource.c\<close>: one hash table of cs per
  client, resource types and classes, allocation of ids inside the server, lookup and freeing.
  A chain is the list of its nodes; a pointer into a chain is an index. Freeing calls the
  delete functions of other components, which are the parameter \<open>call\<close> and may change the whole
  state. Loops that such a call could keep running are partial functions: \<open>None\<close> is not
  returning.
\<close>

subsection \<open>Ids, types and classes\<close>

type_synonym RESTYPE = "32 word"
type_synonym pointer = nat

definition MAXCLIENTS :: nat where "MAXCLIENTS = 256"
definition CLIENTOFFSET :: nat where "CLIENTOFFSET = 21"
definition RESOURCE_ID_MASK :: XID where "RESOURCE_ID_MASK = push_bit CLIENTOFFSET 1 - 1"
definition RESOURCE_CLIENT_MASK :: XID where
  "RESOURCE_CLIENT_MASK = push_bit CLIENTOFFSET (push_bit 8 1 - 1)"
definition CLIENT_BITS :: "XID \<Rightarrow> XID" where "CLIENT_BITS xid = xid AND RESOURCE_CLIENT_MASK"
definition CLIENT_ID :: "XID \<Rightarrow> nat" where "CLIENT_ID xid = unat (drop_bit CLIENTOFFSET (CLIENT_BITS xid))"
definition SERVER_BIT :: XID where "SERVER_BIT = 0x40000000"
definition SERVER_MINID :: XID where "SERVER_MINID = 32"
definition INITBUCKETS :: nat where "INITBUCKETS = 64"
definition INITHASHSIZE :: nat where "INITHASHSIZE = 6"
definition MAXHASHSIZE :: nat where "MAXHASHSIZE = 11"

definition RC_CACHED :: RESTYPE where "RC_CACHED = push_bit 31 1"
definition RC_DRAWABLE :: RESTYPE where "RC_DRAWABLE = push_bit 30 1"
definition RC_NEVERRETAIN :: RESTYPE where "RC_NEVERRETAIN = push_bit 29 1"
definition RC_LASTPREDEF :: RESTYPE where "RC_LASTPREDEF = RC_NEVERRETAIN"
definition RC_ANY :: RESTYPE where "RC_ANY = NOT 0"
definition RT_LASTPREDEF :: RESTYPE where "RT_LASTPREDEF = 9"

text \<open>\<open>clientAsMask\<close> of the client with an index.\<close>

definition clientAsMask :: "nat \<Rightarrow> XID" where
  "clientAsMask i = push_bit CLIENTOFFSET (word_of_nat i)"

subsection \<open>State\<close>

datatype DeleteType =
    NoopDDA | DeleteWindow | dixDestroyPixmap | FreeGC | CloseFont | FreeCursor | FreeColormap
  | FreeClientPixels | OtherClientGone | DeletePassiveGrab | ExtensionDelete nat

record ResourceRec =
  res_id :: XID
  res_type :: RESTYPE
  res_value :: pointer

record ClientResourceRec =
  resources :: "ResourceRec list list"
  elements :: int
  buckets :: nat
  hashsize :: nat
  fakeID :: XID
  endFakeID :: XID
  expectID :: XID

text \<open>The fields of a client that cache the last drawable and GC it used.\<close>

record ClientRec =
  lastDrawable :: pointer
  lastDrawableID :: XID
  lastGC :: pointer
  lastGCID :: XID

record dix_state =
  clientTable :: "nat \<Rightarrow> ClientResourceRec"
  clients :: "nat \<Rightarrow> ClientRec option"
  currentMaxClients :: nat
  rootWindow :: pointer
  rootWindowID :: XID
  lastResourceType :: RESTYPE
  lastResourceClass :: RESTYPE
  TypeMask :: RESTYPE
  DeleteFuncs :: "DeleteType list"

type_synonym delete_call = "DeleteType \<Rightarrow> pointer \<Rightarrow> XID \<Rightarrow> dix_state \<Rightarrow> dix_state"

definition set_table :: "nat \<Rightarrow> ClientResourceRec \<Rightarrow> dix_state \<Rightarrow> dix_state" where
  "set_table c t st = st\<lparr>clientTable := (clientTable st)(c := t)\<rparr>"

definition deleter :: "dix_state \<Rightarrow> RESTYPE \<Rightarrow> DeleteType" where
  "deleter st rtype = DeleteFuncs st ! unat (rtype AND TypeMask st)"

subsection \<open>Types and classes\<close>

definition CreateNewResourceType :: "bool \<Rightarrow> DeleteType \<Rightarrow> dix_state \<Rightarrow> RESTYPE \<times> dix_state" where
  "CreateNewResourceType alloc_ok deleteFunc st =
     (let next = lastResourceType st + 1
      in if next AND lastResourceClass st \<noteq> 0 then (0, st)
         else if \<not> alloc_ok then (0, st)
         else (next, st\<lparr>lastResourceType := next, DeleteFuncs := DeleteFuncs st @ [deleteFunc]\<rparr>))"

definition CreateNewResourceClass :: "dix_state \<Rightarrow> RESTYPE \<times> dix_state" where
  "CreateNewResourceClass st =
     (let next = drop_bit 1 (lastResourceClass st)
      in if next AND lastResourceType st \<noteq> 0 then (0, st)
         else (next, st\<lparr>lastResourceClass := next, TypeMask := next - 1\<rparr>))"

text \<open>
  The two flags of \<open>InitClientResources\<close> say whether the allocations succeed, of the table of
  delete functions and of the hash table.
\<close>

definition InitClientResources :: "bool \<Rightarrow> bool \<Rightarrow> nat \<Rightarrow> dix_state \<Rightarrow> bool \<times> dix_state" where
  "InitClientResources funcs_ok table_ok index st =
     (let st1 = (if index = 0
                 then st\<lparr>lastResourceType := RT_LASTPREDEF, lastResourceClass := RC_LASTPREDEF,
                         TypeMask := RC_LASTPREDEF - 1,
                         DeleteFuncs := (if funcs_ok then
                           [NoopDDA, DeleteWindow, dixDestroyPixmap, FreeGC, CloseFont,
                            FreeCursor, FreeColormap, FreeClientPixels, OtherClientGone,
                            DeletePassiveGrab] else [])\<rparr>
                 else st);
          fake = clientAsMask index OR (if index \<noteq> 0 then SERVER_BIT else SERVER_MINID)
      in if index = 0 \<and> \<not> funcs_ok then (False, st1)
         else if \<not> table_ok
         then (False, set_table index ((clientTable st1 index)\<lparr>resources := []\<rparr>) st1)
         else (True, set_table index
           \<lparr>resources = replicate INITBUCKETS [], elements = 0, buckets = INITBUCKETS,
            hashsize = INITHASHSIZE, fakeID = fake, endFakeID = (fake OR RESOURCE_ID_MASK) + 1,
            expectID = clientAsMask index\<rparr> st1))"

subsection \<open>Hashing\<close>

definition Hash :: "ClientResourceRec \<Rightarrow> XID \<Rightarrow> int" where
  "Hash t xid0 =
     (let xid = xid0 AND RESOURCE_ID_MASK
      in if hashsize t = 6 then uint (0x03F AND (xid XOR drop_bit 6 xid XOR drop_bit 12 xid))
         else if hashsize t = 7 then uint (0x07F AND (xid XOR drop_bit 7 xid XOR drop_bit 13 xid))
         else if hashsize t = 8 then uint (0x0FF AND (xid XOR drop_bit 8 xid XOR drop_bit 16 xid))
         else if hashsize t = 9 then uint (0x1FF AND (xid XOR drop_bit 9 xid))
         else if hashsize t = 10 then uint (0x3FF AND (xid XOR drop_bit 10 xid))
         else if hashsize t = 11 then uint (0x7FF AND (xid XOR drop_bit 11 xid))
         else -1)"

definition bucket :: "ClientResourceRec \<Rightarrow> XID \<Rightarrow> nat" where
  "bucket t xid = nat (Hash t xid)"

definition chain :: "ClientResourceRec \<Rightarrow> XID \<Rightarrow> ResourceRec list" where
  "chain t xid = resources t ! bucket t xid"

subsection \<open>Lookup\<close>

definition LookupIDByType :: "dix_state \<Rightarrow> XID \<Rightarrow> RESTYPE \<Rightarrow> pointer" where
  "LookupIDByType st xid rtype =
     (let cid = CLIENT_ID xid; t = clientTable st cid
      in if cid < MAXCLIENTS \<and> buckets t \<noteq> 0
         then (case find (\<lambda>r. res_id r = xid \<and> res_type r = rtype) (chain t xid) of
                 Some r \<Rightarrow> res_value r | None \<Rightarrow> 0)
         else 0)"

definition LookupIDByClass :: "dix_state \<Rightarrow> XID \<Rightarrow> RESTYPE \<Rightarrow> pointer" where
  "LookupIDByClass st xid classes =
     (let cid = CLIENT_ID xid; t = clientTable st cid
      in if cid < MAXCLIENTS \<and> buckets t \<noteq> 0
         then (case find (\<lambda>r. res_id r = xid \<and> res_type r AND classes \<noteq> 0) (chain t xid) of
                 Some r \<Rightarrow> res_value r | None \<Rightarrow> 0)
         else 0)"

text \<open>
  The lookups of the security extension: the client's \<open>CheckAccess\<close> procedure, if it has one,
  sees every resource found and may refuse it. The class lookup hands over the type of the
  resource it found.
\<close>

type_synonym access_check = "XID \<Rightarrow> RESTYPE \<Rightarrow> CARD32 \<Rightarrow> pointer \<Rightarrow> pointer"

definition SecurityLookupIDByType ::
    "dix_state \<Rightarrow> access_check option \<Rightarrow> XID \<Rightarrow> RESTYPE \<Rightarrow> CARD32 \<Rightarrow> pointer" where
  "SecurityLookupIDByType st check xid rtype mode =
     (let retval = LookupIDByType st xid rtype
      in case check of
           Some f \<Rightarrow> if retval \<noteq> 0 then f xid rtype mode retval else retval
         | None \<Rightarrow> retval)"

definition SecurityLookupIDByClass ::
    "dix_state \<Rightarrow> access_check option \<Rightarrow> XID \<Rightarrow> RESTYPE \<Rightarrow> CARD32 \<Rightarrow> pointer" where
  "SecurityLookupIDByClass st check xid classes mode =
     (let cid = CLIENT_ID xid; t = clientTable st cid
      in if cid < MAXCLIENTS \<and> buckets t \<noteq> 0
         then (case find (\<lambda>r. res_id r = xid \<and> res_type r AND classes \<noteq> 0) (chain t xid) of
                 Some r \<Rightarrow> (case check of
                     Some f \<Rightarrow> if res_value r \<noteq> 0 then f xid (res_type r) mode (res_value r) else 0
                   | None \<Rightarrow> res_value r)
               | None \<Rightarrow> 0)
         else 0)"

subsection \<open>Ids made inside the server\<close>


text \<open>
  The loop over the candidate ids; it ends because \<open>maxid\<close> is never the largest number of the
  type.
\<close>

definition AvailableID :: "ClientResourceRec \<Rightarrow> XID \<Rightarrow> XID \<Rightarrow> XID \<Rightarrow> XID" where
  "AvailableID t xid maxid goodid =
     (if goodid \<ge> xid \<and> goodid \<le> maxid then goodid
      else case find (\<lambda>i. \<forall>r \<in> set (chain t i). res_id r \<noteq> i)
                  (map word_of_nat [unat xid ..< unat maxid + 1]) of
             Some i \<Rightarrow> i
           | None \<Rightarrow> 0)"

fun range_step :: "ClientResourceRec \<Rightarrow> ResourceRec \<Rightarrow> XID \<times> XID \<times> XID \<Rightarrow> XID \<times> XID \<times> XID" where
  "range_step t res (xid, maxid, goodid) =
     (if res_id res < xid \<or> res_id res > maxid then (xid, maxid, goodid)
      else if res_id res - xid \<ge> maxid - res_id res
      then (let g = AvailableID t xid (res_id res - 1) goodid
            in if g \<noteq> 0 then (xid, res_id res - 1, g) else (res_id res + 1, maxid, g))
      else (let g = AvailableID t (res_id res + 1) maxid goodid
            in if g = 0 then (xid, res_id res - 1, g) else (res_id res + 1, maxid, g)))"

definition GetXIDRange :: "dix_state \<Rightarrow> nat \<Rightarrow> bool \<Rightarrow> XID \<times> XID" where
  "GetXIDRange st client server =
     (let t = clientTable st client;
          xid0 = clientAsMask client;
          xid = (if server then xid0 OR (if client \<noteq> 0 then SERVER_BIT else SERVER_MINID) else xid0);
          maxid = xid OR RESOURCE_ID_MASK
      in case fold (range_step t) (concat (resources t)) (xid, maxid, 0) of
           (xid', maxid', _) \<Rightarrow> if xid' > maxid' then (0, 0) else (xid', maxid'))"

fun xid_list :: "dix_state \<Rightarrow> XID list \<Rightarrow> nat \<Rightarrow> XID list" where
  "xid_list st [] count = []"
| "xid_list st (i # is) count =
     (if count = 0 then []
      else if LookupIDByClass st i RC_ANY = 0 then i # xid_list st is (count - 1)
      else xid_list st is count)"

definition GetXIDList :: "dix_state \<Rightarrow> nat \<Rightarrow> nat \<Rightarrow> XID list" where
  "GetXIDList st client count =
     (let xid = clientAsMask client; maxid = xid OR RESOURCE_ID_MASK
      in xid_list st (map word_of_nat [unat xid ..< unat maxid + 1]) count)"

text \<open>
  \<open>FakeClientID\<close>. The result \<open>None\<close> is the fatal error of the server client; the flag says
  that the client was marked as broken (\<open>MarkClientException\<close>).
\<close>

definition FakeClientID :: "dix_state \<Rightarrow> nat \<Rightarrow> (XID \<times> bool \<times> dix_state) option" where
  "FakeClientID st client =
     (let t = clientTable st client; xid = fakeID t;
          st1 = set_table client (t\<lparr>fakeID := xid + 1\<rparr>) st
      in if xid \<noteq> endFakeID t then Some (xid, False, st1)
         else
           (let (lo, hi) = GetXIDRange st1 client True
            in if lo \<noteq> 0
               then Some (lo, False, set_table client (t\<lparr>fakeID := lo + 1, endFakeID := hi + 1\<rparr>) st1)
               else if client = 0 then None
               else (let xid' = clientAsMask client OR (SERVER_BIT * 3);
                         maxid = xid' OR RESOURCE_ID_MASK
                     in Some (xid', True,
                          set_table client (t\<lparr>fakeID := xid' + 1, endFakeID := maxid + 1\<rparr>) st1))))"

text \<open>\<open>LegalNewID\<close>; the flag is \<open>noPanoramiXExtension\<close>.\<close>

definition LegalNewID :: "bool \<Rightarrow> dix_state \<Rightarrow> XID \<Rightarrow> nat \<Rightarrow> bool" where
  "LegalNewID noPanoramiX st xid client =
     (let minid = clientAsMask client OR (if client \<noteq> 0 then SERVER_BIT else SERVER_MINID);
          maxid = (fakeID (clientTable st client) OR RESOURCE_ID_MASK) + 1
      in if \<not> noPanoramiX \<and> xid \<ge> minid \<and> xid \<le> maxid then True
         else clientAsMask client = xid AND NOT RESOURCE_ID_MASK \<and>
           (expectID (clientTable st client) \<le> xid \<or> LookupIDByClass st xid RC_ANY = 0))"

subsection \<open>Adding\<close>

text \<open>
  \<open>RebuildTable\<close> doubles the buckets. Every resource is appended at the tail of its new chain,
  in the order of the old table.
\<close>

definition place :: "ClientResourceRec \<Rightarrow> ResourceRec \<Rightarrow> ResourceRec list list \<Rightarrow> ResourceRec list list" where
  "place t r cs = cs[bucket t (res_id r) := cs ! bucket t (res_id r) @ [r]]"

definition RebuildTable :: "bool \<Rightarrow> ClientResourceRec \<Rightarrow> ClientResourceRec" where
  "RebuildTable alloc_ok t =
     (if \<not> alloc_ok then t
      else (let t' = t\<lparr>hashsize := hashsize t + 1\<rparr>
            in t'\<lparr>resources := fold (place t') (concat (resources t)) (replicate (2 * buckets t) []),
                  buckets := 2 * buckets t\<rparr>))"

text \<open>
  \<open>AddResource\<close>; \<open>None\<close> is the fatal error for a client that is not in use. When the node
  cannot be allocated the value is handed to its delete function.
\<close>

definition AddResource ::
    "delete_call \<Rightarrow> bool \<Rightarrow> bool \<Rightarrow> XID \<Rightarrow> RESTYPE \<Rightarrow> pointer \<Rightarrow> dix_state \<Rightarrow> (bool \<times> dix_state) option" where
  "AddResource call rebuild_ok alloc_ok xid rtype val st =
     (let client = CLIENT_ID xid; t = clientTable st client
      in if buckets t = 0 then None
         else
           (let t1 = (if elements t \<ge> 4 * int (buckets t) \<and> hashsize t < MAXHASHSIZE
                      then RebuildTable rebuild_ok t else t);
                h = bucket t1 xid
            in if \<not> alloc_ok
               then Some (False, call (deleter st rtype) val xid (set_table client t1 st))
               else
                 (let t2 = t1\<lparr>resources := (resources t1)[h :=
                               \<lparr>res_id = xid, res_type = rtype, res_value = val\<rparr> # resources t1 ! h],
                              elements := elements t1 + 1\<rparr>;
                      t3 = (if xid AND SERVER_BIT = 0 \<and> xid \<ge> expectID t2
                            then t2\<lparr>expectID := xid + 1\<rparr> else t2)
                  in Some (True, set_table client t3 st))))"

subsection \<open>Freeing\<close>

definition flush_client :: "dix_state \<Rightarrow> XID \<Rightarrow> ClientRec \<Rightarrow> ClientRec" where
  "flush_client st xid c =
     (if lastDrawableID c = xid
      then c\<lparr>lastDrawableID := rootWindowID st, lastDrawable := rootWindow st\<rparr>
      else if lastGCID c = xid then c\<lparr>lastGCID := 0, lastGC := 0\<rparr>
      else c)"

definition FlushClientCaches :: "XID \<Rightarrow> dix_state \<Rightarrow> dix_state" where
  "FlushClientCaches xid st =
     (case clients st (CLIENT_ID xid) of
        None \<Rightarrow> st
      | Some _ \<Rightarrow>
          st\<lparr>clients := (\<lambda>i. if i < currentMaxClients st
                             then map_option (flush_client st xid) (clients st i)
                             else clients st i)\<rparr>)"

definition unlink :: "nat \<Rightarrow> nat \<Rightarrow> nat \<Rightarrow> dix_state \<Rightarrow> dix_state" where
  "unlink cid h i st =
     (let t = clientTable st cid; c = resources t ! h
      in set_table cid (t\<lparr>resources := (resources t)[h := take i c @ drop (i + 1) c]\<rparr>) st)"

definition add_elements :: "nat \<Rightarrow> int \<Rightarrow> dix_state \<Rightarrow> dix_state" where
  "add_elements cid n st =
     (let t = clientTable st cid in set_table cid (t\<lparr>elements := elements t + n\<rparr>) st)"

text \<open>
  The loop of \<open>FreeResource\<close>; \<open>i\<close> is the position of \<open>prev\<close> in the chain. When the delete
  function changed the number of elements the scan starts again at the head.
\<close>

partial_function (option) free_loop ::
    "delete_call \<Rightarrow> nat \<Rightarrow> nat \<Rightarrow> XID \<Rightarrow> RESTYPE \<Rightarrow> nat \<Rightarrow> bool \<Rightarrow> dix_state \<Rightarrow> (bool \<times> dix_state) option"
  where
  "free_loop call cid h xid skip i gotOne st =
     (let c = resources (clientTable st cid) ! h
      in if \<not> i < length c then Some (gotOne, st)
         else
           (let res = c ! i
            in if res_id res \<noteq> xid then free_loop call cid h xid skip (i + 1) gotOne st
               else
                 (let st1 = add_elements cid (- 1) (unlink cid h i st);
                      n = elements (clientTable st1 cid);
                      st2 = (if res_type res AND RC_CACHED \<noteq> 0 then FlushClientCaches (res_id res) st1 else st1);
                      st3 = (if res_type res \<noteq> skip
                             then call (deleter st2 (res_type res)) (res_value res) (res_id res) st2 else st2)
                  in free_loop call cid h xid skip
                       (if elements (clientTable st3 cid) \<noteq> n then 0 else i) True st3)))"

definition reset_last_drawable :: "nat \<Rightarrow> XID \<Rightarrow> dix_state \<Rightarrow> dix_state" where
  "reset_last_drawable cid xid st =
     (case clients st cid of
        Some c \<Rightarrow>
          if xid = lastDrawableID c
          then st\<lparr>clients := (clients st)(cid \<mapsto>
                 c\<lparr>lastDrawable := rootWindow st, lastDrawableID := rootWindowID st\<rparr>)\<rparr>
          else st
      | None \<Rightarrow> st)"

text \<open>\<open>FreeResource\<close>; the flag is false when it ends in the fatal error.\<close>

definition FreeResource ::
    "delete_call \<Rightarrow> XID \<Rightarrow> RESTYPE \<Rightarrow> dix_state \<Rightarrow> (bool \<times> dix_state) option" where
  "FreeResource call xid skip st =
     (let cid = CLIENT_ID xid; t = clientTable st cid
      in if cid < MAXCLIENTS \<and> buckets t \<noteq> 0
         then map_option (\<lambda>(gotOne, st'). (gotOne, reset_last_drawable cid xid st'))
                (free_loop call cid (bucket t xid) xid skip 0 False st)
         else Some (False, st))"

text \<open>\<open>FreeResourceByType\<close> stops at the first match and leaves \<open>elements\<close> as it is.\<close>

definition FreeResourceByType :: "delete_call \<Rightarrow> XID \<Rightarrow> RESTYPE \<Rightarrow> bool \<Rightarrow> dix_state \<Rightarrow> dix_state" where
  "FreeResourceByType call xid rtype skipFree st =
     (let cid = CLIENT_ID xid; t = clientTable st cid; h = bucket t xid; c = resources t ! h;
          i = length (takeWhile (\<lambda>r. \<not> (res_id r = xid \<and> res_type r = rtype)) c)
      in if \<not> (cid < MAXCLIENTS \<and> buckets t \<noteq> 0) then st
         else if i = length c then reset_last_drawable cid xid st
         else
           (let st1 = unlink cid h i st;
                st2 = (if rtype AND RC_CACHED \<noteq> 0 then FlushClientCaches xid st1 else st1);
                st3 = (if \<not> skipFree then call (deleter st2 rtype) (res_value (c ! i)) xid st2 else st2)
            in reset_last_drawable cid xid st3))"

definition ChangeResourceValue :: "XID \<Rightarrow> RESTYPE \<Rightarrow> pointer \<Rightarrow> dix_state \<Rightarrow> bool \<times> dix_state" where
  "ChangeResourceValue xid rtype val st =
     (let cid = CLIENT_ID xid; t = clientTable st cid; h = bucket t xid; c = resources t ! h;
          i = length (takeWhile (\<lambda>r. \<not> (res_id r = xid \<and> res_type r = rtype)) c)
      in if \<not> (cid < MAXCLIENTS \<and> buckets t \<noteq> 0) \<or> i = length c then (False, st)
         else
           (let st1 = (if rtype AND RC_CACHED \<noteq> 0 then FlushClientCaches xid st else st)
            in (True, set_table cid
                  (t\<lparr>resources := (resources t)[h := c[i := (c ! i)\<lparr>res_value := val\<rparr>]]\<rparr>) st1)))"

subsection \<open>Walking and freeing a client's table\<close>

text \<open>
  \<open>FindClientResourcesByType\<close> (type 0 stands for every type) and \<open>FindAllClientResources\<close> apply
  a procedure that may change the state; a change of \<open>elements\<close> restarts the current chain.
\<close>

type_synonym visit = "pointer \<Rightarrow> XID \<Rightarrow> RESTYPE \<Rightarrow> dix_state \<Rightarrow> dix_state"

partial_function (option) find_loop ::
    "visit \<Rightarrow> RESTYPE \<Rightarrow> nat \<Rightarrow> nat \<Rightarrow> nat \<Rightarrow> dix_state \<Rightarrow> dix_state option" where
  "find_loop func rtype cid h i st =
     (if \<not> h < buckets (clientTable st cid) then Some st
      else
        (let c = resources (clientTable st cid) ! h
         in if \<not> i < length c then find_loop func rtype cid (h + 1) 0 st
            else if rtype = 0 \<or> res_type (c ! i) = rtype
            then
              (let n = elements (clientTable st cid);
                   st' = func (res_value (c ! i)) (res_id (c ! i)) (res_type (c ! i)) st
               in find_loop func rtype cid h
                    (if elements (clientTable st' cid) \<noteq> n then 0 else i + 1) st')
            else find_loop func rtype cid h (i + 1) st))"

definition FindClientResourcesByType :: "visit \<Rightarrow> nat \<Rightarrow> RESTYPE \<Rightarrow> dix_state \<Rightarrow> dix_state option" where
  "FindClientResourcesByType func client rtype st = find_loop func rtype client 0 0 st"

definition FindAllClientResources :: "visit \<Rightarrow> nat \<Rightarrow> dix_state \<Rightarrow> dix_state option" where
  "FindAllClientResources func client st = find_loop func 0 client 0 0 st"

definition LookupClientResourceComplex ::
    "dix_state \<Rightarrow> nat \<Rightarrow> RESTYPE \<Rightarrow> (pointer \<Rightarrow> XID \<Rightarrow> bool) \<Rightarrow> pointer" where
  "LookupClientResourceComplex st client rtype func =
     (case find (\<lambda>r. (rtype = 0 \<or> res_type r = rtype) \<and> func (res_value r) (res_id r))
             (concat (resources (clientTable st client))) of
        Some r \<Rightarrow> res_value r
      | None \<Rightarrow> 0)"

text \<open>\<open>FreeClientNeverRetainResources\<close>; it too leaves \<open>elements\<close> as it is.\<close>

partial_function (option) never_retain_loop ::
    "delete_call \<Rightarrow> nat \<Rightarrow> nat \<Rightarrow> nat \<Rightarrow> dix_state \<Rightarrow> dix_state option" where
  "never_retain_loop call cid h i st =
     (if \<not> h < buckets (clientTable st cid) then Some st
      else
        (let c = resources (clientTable st cid) ! h
         in if \<not> i < length c then never_retain_loop call cid (h + 1) 0 st
            else if res_type (c ! i) AND RC_NEVERRETAIN = 0
            then never_retain_loop call cid h (i + 1) st
            else
              (let r = c ! i; st1 = unlink cid h i st;
                   st2 = (if res_type r AND RC_CACHED \<noteq> 0 then FlushClientCaches (res_id r) st1 else st1)
               in never_retain_loop call cid h i
                    (call (deleter st2 (res_type r)) (res_value r) (res_id r) st2))))"

definition FreeClientNeverRetainResources :: "delete_call \<Rightarrow> nat \<Rightarrow> dix_state \<Rightarrow> dix_state option" where
  "FreeClientNeverRetainResources call client st = never_retain_loop call client 0 0 st"

text \<open>\<open>FreeClientResources\<close>: \<open>HandleSaveSet\<close> (of another file) is a parameter.\<close>

partial_function (option) free_client_loop ::
    "delete_call \<Rightarrow> nat \<Rightarrow> nat \<Rightarrow> dix_state \<Rightarrow> dix_state option" where
  "free_client_loop call cid h st =
     (if \<not> h < buckets (clientTable st cid) then Some st
      else
        (case resources (clientTable st cid) ! h of
           [] \<Rightarrow> free_client_loop call cid (h + 1) st
         | r # _ \<Rightarrow>
             (let st1 = unlink cid h 0 st;
                  st2 = (if res_type r AND RC_CACHED \<noteq> 0 then FlushClientCaches (res_id r) st1 else st1)
              in free_client_loop call cid h
                   (call (deleter st2 (res_type r)) (res_value r) (res_id r) st2))))"

definition FreeClientResources ::
    "delete_call \<Rightarrow> (nat \<Rightarrow> dix_state \<Rightarrow> dix_state) \<Rightarrow> nat \<Rightarrow> dix_state \<Rightarrow> dix_state option" where
  "FreeClientResources call HandleSaveSet client st =
     map_option (\<lambda>st'. set_table client ((clientTable st' client)\<lparr>resources := [], buckets := 0\<rparr>) st')
       (free_client_loop call client 0 (HandleSaveSet client st))"

fun free_all_loop ::
    "delete_call \<Rightarrow> (nat \<Rightarrow> dix_state \<Rightarrow> dix_state) \<Rightarrow> nat \<Rightarrow> dix_state \<Rightarrow> dix_state option" where
  "free_all_loop call save 0 st = Some st"
| "free_all_loop call save (Suc i) st =
     (if buckets (clientTable st i) \<noteq> 0
      then (case FreeClientResources call save i st of
              None \<Rightarrow> None | Some st' \<Rightarrow> free_all_loop call save i st')
      else free_all_loop call save i st)"

definition FreeAllResources ::
    "delete_call \<Rightarrow> (nat \<Rightarrow> dix_state \<Rightarrow> dix_state) \<Rightarrow> dix_state \<Rightarrow> dix_state option" where
  "FreeAllResources call HandleSaveSet st = free_all_loop call HandleSaveSet (currentMaxClients st) st"

end
