(* ===== verification/Grabs.thy ===== *)
theory Grabs
  imports Resources
begin

text \<open>
  Passive grabs, \<^verbatim>\<open>programs/Xserver/dix/grabs.c\<close>. A grab names keys (or buttons) and modifiers, each
  as one value or as any value but those cut out of a bit mask; the grabs of a window hang off its
  optional record. A grab has an address, which tells grabs with equal fields apart and is never
  used twice. Every grab is also a resource, in the database of \<open>Resources\<close>.
\<close>

subsection \<open>Data\<close>

type_synonym Mask = "32 word"

definition AnyKey :: CARD16 where "AnyKey = 0"
definition AnyModifier :: CARD16 where "AnyModifier = 0x8000"
definition MasksPerDetailMask :: nat where "MasksPerDetailMask = 8"
definition RT_PASSIVEGRAB :: RESTYPE where "RT_PASSIVEGRAB = 9 OR RC_NEVERRETAIN"
definition RT_NONE :: RESTYPE where "RT_NONE = 0"

record DetailRec =
  exact :: CARD16
  pMask :: "Mask list option"

record GrabRec =
  address :: nat
  resource :: XID
  device :: nat
  window :: XID
  ownerEvents :: bool
  keyboardMode :: bool
  pointerMode :: bool
  coreGrab :: bool
  coreMods :: bool
  grab_type :: CARD8
  modifiersDetail :: DetailRec
  modifierDevice :: nat
  detail :: DetailRec
  confineTo :: "XID option"
  cursor :: "nat option"
  eventMask :: Mask

text \<open>
  The state: the resource database, the core devices, the grabs of each window that has an optional
  record, whether that record is needed for something else, the reference counts of cursors, the
  allocations to come (all succeed when the list has run out) and the next address.
\<close>

record grab_state =
  db :: dix_state
  core_keyboard :: nat
  core_pointer :: nat
  passiveGrabs :: "XID \<Rightarrow> GrabRec list option"
  otherwise_kept :: "XID \<Rightarrow> bool"
  refcnt :: "nat \<Rightarrow> int"
  allocations :: "bool list"
  next_address :: nat

definition xalloc :: "grab_state \<Rightarrow> bool \<times> grab_state" where
  "xalloc st = (case allocations st of
      [] \<Rightarrow> (True, st)
    | ok # oks \<Rightarrow> (ok, st\<lparr>allocations := oks\<rparr>))"

definition wPassiveGrabs :: "grab_state \<Rightarrow> XID \<Rightarrow> GrabRec list" where
  "wPassiveGrabs st w = (case passiveGrabs st w of None \<Rightarrow> [] | Some gs \<Rightarrow> gs)"

definition set_grabs :: "XID \<Rightarrow> GrabRec list option \<Rightarrow> grab_state \<Rightarrow> grab_state" where
  "set_grabs w gs st = st\<lparr>passiveGrabs := (passiveGrabs st)(w := gs)\<rparr>"

text \<open>\<open>MakeWindowOptional\<close> as far as passive grabs see it.\<close>

definition make_optional :: "XID \<Rightarrow> grab_state \<Rightarrow> bool \<times> grab_state" where
  "make_optional w st =
     (if passiveGrabs st w \<noteq> None then (True, st)
      else case xalloc st of (ok, st1) \<Rightarrow>
        if ok then (True, set_grabs w (Some []) st1) else (False, st1))"

subsection \<open>Bit masks\<close>

definition GETBIT :: "Mask list \<Rightarrow> CARD16 \<Rightarrow> bool" where
  "GETBIT buf i \<longleftrightarrow> buf ! (unat i div 32) AND push_bit (unat i mod 32) 1 \<noteq> 0"

definition BITCLEAR :: "Mask list \<Rightarrow> CARD16 \<Rightarrow> Mask list" where
  "BITCLEAR buf i =
     buf[unat i div 32 := buf ! (unat i div 32) AND NOT (push_bit (unat i mod 32) 1)]"

definition DeleteDetailFromMask ::
    "Mask list option \<Rightarrow> CARD16 \<Rightarrow> grab_state \<Rightarrow> Mask list option \<times> grab_state" where
  "DeleteDetailFromMask pDetailMask det st =
     (case xalloc st of (ok, st1) \<Rightarrow>
        if ok
        then (Some (BITCLEAR (case pDetailMask of
                                Some ws \<Rightarrow> take MasksPerDetailMask ws
                              | None \<Rightarrow> replicate MasksPerDetailMask (NOT 0)) det), st1)
        else (None, st1))"

subsection \<open>Comparing grabs\<close>

definition IsInGrabMask :: "DetailRec \<Rightarrow> DetailRec \<Rightarrow> CARD16 \<Rightarrow> bool" where
  "IsInGrabMask fstDetail sndDetail exception =
     (if exact fstDetail = exception
      then (case pMask fstDetail of
              None \<Rightarrow> True
            | Some ws \<Rightarrow> if exact sndDetail = exception then False else GETBIT ws (exact sndDetail))
      else False)"

definition IdenticalExactDetails :: "CARD16 \<Rightarrow> CARD16 \<Rightarrow> CARD16 \<Rightarrow> bool" where
  "IdenticalExactDetails fstExact sndExact exception =
     (if fstExact = exception \<or> sndExact = exception then False else fstExact = sndExact)"

definition DetailSupersedesSecond :: "DetailRec \<Rightarrow> DetailRec \<Rightarrow> CARD16 \<Rightarrow> bool" where
  "DetailSupersedesSecond fstDetail sndDetail exception =
     (IsInGrabMask fstDetail sndDetail exception \<or>
      IdenticalExactDetails (exact fstDetail) (exact sndDetail) exception)"

definition GrabSupersedesSecond :: "GrabRec \<Rightarrow> GrabRec \<Rightarrow> bool" where
  "GrabSupersedesSecond g1 g2 =
     (if \<not> DetailSupersedesSecond (modifiersDetail g1) (modifiersDetail g2) AnyModifier then False
      else DetailSupersedesSecond (detail g1) (detail g2) AnyKey)"

definition GrabMatchesSecond :: "GrabRec \<Rightarrow> GrabRec \<Rightarrow> bool" where
  "GrabMatchesSecond g1 g2 =
     (if device g1 \<noteq> device g2 \<or> modifierDevice g1 \<noteq> modifierDevice g2 \<or> grab_type g1 \<noteq> grab_type g2 then False
      else if GrabSupersedesSecond g1 g2 \<or> GrabSupersedesSecond g2 g1 then True
      else if DetailSupersedesSecond (detail g2) (detail g1) AnyKey \<and>
              DetailSupersedesSecond (modifiersDetail g1) (modifiersDetail g2) AnyModifier then True
      else DetailSupersedesSecond (detail g1) (detail g2) AnyKey \<and>
           DetailSupersedesSecond (modifiersDetail g2) (modifiersDetail g1) AnyModifier)"

subsection \<open>Creating and freeing\<close>

definition FreeGrab :: "GrabRec \<Rightarrow> grab_state \<Rightarrow> grab_state" where
  "FreeGrab g st =
     (case cursor g of
        None \<Rightarrow> st
      | Some c \<Rightarrow> st\<lparr>refcnt := (refcnt st)(c := refcnt st c - 1)\<rparr>)"

definition CreateGrab ::
    "nat \<Rightarrow> nat \<Rightarrow> XID \<Rightarrow> Mask \<Rightarrow> bool \<Rightarrow> bool \<Rightarrow> bool \<Rightarrow> nat \<Rightarrow> CARD16 \<Rightarrow> CARD8 \<Rightarrow> CARD16 \<Rightarrow> XID option \<Rightarrow>
     nat option \<Rightarrow> grab_state \<Rightarrow> (GrabRec option \<times> grab_state) option" where
  "CreateGrab client dev win evMask owner kbMode ptrMode modDev modifiers ty keybut confine curs st =
     (case xalloc st of (ok, st1) \<Rightarrow>
        if \<not> ok then Some (None, st1)
        else (case FakeClientID (db st1) client of
               None \<Rightarrow> None
             | Some (xid, _, d) \<Rightarrow>
                 Some (Some \<lparr>address = next_address st1, resource = xid, device = dev, window = win,
                         ownerEvents = owner, keyboardMode = kbMode, pointerMode = ptrMode,
                         coreGrab = (dev = core_keyboard st1 \<or> dev = core_pointer st1),
                         coreMods = (modDev = core_keyboard st1 \<or> modDev = core_pointer st1),
                         grab_type = ty, modifiersDetail = \<lparr>exact = modifiers, pMask = None\<rparr>,
                         modifierDevice = modDev, detail = \<lparr>exact = keybut, pMask = None\<rparr>,
                         confineTo = confine, cursor = curs, eventMask = evMask\<rparr>,
                       st1\<lparr>db := d, next_address := next_address st1 + 1,
                         refcnt := (case curs of None \<Rightarrow> refcnt st1
                                    | Some c \<Rightarrow> (refcnt st1)(c := refcnt st1 c + 1))\<rparr>)))"

text \<open>
  The delete function of the resource type: it takes the grab off its window, where it need not be,
  and frees it. Only taking off the head can leave the list empty.
\<close>

fun remove_grab :: "nat \<Rightarrow> GrabRec list \<Rightarrow> GrabRec list" where
  "remove_grab a [] = []"
| "remove_grab a (g # gs) = (if address g = a then gs else g # remove_grab a gs)"

definition DeletePassiveGrab_proc :: "GrabRec \<Rightarrow> grab_state \<Rightarrow> grab_state" where
  "DeletePassiveGrab_proc g st = FreeGrab g
     (case passiveGrabs st (window g) of
        None \<Rightarrow> st
      | Some gs \<Rightarrow>
          (let gs' = remove_grab (address g) gs
           in if gs \<noteq> [] \<and> gs' = [] \<and> \<not> otherwise_kept st (window g) then set_grabs (window g) None st
              else set_grabs (window g) (Some gs') st))"

text \<open>
  Adding the grab to the database and freeing it there; the delete function runs when adding fails
  and when the resource is freed. The grab is the only resource under its id.
\<close>

definition add_grab_resource :: "GrabRec \<Rightarrow> grab_state \<Rightarrow> (bool \<times> grab_state) option" where
  "add_grab_resource g st =
     (case xalloc st of (rebuild_ok, st1) \<Rightarrow>
        (case xalloc st1 of (alloc_ok, st2) \<Rightarrow>
          (case AddResource (\<lambda>_ _ _ d. d) rebuild_ok alloc_ok (resource g) RT_PASSIVEGRAB (address g) (db st2) of
            None \<Rightarrow> None
          | Some (ok, d) \<Rightarrow>
              Some (ok, if ok then st2\<lparr>db := d\<rparr> else DeletePassiveGrab_proc g (st2\<lparr>db := d\<rparr>)))))"

definition free_grab_resource :: "GrabRec \<Rightarrow> grab_state \<Rightarrow> grab_state option" where
  "free_grab_resource g st =
     (case FreeResource (\<lambda>_ _ _ d. d) (resource g) RT_NONE (db st) of
        None \<Rightarrow> None
      | Some (_, d) \<Rightarrow> Some (DeletePassiveGrab_proc g (st\<lparr>db := d\<rparr>)))"

fun free_grab_resources :: "GrabRec list \<Rightarrow> grab_state \<Rightarrow> grab_state option" where
  "free_grab_resources [] st = Some st"
| "free_grab_resources (g # gs) st =
     (case free_grab_resource g st of None \<Rightarrow> None | Some st1 \<Rightarrow> free_grab_resources gs st1)"

subsection \<open>Adding a grab to a window\<close>

definition AddPassiveGrabToList :: "GrabRec \<Rightarrow> grab_state \<Rightarrow> (xstatus \<times> grab_state) option" where
  "AddPassiveGrabToList g st =
     (if \<exists>h \<in> set (wPassiveGrabs st (window g)).
           GrabMatchesSecond g h \<and> CLIENT_BITS (resource g) \<noteq> CLIENT_BITS (resource h)
      then Some (BadAccess, FreeGrab g st)
      else case make_optional (window g) st of (ok, st1) \<Rightarrow>
        if \<not> ok then Some (BadAlloc, FreeGrab g st1)
        else (case add_grab_resource g (set_grabs (window g) (Some (g # wPassiveGrabs st1 (window g))) st1) of
               None \<Rightarrow> None
             | Some (ok, st2) \<Rightarrow> Some (if ok then Success else BadAlloc, st2)))"

subsection \<open>Taking keys and modifiers out of the grabs of a window\<close>

text \<open>
  What the loop collects: grabs to delete, grabs to add, and new masks for the detail (\<open>True\<close>) or the
  modifiers of the grab at an address.
\<close>

record deletion =
  del_ok :: bool
  deletes :: "GrabRec list"
  adds :: "GrabRec list"
  updates :: "(nat \<times> bool \<times> Mask list) list"
  del_st :: grab_state

definition UPDATE :: "bool \<Rightarrow> GrabRec \<Rightarrow> CARD16 \<Rightarrow> deletion \<Rightarrow> deletion" where
  "UPDATE in_detail g value acc =
     (case DeleteDetailFromMask (pMask (if in_detail then detail g else modifiersDetail g)) value (del_st acc) of
        (None, st1) \<Rightarrow> acc\<lparr>del_ok := False, del_st := st1\<rparr>
      | (Some ws, st1) \<Rightarrow> acc\<lparr>updates := updates acc @ [(address g, in_detail, ws)], del_st := st1\<rparr>)"

text \<open>The new grab for the key alone with the other modifiers.\<close>

definition split_grab :: "GrabRec \<Rightarrow> GrabRec \<Rightarrow> deletion \<Rightarrow> deletion option" where
  "split_grab minuend g acc =
     (case CreateGrab (CLIENT_ID (resource g)) (device g) (window g) (eventMask g) (ownerEvents g)
             (keyboardMode g) (pointerMode g) (modifierDevice g) AnyModifier (grab_type g)
             (exact (detail minuend)) (confineTo g) (cursor g) (del_st acc) of
        None \<Rightarrow> None
      | Some (None, st1) \<Rightarrow> Some (acc\<lparr>del_ok := False, del_st := st1\<rparr>)
      | Some (Some new, st1) \<Rightarrow>
          (case DeleteDetailFromMask (pMask (modifiersDetail g)) (exact (modifiersDetail minuend)) st1 of
             (None, st2) \<Rightarrow> Some (acc\<lparr>del_ok := False, del_st := FreeGrab new st2\<rparr>)
           | (Some ws, st2) \<Rightarrow>
               (let new' = new\<lparr>modifiersDetail := (modifiersDetail new)\<lparr>pMask := Some ws\<rparr>\<rparr>
                in case make_optional (window new') st2 of (opt, st3) \<Rightarrow>
                     if \<not> opt then Some (acc\<lparr>del_ok := False, del_st := FreeGrab new' st3\<rparr>)
                     else (case add_grab_resource new' st3 of
                            None \<Rightarrow> None
                          | Some (False, st4) \<Rightarrow> Some (acc\<lparr>del_ok := False, del_st := st4\<rparr>)
                          | Some (True, st4) \<Rightarrow> Some (acc\<lparr>adds := adds acc @ [new'], del_st := st4\<rparr>)))))"

definition delete_step :: "GrabRec \<Rightarrow> GrabRec \<Rightarrow> deletion \<Rightarrow> deletion option" where
  "delete_step minuend g acc =
     (if CLIENT_BITS (resource g) \<noteq> CLIENT_BITS (resource minuend) \<or> \<not> GrabMatchesSecond g minuend then Some acc
      else if GrabSupersedesSecond minuend g then Some (acc\<lparr>deletes := deletes acc @ [g]\<rparr>)
      else if exact (detail g) = AnyKey \<and> exact (modifiersDetail g) \<noteq> AnyModifier
      then Some (UPDATE True g (exact (detail minuend)) acc)
      else if exact (modifiersDetail g) = AnyModifier \<and> exact (detail g) \<noteq> AnyKey
      then Some (UPDATE False g (exact (modifiersDetail minuend)) acc)
      else if exact (detail minuend) \<noteq> AnyKey \<and> exact (modifiersDetail minuend) \<noteq> AnyModifier
      then split_grab minuend g (UPDATE True g (exact (detail minuend)) acc)
      else if exact (detail minuend) = AnyKey
      then Some (UPDATE False g (exact (modifiersDetail minuend)) acc)
      else Some (UPDATE True g (exact (detail minuend)) acc))"

fun delete_scan :: "GrabRec \<Rightarrow> GrabRec list \<Rightarrow> deletion \<Rightarrow> deletion option" where
  "delete_scan minuend [] acc = Some acc"
| "delete_scan minuend (g # gs) acc =
     (if \<not> del_ok acc then Some acc
      else case delete_step minuend g acc of None \<Rightarrow> None | Some acc1 \<Rightarrow> delete_scan minuend gs acc1)"

text \<open>Linking the new grabs in; \<open>None\<close> when the window had lost its optional record.\<close>

fun link_grabs :: "GrabRec list \<Rightarrow> grab_state \<Rightarrow> grab_state option" where
  "link_grabs [] st = Some st"
| "link_grabs (g # gs) st =
     (case passiveGrabs st (window g) of
        None \<Rightarrow> None
      | Some hs \<Rightarrow> link_grabs gs (set_grabs (window g) (Some (g # hs)) st))"

definition update_grab :: "nat \<times> bool \<times> Mask list \<Rightarrow> GrabRec \<Rightarrow> GrabRec" where
  "update_grab u g =
     (case u of (a, in_detail, ws) \<Rightarrow>
        if address g \<noteq> a then g
        else if in_detail then g\<lparr>detail := (detail g)\<lparr>pMask := Some ws\<rparr>\<rparr>
        else g\<lparr>modifiersDetail := (modifiersDetail g)\<lparr>pMask := Some ws\<rparr>\<rparr>)"

definition apply_updates :: "XID \<Rightarrow> (nat \<times> bool \<times> Mask list) list \<Rightarrow> grab_state \<Rightarrow> grab_state" where
  "apply_updates w us st = set_grabs w (map_option (map (fold update_grab us)) (passiveGrabs st w)) st"

definition DeletePassiveGrabFromList :: "GrabRec \<Rightarrow> grab_state \<Rightarrow> (bool \<times> grab_state) option" where
  "DeletePassiveGrabFromList minuend st =
     (let gs = wPassiveGrabs st (window minuend)
      in if gs = [] then Some (True, st)
         else case xalloc st of (locals_ok, st1) \<Rightarrow>
           if \<not> locals_ok then Some (False, st1)
           else (case delete_scan minuend gs
                       \<lparr>del_ok = True, deletes = [], adds = [], updates = [], del_st = st1\<rparr> of
                  None \<Rightarrow> None
                | Some acc \<Rightarrow>
                    if \<not> del_ok acc
                    then map_option (Pair False) (free_grab_resources (adds acc) (del_st acc))
                    else (case free_grab_resources (deletes acc) (del_st acc) of
                           None \<Rightarrow> None
                         | Some st2 \<Rightarrow>
                             map_option (\<lambda>st3. (True, apply_updates (window minuend) (updates acc) st3))
                               (link_grabs (adds acc) st2))))"

end
