(* ===== verification/ResourceProofs.thy ===== *)
theory ResourceProofs
  imports Resources "HOL-Library.Sublist" "HOL-Library.Multiset"
begin

text \<open>
  Correctness of the resource database. The abstraction \<open>entries\<close> of a state maps each id to
  the stack of its resources, newest first; hashing and rebuilding do not show in it. Delete
  functions are only assumed to remove resources (\<open>well_behaved\<close>).
\<close>

subsection \<open>Well-formed tables\<close>

definition table_wf :: "nat \<Rightarrow> ClientResourceRec \<Rightarrow> bool" where
  "table_wf c t \<longleftrightarrow> buckets t \<noteq> 0 \<longrightarrow>
     6 \<le> hashsize t \<and> hashsize t \<le> 11 \<and> buckets t = 2 ^ hashsize t \<and>
     length (resources t) = buckets t \<and>
     (\<forall>j < buckets t. \<forall>r \<in> set (resources t ! j).
        bucket t (res_id r) = j \<and> CLIENT_ID (res_id r) = c)"

definition db_wf :: "dix_state \<Rightarrow> bool" where
  "db_wf st \<longleftrightarrow> (\<forall>c < MAXCLIENTS. table_wf c (clientTable st c))"

definition stack :: "ClientResourceRec \<Rightarrow> XID \<Rightarrow> ResourceRec list" where
  "stack t xid = filter (\<lambda>r. res_id r = xid) (concat (resources t))"

definition entries :: "dix_state \<Rightarrow> XID \<Rightarrow> (RESTYPE \<times> pointer) list" where
  "entries st xid =
     (let t = clientTable st (CLIENT_ID xid)
      in if buckets t = 0 then [] else map (\<lambda>r. (res_type r, res_value r)) (stack t xid))"

lemma and_mask_bound: "nat (uint (m AND (w :: 32 word))) \<le> unat m"
proof -
  have "m AND w \<le> m" by (simp add: word_and_le2)
  then show ?thesis by (simp add: word_le_nat_alt)
qed

lemma bucket_bound: "6 \<le> hashsize t \<Longrightarrow> hashsize t \<le> 11 \<Longrightarrow> bucket t xid < 2 ^ hashsize t"
proof -
  assume h: "6 \<le> hashsize t" "hashsize t \<le> 11"
  have b: "nat (uint (m AND (w :: 32 word))) < Suc (unat m)" for m w
    using and_mask_bound [of m w] by simp
  consider "hashsize t = 6" | "hashsize t = 7" | "hashsize t = 8" | "hashsize t = 9"
    | "hashsize t = 10" | "hashsize t = 11" using h by linarith
  then show ?thesis
    using b [of "0x03F"] b [of "0x07F"] b [of "0x0FF"] b [of "0x1FF"] b [of "0x3FF"] b [of "0x7FF"]
    by cases (simp_all add: bucket_def Hash_def Let_def)
qed

lemma CLIENT_ID_bound: "CLIENT_ID xid < MAXCLIENTS"
proof -
  have "CLIENT_BITS xid \<le> RESOURCE_CLIENT_MASK" by (simp add: CLIENT_BITS_def word_and_le1)
  then have "unat (CLIENT_BITS xid) \<le> unat RESOURCE_CLIENT_MASK" by (simp add: word_le_nat_alt)
  then have "unat (CLIENT_BITS xid) div 2 ^ 21 \<le> unat RESOURCE_CLIENT_MASK div 2 ^ 21"
    by (rule div_le_mono)
  also have "unat RESOURCE_CLIENT_MASK div 2 ^ 21 = 255"
    by (simp add: RESOURCE_CLIENT_MASK_def CLIENTOFFSET_def)
  finally show ?thesis
    by (simp add: CLIENT_ID_def MAXCLIENTS_def CLIENTOFFSET_def unat_drop_bit_eq drop_bit_eq_div unat_div)
qed

lemma filter_concat_at:
  "j < length cs \<Longrightarrow> (\<And>k. k < length cs \<Longrightarrow> k \<noteq> j \<Longrightarrow> filter P (cs ! k) = []) \<Longrightarrow>
   filter P (concat cs) = filter P (cs ! j)"
proof (induction cs arbitrary: j)
  case (Cons c cs)
  show ?case
  proof (cases j)
    case 0
    have "filter P d = []" if "d \<in> set cs" for d
    proof -
      from that obtain k where "k < length cs" "d = cs ! k" by (auto simp: in_set_conv_nth)
      with Cons.prems(2) [of "Suc k"] 0 show ?thesis by simp
    qed
    then have "filter P (concat cs) = []" by (induction cs) auto
    with 0 show ?thesis by simp
  next
    case (Suc i)
    have "filter P (concat cs) = filter P (cs ! i)"
      using Cons.prems Suc by (intro Cons.IH) force+
    moreover have "filter P c = []" using Cons.prems(2) [of 0] Suc by simp
    ultimately show ?thesis using Suc by simp
  qed
qed simp

lemma chain_stack:
  assumes "table_wf c t" "buckets t \<noteq> 0"
  shows "bucket t xid < length (resources t)" "filter (\<lambda>r. res_id r = xid) (chain t xid) = stack t xid"
proof -
  have wf: "6 \<le> hashsize t" "hashsize t \<le> 11" "buckets t = 2 ^ hashsize t"
    "length (resources t) = buckets t" "\<forall>j < buckets t. \<forall>r \<in> set (resources t ! j). bucket t (res_id r) = j"
    using assms by (auto simp: table_wf_def)
  then show l: "bucket t xid < length (resources t)" using bucket_bound [OF wf(1,2)] by simp
  have "filter (\<lambda>r. res_id r = xid) (resources t ! k) = []"
    if "k < length (resources t)" "k \<noteq> bucket t xid" for k
    using that wf(4,5) by (auto simp: filter_empty_conv)
  from filter_concat_at [OF l this] show "filter (\<lambda>r. res_id r = xid) (chain t xid) = stack t xid"
    by (simp add: chain_def stack_def)
qed

lemma find_filter: "find (\<lambda>x. P x \<and> Q x) xs = find Q (filter P xs)"
  by (induction xs) auto

lemma find_map: "find P (map f xs) = map_option f (find (P \<circ> f) xs)"
  by (induction xs) auto

text \<open>The two lookups on the abstract stacks.\<close>

lemma LookupIDByType_aux:
  assumes "db_wf st"
  shows "LookupIDByType st xid rtype =
    (case find (\<lambda>(t, _). t = rtype) (entries st xid) of Some (_, v) \<Rightarrow> v | None \<Rightarrow> 0)"
proof -
  let ?t = "clientTable st (CLIENT_ID xid)"
  have wf: "table_wf (CLIENT_ID xid) ?t" using assms CLIENT_ID_bound by (simp add: db_wf_def)
  have "find (\<lambda>r. res_id r = xid \<and> res_type r = rtype) (chain ?t xid) =
      find (\<lambda>r. res_type r = rtype) (stack ?t xid)" if "buckets ?t \<noteq> 0"
    using chain_stack(2) [OF wf that] by (simp add: find_filter)
  then show ?thesis
    using CLIENT_ID_bound [of xid]
    by (auto simp: LookupIDByType_def Let_def entries_def find_map comp_def split: option.splits)
qed

lemma LookupIDByClass_aux:
  assumes "db_wf st"
  shows "LookupIDByClass st xid classes =
    (case find (\<lambda>(t, _). t AND classes \<noteq> 0) (entries st xid) of Some (_, v) \<Rightarrow> v | None \<Rightarrow> 0)"
proof -
  let ?t = "clientTable st (CLIENT_ID xid)"
  have wf: "table_wf (CLIENT_ID xid) ?t" using assms CLIENT_ID_bound by (simp add: db_wf_def)
  have "find (\<lambda>r. res_id r = xid \<and> res_type r AND classes \<noteq> 0) (chain ?t xid) =
      find (\<lambda>r. res_type r AND classes \<noteq> 0) (stack ?t xid)" if "buckets ?t \<noteq> 0"
    using chain_stack(2) [OF wf that] by (simp add: find_filter)
  then show ?thesis
    using CLIENT_ID_bound [of xid]
    by (auto simp: LookupIDByClass_def Let_def entries_def find_map comp_def split: option.splits)
qed

subsection \<open>Adding and rebuilding\<close>

lemma fold_place:
  "\<forall>r \<in> set rs. bucket t (res_id r) < length cs \<Longrightarrow>
   length (fold (place t) rs cs) = length cs \<and>
   (\<forall>j < length cs. fold (place t) rs cs ! j = cs ! j @ filter (\<lambda>r. bucket t (res_id r) = j) rs)"
proof (induction rs arbitrary: cs)
  case (Cons r rs)
  have "length (place t r cs) = length cs" by (simp add: place_def)
  with Cons show ?case by (auto simp: place_def nth_list_update)
qed simp

lemma bucket_cong: "hashsize t = hashsize t' \<Longrightarrow> bucket t = bucket t'"
  by (auto simp: bucket_def Hash_def Let_def fun_eq_iff)

lemma in_concat_nth: "r \<in> set (concat cs) \<longleftrightarrow> (\<exists>j < length cs. r \<in> set (cs ! j))"
  by (simp add: Bex_def) (metis in_set_conv_nth)

lemma mset_concat_update:
  "j < length cs \<Longrightarrow> mset (concat (cs[j := d])) + mset (cs ! j) = mset (concat cs) + mset d"
  by (induction cs arbitrary: j) (auto split: nat.splits)

lemma RebuildTable_wf:
  assumes wf: "table_wf c t" and b: "buckets t \<noteq> 0" and h: "hashsize t < MAXHASHSIZE"
  shows "table_wf c (RebuildTable ok t) \<and> stack (RebuildTable ok t) = stack t \<and>
    buckets (RebuildTable ok t) \<noteq> 0 \<and> elements (RebuildTable ok t) = elements t \<and>
    length (concat (resources (RebuildTable ok t))) = length (concat (resources t)) \<and>
    expectID (RebuildTable ok t) = expectID t"
proof (cases ok)
  case True
  let ?t = "t\<lparr>hashsize := hashsize t + 1\<rparr>" and ?n = "2 * buckets t"
  let ?rs = "concat (resources t)"
  let ?cs = "fold (place ?t) ?rs (replicate ?n [])"
  have t: "6 \<le> hashsize t" "hashsize t \<le> 11" "buckets t = 2 ^ hashsize t"
    "\<forall>r \<in> set ?rs. CLIENT_ID (res_id r) = c"
    using wf b unfolding in_concat_nth Ball_def by (auto simp: table_wf_def)
  have n: "?n = 2 ^ hashsize ?t" using t(3) by simp
  have bound: "bucket ?t x < ?n" for x
    unfolding n using t(1) h by (intro bucket_bound) (simp_all add: MAXHASHSIZE_def)
  have cs: "length ?cs = ?n" "\<forall>j < ?n. ?cs ! j = filter (\<lambda>r. bucket ?t (res_id r) = j) ?rs"
    using fold_place [of ?rs ?t "replicate ?n []"] bound by simp_all
  let ?r = "RebuildTable True t"
  have r: "resources ?r = ?cs" "buckets ?r = ?n" "hashsize ?r = hashsize ?t" "elements ?r = elements t"
    "expectID ?r = expectID t"
    by (simp_all add: RebuildTable_def Let_def)
  have bc: "bucket ?r = bucket ?t" by (rule bucket_cong) (simp add: r)
  have same: "filter (\<lambda>r. P r) (concat ?cs) = filter P ?rs"
    if "\<forall>r \<in> set ?rs. P r \<longrightarrow> bucket ?t (res_id r) = j" "j < ?n" for P j
  proof -
    have "filter P (concat ?cs) = filter P (?cs ! j)"
      using that cs by (intro filter_concat_at) (auto simp: filter_empty_conv)
    also have "\<dots> = filter P ?rs"
      using cs(2) that by (auto intro!: filter_cong)
    finally show ?thesis .
  qed
  have "stack ?r x = stack t x" for x
    using same [of "\<lambda>r. res_id r = x" "bucket ?t x"] bound by (simp add: stack_def r)
  moreover have set: "set (concat ?cs) = set ?rs"
  proof (intro set_eqI iffI)
    fix a assume "a \<in> set (concat ?cs)"
    then obtain d where "d \<in> set ?cs" "a \<in> set d" by auto
    then obtain j where "j < ?n" "a \<in> set (?cs ! j)" using cs(1) by (auto simp: in_set_conv_nth)
    with cs(2) show "a \<in> set ?rs" by simp
  next
    fix a assume a: "a \<in> set ?rs"
    let ?j = "bucket ?t (res_id a)"
    have "a \<in> set (?cs ! ?j)" using a cs(2) bound by simp
    moreover have "?cs ! ?j \<in> set ?cs" using bound cs(1) by simp
    ultimately show "a \<in> set (concat ?cs)" by (auto simp only: set_concat)
  qed
  moreover have "length (concat ?cs) = length ?rs"
  proof -
    have "mset (concat (fold (place ?t) rs cs)) = mset (concat cs) + mset rs"
      if "\<forall>r \<in> set rs. bucket ?t (res_id r) < length cs" for rs cs
      using that
    proof (induction rs arbitrary: cs)
      case (Cons r rs)
      let ?j = "bucket ?t (res_id r)"
      have j: "?j < length cs" using Cons.prems by simp
      have "mset (concat (place ?t r cs)) = mset (concat cs) + {#r#}"
        using mset_concat_update [OF j, of "cs ! ?j @ [r]"] by (simp add: place_def)
      with Cons show ?case by (simp add: place_def)
    qed simp
    from this [of ?rs "replicate ?n []"] bound have "mset (concat ?cs) = mset ?rs" by simp
    then show ?thesis by (rule mset_eq_length)
  qed
  ultimately show ?thesis
    using True t h cs bc n by (auto simp: table_wf_def r MAXHASHSIZE_def fun_eq_iff)
next
  case False
  with wf b show ?thesis by (simp add: RebuildTable_def)
qed

lemma stack_via_chain:
  "table_wf c t \<Longrightarrow> buckets t \<noteq> 0 \<Longrightarrow> stack t xid = filter (\<lambda>r. res_id r = xid) (chain t xid)"
  by (simp add: chain_stack)

text \<open>Pushing a node on its chain.\<close>

lemma push_wf:
  assumes wf: "table_wf c t" "buckets t \<noteq> 0" and c: "CLIENT_ID (res_id r) = c"
    and t': "t' = t\<lparr>resources := (resources t)[bucket t (res_id r) := r # resources t ! bucket t (res_id r)],
                     elements := n, expectID := e\<rparr>"
  shows "table_wf c t' \<and> stack t' = (stack t)(res_id r := r # stack t (res_id r)) \<and>
    length (concat (resources t')) = length (concat (resources t)) + 1"
proof -
  let ?h = "bucket t (res_id r)"
  have h: "?h < length (resources t)" by (rule chain_stack(1) [OF wf])
  have b: "bucket t' = bucket t" by (rule bucket_cong) (simp add: t')
  have nth: "j < length (resources t) \<Longrightarrow>
      resources t' ! j = (if j = ?h then r # resources t ! ?h else resources t ! j)" for j
    by (simp add: t' nth_list_update)
  have "table_wf c t'"
    using wf c h nth unfolding table_wf_def b by (auto simp: t' b nth_list_update split: if_splits)
  moreover from this have "stack t' x = ((stack t)(res_id r := r # stack t (res_id r))) x" for x
    using stack_via_chain [of c t' x] stack_via_chain [OF wf] nth chain_stack(1) [OF wf, of x] wf(2)
    by (auto simp: chain_def b) (auto simp: t')
  moreover have "length (concat (resources t')) = length (concat (resources t)) + 1"
    using arg_cong [OF mset_concat_update [OF h, of "r # resources t ! ?h"], of size]
    by (simp add: t')
  ultimately show ?thesis by blast
qed

lemma db_wf_table: "db_wf st \<Longrightarrow> table_wf (CLIENT_ID xid) (clientTable st (CLIENT_ID xid))"
  using CLIENT_ID_bound by (simp add: db_wf_def)

lemma set_table_simps [simp]:
  "clientTable (set_table c t st) = (clientTable st)(c := t)"
  "clients (set_table c t st) = clients st" "rootWindowID (set_table c t st) = rootWindowID st"
  "currentMaxClients (set_table c t st) = currentMaxClients st"
  by (simp_all add: set_table_def)

lemma db_wf_set: "db_wf st \<Longrightarrow> table_wf c t \<Longrightarrow> db_wf (set_table c t st)"
  by (simp add: db_wf_def)

lemma AddResource_aux:
  assumes wf: "db_wf st" and used: "buckets (clientTable st (CLIENT_ID xid)) \<noteq> 0"
  shows "\<exists>st'. AddResource call rok True xid rtype val st = Some (True, st') \<and> db_wf st' \<and>
    entries st' = (entries st)(xid := (rtype, val) # entries st xid)"
proof -
  let ?c = "CLIENT_ID xid"
  let ?t = "clientTable st ?c"
  define t1 where "t1 = (if elements ?t \<ge> 4 * int (buckets ?t) \<and> hashsize ?t < MAXHASHSIZE
      then RebuildTable rok ?t else ?t)"
  have t1: "table_wf ?c t1" "stack t1 = stack ?t" "buckets t1 \<noteq> 0"
    using RebuildTable_wf [OF db_wf_table [OF wf] used] db_wf_table [OF wf] used
    by (auto simp: t1_def)
  let ?r = "\<lparr>res_id = xid, res_type = rtype, res_value = val\<rparr>"
  define t2 where "t2 = t1\<lparr>resources := (resources t1)[bucket t1 xid := ?r # resources t1 ! bucket t1 xid],
      elements := elements t1 + 1\<rparr>"
  define t3 where "t3 = (if xid AND SERVER_BIT = 0 \<and> xid \<ge> expectID t2 then t2\<lparr>expectID := xid + 1\<rparr> else t2)"
  have "t3 = t1\<lparr>resources := (resources t1)[bucket t1 (res_id ?r) := ?r # resources t1 ! bucket t1 (res_id ?r)],
      elements := elements t1 + 1, expectID := expectID t3\<rparr>"
    by (simp add: t3_def t2_def)
  note p = push_wf [OF t1(1,3) _ this]
  have t3: "table_wf ?c t3" "stack t3 = (stack ?t)(xid := ?r # stack ?t xid)" "buckets t3 \<noteq> 0"
    using p t1(2,3) by (simp_all add: t3_def t2_def)
  have "AddResource call rok True xid rtype val st = Some (True, set_table ?c t3 st)"
    using used by (simp add: AddResource_def Let_def t3_def t2_def t1_def)
  moreover have "entries (set_table ?c t3 st) x = ((entries st)(xid := (rtype, val) # entries st xid)) x" for x
    using t3(2,3) used by (simp add: entries_def Let_def)
  ultimately show ?thesis using db_wf_set [OF wf t3(1)] by blast
qed

text \<open>
  C11. Adding: for a client in use and a successful allocation \<open>AddResource\<close> pushes the resource
  on the stack of its id, whether or not it first doubles the hash table, leaves every other id
  alone and keeps the database well-formed.
\<close>

theorem AddResource_pushes:
  assumes "db_wf st" "buckets (clientTable st (CLIENT_ID xid)) \<noteq> 0"
  shows "\<exists>st'. AddResource call rok True xid rtype val st = Some (True, st') \<and> db_wf st' \<and>
    entries st' = (entries st)(xid := (rtype, val) # entries st xid)"
  by (rule AddResource_aux [OF assms])

definition empty_client :: ClientResourceRec where
  "empty_client = \<lparr>resources = [], elements = 0, buckets = 0, hashsize = 0, fakeID = 0,
     endFakeID = 0, expectID = 0\<rparr>"

definition db_example :: dix_state where
  "db_example = snd (InitClientResources True True 1 (snd (InitClientResources True True 0
     \<lparr>clientTable = (\<lambda>_. empty_client), clients = (\<lambda>_. None), currentMaxClients = 2,
      rootWindow = 1, rootWindowID = 40, lastResourceType = 0, lastResourceClass = 0,
      TypeMask = 0, DeleteFuncs = []\<rparr>)))"

lemma InitClientResources_wf:
  assumes "db_wf st" "i < MAXCLIENTS"
  shows "db_wf (snd (InitClientResources True True i st))"
    "buckets (clientTable (snd (InitClientResources True True i st)) i) = INITBUCKETS"
    "resources (clientTable (snd (InitClientResources True True i st)) i) = replicate INITBUCKETS []"
proof -
  have "table_wf i \<lparr>resources = replicate INITBUCKETS [], elements = 0, buckets = INITBUCKETS,
      hashsize = INITHASHSIZE, fakeID = f, endFakeID = g, expectID = e\<rparr>" for f g e
    by (auto simp: table_wf_def INITBUCKETS_def INITHASHSIZE_def)
  moreover have "db_wf st'" if "clientTable st' = clientTable st" for st'
    using assms(1) that by (simp add: db_wf_def)
  ultimately show "db_wf (snd (InitClientResources True True i st))"
    unfolding InitClientResources_def Let_def simp_thms if_True if_False snd_conv
    by (intro db_wf_set) auto
  show "buckets (clientTable (snd (InitClientResources True True i st)) i) = INITBUCKETS"
    "resources (clientTable (snd (InitClientResources True True i st)) i) = replicate INITBUCKETS []"
    by (simp_all add: InitClientResources_def Let_def)
qed

lemma db_example_wf: "db_wf db_example" "buckets (clientTable db_example (Suc 0)) = 64"
proof -
  have "db_wf \<lparr>clientTable = (\<lambda>_. empty_client), clients = (\<lambda>_. None), currentMaxClients = 2,
      rootWindow = 1, rootWindowID = 40, lastResourceType = 0, lastResourceClass = 0,
      TypeMask = 0, DeleteFuncs = []\<rparr>"
    by (simp add: db_wf_def table_wf_def empty_client_def)
  then show "db_wf db_example"
    unfolding db_example_def by (intro InitClientResources_wf(1)) (simp_all add: MAXCLIENTS_def)
  show "buckets (clientTable db_example (Suc 0)) = 64"
    by (simp add: db_example_def InitClientResources_def Let_def INITBUCKETS_def)
qed

lemma CLIENT_ID_example: "CLIENT_ID 0x200005 = 1"
  by (simp add: CLIENT_ID_def CLIENT_BITS_def RESOURCE_CLIENT_MASK_def CLIENTOFFSET_def)

theorem AddResource_pushes_witness:
  "\<exists>st'. AddResource (\<lambda>_ _ _ st. st) True True 0x200005 3 77 db_example = Some (True, st') \<and> db_wf st' \<and>
    entries st' = (entries db_example)(0x200005 := (3, 77) # entries db_example 0x200005)"
  by (rule AddResource_pushes) (simp_all add: db_example_wf CLIENT_ID_example)

text \<open>
  C12. Lookup after adding: \<open>LookupIDByType\<close> finds the value just added under its id and type,
  and every other lookup answers as before.
\<close>

theorem LookupIDByType_AddResource:
  assumes "db_wf st" "AddResource call rok True xid rtype val st = Some (ok, st')"
  shows "LookupIDByType st' xid' rtype' =
    (if xid' = xid \<and> rtype' = rtype then val else LookupIDByType st xid' rtype')"
proof -
  have "buckets (clientTable st (CLIENT_ID xid)) \<noteq> 0"
    using assms(2) by (auto simp: AddResource_def Let_def split: if_splits)
  with AddResource_aux [OF assms(1), of xid call rok rtype val] assms(2)
  have "db_wf st'" "entries st' = (entries st)(xid := (rtype, val) # entries st xid)" by auto
  then show ?thesis
    using LookupIDByType_aux assms(1) by simp
qed

theorem LookupIDByType_AddResource_witness:
  "\<exists>ok st'. AddResource (\<lambda>_ _ _ st. st) True True 0x200005 3 77 db_example = Some (ok, st') \<and>
     LookupIDByType st' 0x200005 3 = 77"
proof -
  obtain st' where "AddResource (\<lambda>_ _ _ st. st) True True 0x200005 3 77 db_example = Some (True, st')"
    using AddResource_aux [OF db_example_wf(1), of "0x200005" "\<lambda>_ _ _ st. st" True 3 77]
    by (auto simp: db_example_wf CLIENT_ID_example)
  with LookupIDByType_AddResource [OF db_example_wf(1) this, of "0x200005" 3] show ?thesis by auto
qed

subsection \<open>Freeing\<close>

definition uncached :: "XID \<Rightarrow> dix_state \<Rightarrow> bool" where
  "uncached xid st \<longleftrightarrow> (\<forall>i < currentMaxClients st. \<forall>c. clients st i = Some c \<longrightarrow> lastDrawableID c \<noteq> xid)"

text \<open>
  What is documented of the delete functions: they may free further resources, any number of
  them and of any client, keeping the element counts in step, and they do not put an id into
  the caches of a client.
\<close>

definition table_shrinks :: "ClientResourceRec \<Rightarrow> ClientResourceRec \<Rightarrow> bool" where
  "table_shrinks t t' \<longleftrightarrow> hashsize t' = hashsize t \<and> buckets t' = buckets t \<and>
     list_all2 subseq (resources t') (resources t) \<and>
     elements t - elements t' = int (length (concat (resources t))) - int (length (concat (resources t')))"

definition shrinks :: "dix_state \<Rightarrow> dix_state \<Rightarrow> bool" where
  "shrinks st st' \<longleftrightarrow> (\<forall>c. table_shrinks (clientTable st c) (clientTable st' c)) \<and>
     rootWindowID st' = rootWindowID st \<and> currentMaxClients st' = currentMaxClients st \<and>
     (\<forall>i. clients st' i = None \<longleftrightarrow> clients st i = None) \<and>
     (\<forall>x. x \<noteq> rootWindowID st \<longrightarrow> uncached x st \<longrightarrow> uncached x st')"

definition well_behaved :: "delete_call \<Rightarrow> bool" where
  "well_behaved call \<longleftrightarrow> (\<forall>d v x st. shrinks st (call d v x st))"

lemma table_shrinks_refl [simp]: "table_shrinks t t"
  by (simp add: table_shrinks_def list_all2_refl)

lemma table_shrinks_trans:
  assumes "table_shrinks t u" "table_shrinks u v" shows "table_shrinks t v"
proof -
  have "list_all2 subseq (resources v) (resources t)"
    by (rule list_all2_trans [of subseq subseq subseq, OF subseq_order.trans])
       (use assms in \<open>auto simp: table_shrinks_def\<close>)
  with assms show ?thesis by (simp add: table_shrinks_def)
qed

lemma shrinks_refl [simp]: "shrinks st st"
  by (simp add: shrinks_def)

lemma shrinks_trans: "shrinks st st' \<Longrightarrow> shrinks st' st'' \<Longrightarrow> shrinks st st''"
  unfolding shrinks_def using table_shrinks_trans by metis

lemma table_shrinks_nth:
  "table_shrinks t t' \<Longrightarrow> h < length (resources t) \<Longrightarrow> subseq (resources t' ! h) (resources t ! h)"
  by (auto simp: table_shrinks_def list_all2_conv_all_nth)

lemma subseq_set: "subseq xs ys \<Longrightarrow> set xs \<subseteq> set ys"
  by (auto dest: list_emb_set)

lemma table_shrinks_wf:
  assumes "table_wf c t" "table_shrinks t t'" shows "table_wf c t'"
proof -
  have b: "bucket t' = bucket t" and l: "length (resources t') = length (resources t)"
    and s: "buckets t' = buckets t" "hashsize t' = hashsize t"
    using assms(2) by (auto simp: table_shrinks_def list_all2_lengthD intro: bucket_cong)
  have "set (resources t' ! h) \<subseteq> set (resources t ! h)" if "h < length (resources t)" for h
    using table_shrinks_nth [OF assms(2) that] subseq_set by blast
  with assms(1) show ?thesis unfolding table_wf_def b l s by fastforce
qed

lemma shrinks_wf: "db_wf st \<Longrightarrow> shrinks st st' \<Longrightarrow> db_wf st'"
  using table_shrinks_wf by (auto simp: db_wf_def shrinks_def)

lemma list_all2_subseq_concat: "list_all2 subseq as bs \<Longrightarrow> subseq (concat as) (concat bs)"
  by (induction rule: list_all2_induct) (auto intro: list_emb_append_mono)

lemma subseq_filter_mono: "subseq xs ys \<Longrightarrow> subseq (filter P xs) (filter P ys)"
  by (rule subseq_filter)

lemma shrinks_entries: "shrinks st st' \<Longrightarrow> subseq (entries st' x) (entries st x)"
proof -
  assume "shrinks st st'"
  then have "table_shrinks (clientTable st (CLIENT_ID x)) (clientTable st' (CLIENT_ID x))"
    by (simp add: shrinks_def)
  then show ?thesis
    by (auto simp: entries_def Let_def table_shrinks_def stack_def
        intro!: subseq_map subseq_filter_mono list_all2_subseq_concat)
qed

text \<open>If no element went away, no chain changed.\<close>

lemma list_all2_subseq_same:
  "list_all2 subseq as bs \<Longrightarrow> length (concat as) = length (concat bs) \<Longrightarrow> as = bs"
proof (induction rule: list_all2_induct)
  case (Cons a as b bs)
  have "length a \<le> length b" "length (concat as) \<le> length (concat bs)"
    using Cons.hyps list_all2_subseq_concat list_emb_length by blast+
  with Cons show ?case using subseq_same_length [of a b] by auto
qed simp

lemma shrinks_same:
  assumes "shrinks st st'" "elements (clientTable st' c) = elements (clientTable st c)"
  shows "resources (clientTable st' c) = resources (clientTable st c)"
proof -
  have "table_shrinks (clientTable st c) (clientTable st' c)" using assms(1) by (simp add: shrinks_def)
  with assms(2) show ?thesis
    by (intro list_all2_subseq_same) (auto simp: table_shrinks_def)
qed

text \<open>Taking one node out of a chain, as \<open>FreeResource\<close> does.\<close>

lemma subseq_remove: "subseq (take i c @ drop (i + 1) c) c"
proof (cases "i < length c")
  case True
  have "subseq (take i c @ drop (Suc i) c) (take i c @ [c ! i] @ drop (Suc i) c)"
    by (intro list_emb_append_mono) auto
  also have "take i c @ [c ! i] @ drop (Suc i) c = c" using id_take_nth_drop [OF True] by simp
  finally show ?thesis by simp
qed simp

lemma unlink_shrinks:
  assumes "h < length (resources (clientTable st cid))" "i < length (resources (clientTable st cid) ! h)"
  shows "shrinks st (add_elements cid (- 1) (unlink cid h i st))"
proof -
  let ?t = "clientTable st cid"
  let ?d = "take i (resources ?t ! h) @ drop (i + 1) (resources ?t ! h)"
  have "list_all2 subseq ((resources ?t)[h := ?d]) (resources ?t)"
    using subseq_remove [of i "resources ?t ! h"] assms(1)
    by (auto simp: list_all2_conv_all_nth nth_list_update)
  moreover have "length (concat ((resources ?t)[h := ?d])) + 1 = length (concat (resources ?t))"
    using arg_cong [OF mset_concat_update [OF assms(1), of ?d], of size] assms(2) by simp
  ultimately have "table_shrinks ?t (?t\<lparr>resources := (resources ?t)[h := ?d], elements := elements ?t + - 1\<rparr>)"
    by (simp add: table_shrinks_def)
  then show ?thesis
    by (simp add: shrinks_def add_elements_def unlink_def Let_def uncached_def)
qed

lemma FlushClientCaches_tables [simp]: "clientTable (FlushClientCaches x st) = clientTable st"
  by (simp add: FlushClientCaches_def split: option.splits)

lemma flush_client_sel:
  "lastDrawableID (flush_client st x c) = (if lastDrawableID c = x then rootWindowID st else lastDrawableID c)"
  by (simp add: flush_client_def)

lemma FlushClientCaches_shrinks: "shrinks st (FlushClientCaches x st)"
  by (auto simp: shrinks_def FlushClientCaches_def uncached_def flush_client_sel split: option.splits if_splits)

lemma FlushClientCaches_uncached:
  "clients st (CLIENT_ID x) \<noteq> None \<Longrightarrow> rootWindowID st \<noteq> x \<Longrightarrow> uncached x (FlushClientCaches x st)"
  by (auto simp: FlushClientCaches_def uncached_def flush_client_sel split: option.splits if_splits)

lemma reset_last_drawable_shrinks: "shrinks st (reset_last_drawable c x st)"
  by (auto simp: shrinks_def reset_last_drawable_def uncached_def split: option.splits if_splits)

definition cached_first :: "XID \<Rightarrow> ResourceRec list \<Rightarrow> bool" where
  "cached_first xid c \<longleftrightarrow>
     (case find (\<lambda>r. res_id r = xid) c of Some r \<Rightarrow> res_type r AND RC_CACHED \<noteq> 0 | None \<Rightarrow> False)"

lemma find_at: "i < length c \<Longrightarrow> P (c ! i) \<Longrightarrow> \<forall>k < i. \<not> P (c ! k) \<Longrightarrow> find P c = Some (c ! i)"
  by (auto simp: find_Some_iff)

lemma shrinks_length:
  assumes "shrinks st st'" "h < length (resources (clientTable st c))"
  shows "length (resources (clientTable st' c)) = length (resources (clientTable st c)) \<and>
    length (resources (clientTable st' c) ! h) \<le> length (resources (clientTable st c) ! h)"
proof -
  have t: "table_shrinks (clientTable st c) (clientTable st' c)" using assms(1) by (simp add: shrinks_def)
  then have "length (resources (clientTable st' c)) = length (resources (clientTable st c))"
    unfolding table_shrinks_def using list_all2_lengthD by blast
  moreover have "length (resources (clientTable st' c) ! h) \<le> length (resources (clientTable st c) ! h)"
    by (rule list_emb_length [OF table_shrinks_nth [OF t assms(2)]])
  ultimately show ?thesis ..
qed

text \<open>
  One removal: the state \<open>st3\<close> after the delete function, and the position at which the scan
  goes on, at which no earlier node carries the id.
\<close>

lemma free_step:
  assumes wb: "well_behaved call" and h: "h < length (resources (clientTable st cid))"
    and i: "i < length (resources (clientTable st cid) ! h)"
    and clean: "\<forall>k < i. res_id (resources (clientTable st cid) ! h ! k) \<noteq> xid"
    and st1: "st1 = add_elements cid (- 1) (unlink cid h i st)"
    and st2: "st2 = (if b then FlushClientCaches xid st1 else st1)"
    and st3: "st3 = (if b' then call d v xid st2 else st2)"
    and i': "i' = (if elements (clientTable st3 cid) \<noteq> elements (clientTable st1 cid) then 0 else i)"
  shows "shrinks st st3" "shrinks st2 st3" "h < length (resources (clientTable st3 cid))"
    "length (resources (clientTable st3 cid) ! h) < length (resources (clientTable st cid) ! h)"
    "\<forall>k < i'. k < length (resources (clientTable st3 cid) ! h) \<longrightarrow>
       res_id (resources (clientTable st3 cid) ! h ! k) \<noteq> xid"
    "shrinks st st2"
proof -
  let ?c = "resources (clientTable st cid) ! h"
  have a: "shrinks st st1" unfolding st1 by (rule unlink_shrinks [OF h i])
  have b: "shrinks st1 st2" by (simp add: st2 FlushClientCaches_shrinks)
  show c: "shrinks st2 st3" using wb by (simp add: st3 well_behaved_def)
  show "shrinks st st3" and "shrinks st st2" using a b c shrinks_trans by blast+
  then show "h < length (resources (clientTable st3 cid))" using shrinks_length h by metis
  have c1: "resources (clientTable st1 cid) ! h = take i ?c @ drop (i + 1) ?c"
    using h by (simp add: st1 add_elements_def unlink_def Let_def)
  have h1: "h < length (resources (clientTable st1 cid))"
    using h by (simp add: st1 add_elements_def unlink_def Let_def)
  have s13: "shrinks st1 st3" using b c shrinks_trans by blast
  have "length (resources (clientTable st3 cid) ! h) \<le> length (resources (clientTable st1 cid) ! h)"
    using shrinks_length [OF s13 h1] by simp
  then show "length (resources (clientTable st3 cid) ! h) < length ?c" using i by (simp add: c1)
  show "\<forall>k < i'. k < length (resources (clientTable st3 cid) ! h) \<longrightarrow>
       res_id (resources (clientTable st3 cid) ! h ! k) \<noteq> xid"
  proof (cases "elements (clientTable st3 cid) = elements (clientTable st1 cid)")
    case True
    then have "resources (clientTable st3 cid) ! h = take i ?c @ drop (i + 1) ?c"
      using shrinks_same [OF s13] c1 by simp
    with clean i True show ?thesis by (auto simp: i' nth_append)
  qed (simp add: i')
qed

lemma free_loop_spec:
  assumes wb: "well_behaved call"
  shows "h < length (resources (clientTable st cid)) \<Longrightarrow>
   \<forall>k < i. k < length (resources (clientTable st cid) ! h) \<longrightarrow> res_id (resources (clientTable st cid) ! h ! k) \<noteq> xid \<Longrightarrow>
   \<exists>g st'. free_loop call cid h xid skip i got st = Some (g, st') \<and> shrinks st st' \<and>
     (\<forall>r \<in> set (resources (clientTable st' cid) ! h). res_id r \<noteq> xid) \<and>
     (g \<longleftrightarrow> got \<or> (\<exists>r \<in> set (resources (clientTable st cid) ! h). res_id r = xid)) \<and>
     (cached_first xid (resources (clientTable st cid) ! h) \<and> clients st (CLIENT_ID xid) \<noteq> None \<and>
        rootWindowID st \<noteq> xid \<longrightarrow> uncached xid st')"
proof (induction "length (resources (clientTable st cid) ! h) * (length (resources (clientTable st cid) ! h) + 1)
      + (length (resources (clientTable st cid) ! h) - i)" arbitrary: st i got rule: less_induct)
  case less
  let ?c = "resources (clientTable st cid) ! h"
  show ?case
  proof (cases "i < length ?c")
    case False
    then have clean: "\<forall>r \<in> set ?c. res_id r \<noteq> xid"
      using less.prems(2) by (metis in_set_conv_nth less_le_trans not_less)
    then have "find (\<lambda>r. res_id r = xid) ?c = None" by (simp add: find_None_iff)
    then have "\<not> cached_first xid ?c" by (simp add: cached_first_def)
    with False clean show ?thesis by (subst free_loop.simps) (simp add: Let_def)
  next
    case True
    show ?thesis
    proof (cases "res_id (?c ! i) = xid")
      case False
      have eq: "free_loop call cid h xid skip i got st = free_loop call cid h xid skip (i + 1) got st"
        by (subst free_loop.simps) (simp add: Let_def True False)
      have "\<forall>k < i + 1. k < length ?c \<longrightarrow> res_id (?c ! k) \<noteq> xid"
        using less.prems(2) False by (auto simp: less_Suc_eq)
      from less.hyps [OF _ less.prems(1) this] True show ?thesis unfolding eq by simp
    next
      case match: True
      define st1 where "st1 = add_elements cid (- 1) (unlink cid h i st)"
      define st2 where "st2 = (if res_type (?c ! i) AND RC_CACHED \<noteq> 0 then FlushClientCaches xid st1 else st1)"
      define st3 where "st3 = (if res_type (?c ! i) \<noteq> skip
        then call (deleter st2 (res_type (?c ! i))) (res_value (?c ! i)) xid st2 else st2)"
      define i' where "i' = (if elements (clientTable st3 cid) \<noteq> elements (clientTable st1 cid) then 0 else i)"
      have clean: "\<forall>k < i. res_id (?c ! k) \<noteq> xid" using less.prems(2) True by auto
      note s = free_step [OF wb less.prems(1) True clean st1_def st2_def st3_def i'_def]
      let ?d = "resources (clientTable st3 cid) ! h"
      have eq: "free_loop call cid h xid skip i got st = free_loop call cid h xid skip i' True st3"
        by (subst free_loop.simps) (simp add: Let_def True match st1_def st2_def st3_def i'_def)
      have "length ?d * (length ?d + 1) + (length ?d - i') < (length ?d + 1) * (length ?d + 1 + 1)"
        by (simp add: algebra_simps)
      also have "\<dots> \<le> length ?c * (length ?c + 1)"
        using s(4) by (intro mult_le_mono) auto
      finally have "length ?d * (length ?d + 1) + (length ?d - i') <
          length ?c * (length ?c + 1) + (length ?c - i)" by simp
      from less.hyps [OF this s(3,5)] obtain g st' where IH:
        "free_loop call cid h xid skip i' True st3 = Some (g, st')" "shrinks st3 st'"
        "\<forall>r \<in> set (resources (clientTable st' cid) ! h). res_id r \<noteq> xid" "g" by blast
      have cache: "uncached xid st'"
        if c: "cached_first xid ?c" "clients st (CLIENT_ID xid) \<noteq> None" "rootWindowID st \<noteq> xid"
      proof -
        have "find (\<lambda>r. res_id r = xid) ?c = Some (?c ! i)" using True match clean by (intro find_at) auto
        with c(1) have "st2 = FlushClientCaches xid st1" by (simp add: cached_first_def st2_def)
        moreover have "clients st1 = clients st" "rootWindowID st1 = rootWindowID st"
          by (simp_all add: st1_def add_elements_def unlink_def Let_def)
        ultimately have "uncached xid st2" using c FlushClientCaches_uncached by auto
        moreover have "shrinks st2 st'" using s(2) IH(2) shrinks_trans by blast
        moreover have "rootWindowID st2 = rootWindowID st" using s(6) by (simp add: shrinks_def)
        ultimately show ?thesis using c(3) by (auto simp: shrinks_def)
      qed
      have "\<exists>r \<in> set ?c. res_id r = xid" using True match by (intro bexI [of _ "?c ! i"]) simp_all
      with IH cache shrinks_trans [OF s(1) IH(2)] show ?thesis unfolding eq by auto
    qed
  qed
qed

lemma FreeResource_aux:
  assumes "db_wf st" "well_behaved call"
  shows "\<exists>found st'. FreeResource call xid skip st = Some (found, st') \<and> db_wf st' \<and>
    entries st' xid = [] \<and> (\<forall>x. subseq (entries st' x) (entries st x)) \<and>
    (found \<longleftrightarrow> entries st xid \<noteq> [])"
proof -
  let ?c = "CLIENT_ID xid"
  let ?t = "clientTable st ?c"
  show ?thesis
  proof (cases "buckets ?t = 0")
    case True
    with assms(1) show ?thesis
      by (intro exI [of _ False] exI [of _ st]) (simp add: FreeResource_def Let_def entries_def)
  next
    case False
    note wf = db_wf_table [OF assms(1), of xid]
    have h: "bucket ?t xid < length (resources ?t)" by (rule chain_stack(1) [OF wf False])
    from free_loop_spec [OF assms(2) h, of 0 xid skip False] obtain g st1 where
      l: "free_loop call ?c (bucket ?t xid) xid skip 0 False st = Some (g, st1)" "shrinks st st1"
        "\<forall>r \<in> set (resources (clientTable st1 ?c) ! bucket ?t xid). res_id r \<noteq> xid"
        "g \<longleftrightarrow> (\<exists>r \<in> set (chain ?t xid). res_id r = xid)"
      by (auto simp: chain_def)
    let ?st' = "reset_last_drawable ?c xid st1"
    have s: "shrinks st ?st'" using l(2) reset_last_drawable_shrinks shrinks_trans by blast
    have t': "clientTable ?st' = clientTable st1"
      by (simp add: reset_last_drawable_def split: option.splits)
    have b: "buckets (clientTable st1 ?c) = buckets ?t" "bucket (clientTable st1 ?c) = bucket ?t"
      using l(2) by (auto simp: shrinks_def table_shrinks_def intro: bucket_cong)
    have wf1: "table_wf ?c (clientTable st1 ?c)"
      using db_wf_table [OF shrinks_wf [OF assms(1) l(2)], of xid] .
    have "stack (clientTable st1 ?c) xid = []"
      using stack_via_chain [OF wf1] l(3) b False by (simp add: chain_def filter_empty_conv)
    then have "entries ?st' xid = []" by (simp add: entries_def Let_def t')
    moreover have "g \<longleftrightarrow> entries st xid \<noteq> []"
      using l(4) stack_via_chain [OF wf False, of xid] False
      by (auto simp: entries_def Let_def filter_empty_conv)
    moreover have "FreeResource call xid skip st = Some (g, ?st')"
      using l(1) False CLIENT_ID_bound by (simp add: FreeResource_def Let_def)
    ultimately show ?thesis using s shrinks_entries shrinks_wf assms(1) by blast
  qed
qed


text \<open>A delete function made of nothing but further frees of ids is well-behaved.\<close>

lemma well_behaved_id: "well_behaved (\<lambda>_ _ _ st. st)"
  by (simp add: well_behaved_def)


text \<open>
  No stale cache: when the newest resource of an id is of a cached class and its client still
  exists, \<open>FreeResource\<close> leaves no client with the id as its last drawable.
\<close>

theorem FreeResource_uncaches:
  assumes "db_wf st" "well_behaved call" "FreeResource call xid skip st = Some (found, st')"
    "entries st xid = (rtype, val) # rest" "rtype AND RC_CACHED \<noteq> 0"
    "clients st (CLIENT_ID xid) \<noteq> None" "rootWindowID st \<noteq> xid"
  shows "uncached xid st'"
proof -
  let ?c = "CLIENT_ID xid"
  let ?t = "clientTable st ?c"
  have b: "buckets ?t \<noteq> 0" using assms(4) by (auto simp: entries_def Let_def split: if_splits)
  note wf = db_wf_table [OF assms(1), of xid]
  have h: "bucket ?t xid < length (resources ?t)" by (rule chain_stack(1) [OF wf b])
  from free_loop_spec [OF assms(2) h, of 0 xid skip False] obtain g st1 where
    l: "free_loop call ?c (bucket ?t xid) xid skip 0 False st = Some (g, st1)" "shrinks st st1"
      "cached_first xid (chain ?t xid) \<longrightarrow> uncached xid st1"
    using assms(6,7) by (auto simp: chain_def)
  have "find (\<lambda>r. res_id r = xid) (chain ?t xid) = find (\<lambda>r. True) (stack ?t xid)"
    using find_filter [of "\<lambda>r. res_id r = xid" "\<lambda>r. True" "chain ?t xid"] chain_stack(2) [OF wf b] by simp
  moreover from assms(4) b obtain r rs where "stack ?t xid = r # rs" "res_type r = rtype"
    by (auto simp: entries_def Let_def)
  ultimately have "cached_first xid (chain ?t xid)" using assms(5) by (simp add: cached_first_def)
  with l(3) have "uncached xid st1" by simp
  moreover have "st' = reset_last_drawable ?c xid st1"
    using assms(3) l(1) b CLIENT_ID_bound by (simp add: FreeResource_def Let_def)
  moreover have "rootWindowID st1 = rootWindowID st" using l(2) by (simp add: shrinks_def)
  ultimately show ?thesis
    using reset_last_drawable_shrinks [of st1 ?c xid] assms(7) by (simp add: shrinks_def)
qed

text \<open>A client whose last drawable is a resource of a cached class.\<close>

definition cached_example :: dix_state where
  "cached_example = db_example\<lparr>clients := (\<lambda>i. if i = 1
     then Some \<lparr>lastDrawable = 7, lastDrawableID = 0x200005, lastGC = 0, lastGCID = 0\<rparr> else None)\<rparr>"

theorem FreeResource_uncaches_witness:
  "\<exists>st found st'. entries st 0x200005 = [(RC_CACHED, 7)] \<and> \<not> uncached 0x200005 st \<and>
    FreeResource (\<lambda>_ _ _ st. st) 0x200005 0 st = Some (found, st') \<and> uncached 0x200005 st'"
proof -
  have wf: "db_wf cached_example" using db_example_wf(1) by (simp add: cached_example_def db_wf_def)
  have t: "clientTable cached_example = clientTable db_example" by (simp add: cached_example_def)
  have "resources (clientTable db_example 1) = replicate INITBUCKETS []"
    by (simp add: db_example_def InitClientResources_def Let_def)
  then have e: "entries cached_example 0x200005 = []"
    by (simp add: entries_def Let_def t CLIENT_ID_example stack_def)
  from AddResource_aux [OF wf, of "0x200005" "\<lambda>_ _ _ st. st" True RC_CACHED 7]
  obtain st where a: "AddResource (\<lambda>_ _ _ st. st) True True 0x200005 RC_CACHED 7 cached_example = Some (True, st)"
    "db_wf st" "entries st 0x200005 = [(RC_CACHED, 7)]"
    using e by (auto simp: t CLIENT_ID_example db_example_wf)
  then have c: "clients st = clients cached_example" "rootWindowID st = 40" "currentMaxClients st = 2"
    by (auto simp: AddResource_def Let_def cached_example_def db_example_def InitClientResources_def
        split: if_splits)
  from FreeResource_aux [OF a(2) well_behaved_id, of "0x200005" 0] obtain found st' where
    f: "FreeResource (\<lambda>_ _ _ st. st) 0x200005 0 st = Some (found, st')" by blast
  from FreeResource_uncaches [OF a(2) well_behaved_id f a(3)] c
  have "uncached 0x200005 st'"
    by (simp add: RC_CACHED_def CLIENT_ID_example cached_example_def)
  moreover have "\<not> uncached 0x200005 st"
    using c by (auto simp: uncached_def cached_example_def intro!: exI [of _ 1])
  ultimately show ?thesis using a(3) f by blast
qed

text \<open>Removing the first element with a property.\<close>

definition remove_first :: "('a \<Rightarrow> bool) \<Rightarrow> 'a list \<Rightarrow> 'a list" where
  "remove_first P xs = takeWhile (\<lambda>x. \<not> P x) xs @ tl (dropWhile (\<lambda>x. \<not> P x) xs)"

lemma remove_first_simps [simp]:
  "remove_first P [] = []"
  "remove_first P (x # xs) = (if P x then xs else x # remove_first P xs)"
  by (simp_all add: remove_first_def)

lemma take_drop_remove_first:
  "i = length (takeWhile (\<lambda>x. \<not> P x) xs) \<Longrightarrow> take i xs @ drop (i + 1) xs = remove_first P xs"
  by (induction xs arbitrary: i) auto

lemma filter_remove_first:
  "filter Q (remove_first (\<lambda>x. Q x \<and> P x) xs) = remove_first P (filter Q xs)"
  by (induction xs) auto

lemma filter_remove_first_other:
  "(\<And>x. P x \<Longrightarrow> \<not> Q x) \<Longrightarrow> filter Q (remove_first P xs) = filter Q xs"
  by (induction xs) auto

lemma map_remove_first: "map f (remove_first (P \<circ> f) xs) = remove_first P (map f xs)"
  by (induction xs) auto

lemma remove_first_none: "(\<And>x. x \<in> set xs \<Longrightarrow> \<not> P x) \<Longrightarrow> remove_first P xs = xs"
  by (induction xs) auto

lemma set_remove_first: "set (remove_first P xs) \<subseteq> set xs"
  by (induction xs) auto

text \<open>Taking the first resource with a type off the chain of an id.\<close>

lemma remove_wf:
  assumes wf: "table_wf c t" "buckets t \<noteq> 0"
    and t': "t' = t\<lparr>resources := (resources t)[bucket t xid :=
      remove_first (\<lambda>r. res_id r = xid \<and> res_type r = rtype) (chain t xid)]\<rparr>"
  shows "table_wf c t' \<and> stack t' = (stack t)(xid := remove_first (\<lambda>r. res_type r = rtype) (stack t xid))"
proof -
  let ?P = "\<lambda>r. res_id r = xid \<and> res_type r = rtype"
  let ?h = "bucket t xid"
  have h: "?h < length (resources t)" by (rule chain_stack(1) [OF wf])
  have b: "bucket t' = bucket t" by (rule bucket_cong) (simp add: t')
  have sub: "set (remove_first ?P (resources t ! ?h)) \<subseteq> set (resources t ! ?h)" by (rule set_remove_first)
  have wf': "table_wf c t'"
    using wf h sub unfolding table_wf_def b by (auto simp: t' chain_def nth_list_update split: if_splits)
  have b': "buckets t' \<noteq> 0" using wf(2) by (simp add: t')
  have "stack t' x = ((stack t)(xid := remove_first (\<lambda>r. res_type r = rtype) (stack t xid))) x" for x
  proof -
    have hx: "bucket t x < length (resources t)" by (rule chain_stack(1) [OF wf])
    have c: "chain t' x = (if bucket t x = ?h then remove_first ?P (chain t x) else chain t x)"
      using hx by (simp add: chain_def b) (simp add: t' nth_list_update chain_def)
    show ?thesis
      using filter_remove_first [of "\<lambda>r. res_id r = xid" "\<lambda>r. res_type r = rtype" "chain t xid"]
        filter_remove_first_other [of ?P "\<lambda>r. res_id r = x" "chain t x"]
      unfolding stack_via_chain [OF wf' b'] stack_via_chain [OF wf] by (auto simp: c)
  qed
  with wf' show ?thesis by blast
qed

lemma reset_last_drawable_tables [simp]: "clientTable (reset_last_drawable c x st) = clientTable st"
  by (simp add: reset_last_drawable_def split: option.splits)

text \<open>
  \<open>FreeResourceByType\<close> removes exactly the newest resource with the id and the type and
  leaves every other resource; unlike \<open>FreeResource\<close> it does not count it off, so the element
  count of the client's table is one too high after every successful call.
\<close>

theorem FreeResourceByType_keeps_count:
  assumes "db_wf st" "\<forall>d v x st. clientTable (call d v x st) = clientTable st"
  shows "db_wf (FreeResourceByType call xid rtype skipFree st) \<and>
    entries (FreeResourceByType call xid rtype skipFree st) =
      (entries st)(xid := remove_first (\<lambda>(t, _). t = rtype) (entries st xid)) \<and>
    (\<forall>c. elements (clientTable (FreeResourceByType call xid rtype skipFree st) c) =
      elements (clientTable st c))"
proof -
  let ?c = "CLIENT_ID xid" and ?st' = "FreeResourceByType call xid rtype skipFree st"
  let ?t = "clientTable st ?c" and ?P = "\<lambda>r. res_id r = xid \<and> res_type r = rtype"
  show ?thesis
  proof (cases "buckets ?t = 0")
    case True
    then have "entries st xid = []" by (simp add: entries_def)
    with True assms(1) show ?thesis by (simp add: FreeResourceByType_def Let_def fun_upd_idem)
  next
    case False
    note wf = db_wf_table [OF assms(1), of xid]
    let ?t' = "?t\<lparr>resources := (resources ?t)[bucket ?t xid := remove_first ?P (chain ?t xid)]\<rparr>"
    have T: "clientTable ?st' = (clientTable st)(?c := ?t')"
    proof (cases "length (takeWhile (\<lambda>r. \<not> ?P r) (chain ?t xid)) = length (chain ?t xid)")
      case True
      then have "remove_first ?P (chain ?t xid) = chain ?t xid"
        by (intro remove_first_none) (rule takeWhile_full)
      then have "?t' = ?t" by (simp add: chain_def)
      with True False CLIENT_ID_bound show ?thesis
        by (simp add: FreeResourceByType_def Let_def chain_def)
    next
      case ne: False
      with False CLIENT_ID_bound assms(2) show ?thesis
        by (simp add: FreeResourceByType_def Let_def chain_def unlink_def flip: take_drop_remove_first)
    qed
    have R: "table_wf ?c ?t'" "stack ?t' = (stack ?t)(xid := remove_first (\<lambda>r. res_type r = rtype) (stack ?t xid))"
      using remove_wf [OF wf False refl, of xid rtype] by auto
    have "db_wf ?st'" using assms(1) R(1) by (simp add: db_wf_def T)
    moreover have "entries ?st' x =
        ((entries st)(xid := remove_first (\<lambda>(t, _). t = rtype) (entries st xid))) x" for x
      using map_remove_first [of "\<lambda>r. (res_type r, res_value r)" "\<lambda>(t, _). t = rtype" "stack ?t xid"] False
      by (cases "x = xid") (auto simp: entries_def T R(2) Let_def comp_def)
    ultimately show ?thesis by (auto simp: T)
  qed
qed

theorem FreeResourceByType_keeps_count_witness:
  "db_wf (FreeResourceByType (\<lambda>_ _ _ st. st) 0x200005 3 False db_example) \<and>
    entries (FreeResourceByType (\<lambda>_ _ _ st. st) 0x200005 3 False db_example) =
      (entries db_example)(0x200005 := remove_first (\<lambda>(t, _). t = 3) (entries db_example 0x200005)) \<and>
    (\<forall>c. elements (clientTable (FreeResourceByType (\<lambda>_ _ _ st. st) 0x200005 3 False db_example) c) =
      elements (clientTable db_example c))"
  by (rule FreeResourceByType_keeps_count) (simp_all add: db_example_wf)

subsection \<open>Freeing a client\<close>

lemma unlink_head_shrinks:
  assumes "h < length (resources (clientTable st cid))" "resources (clientTable st cid) ! h = r # rs"
  shows "list_all2 subseq (resources (clientTable (unlink cid h 0 st) cid)) (resources (clientTable st cid))"
    "resources (clientTable (unlink cid h 0 st) cid) ! h = rs"
    "length (resources (clientTable (unlink cid h 0 st) cid)) = length (resources (clientTable st cid))"
  using assms by (auto simp: unlink_def Let_def list_all2_conv_all_nth nth_list_update)

text \<open>
  The loop of \<open>FreeClientResources\<close> does not count the elements down, so the relation kept
  along it leaves the counts out.
\<close>

definition chains_shrink :: "dix_state \<Rightarrow> dix_state \<Rightarrow> bool" where
  "chains_shrink st st' \<longleftrightarrow> (\<forall>c. hashsize (clientTable st' c) = hashsize (clientTable st c) \<and>
     buckets (clientTable st' c) = buckets (clientTable st c) \<and>
     list_all2 subseq (resources (clientTable st' c)) (resources (clientTable st c)))"

lemma shrinks_chains: "shrinks st st' \<Longrightarrow> chains_shrink st st'"
  by (simp add: shrinks_def chains_shrink_def table_shrinks_def)

lemma chains_shrink_trans:
  assumes "chains_shrink st st'" "chains_shrink st' st''" shows "chains_shrink st st''"
proof -
  have "list_all2 subseq (resources (clientTable st'' c)) (resources (clientTable st c))" for c
    by (rule list_all2_trans [of subseq subseq subseq, OF subseq_order.trans])
       (use assms in \<open>auto simp: chains_shrink_def\<close>)
  with assms show ?thesis by (simp add: chains_shrink_def)
qed

lemma chains_shrink_wf: "db_wf st \<Longrightarrow> chains_shrink st st' \<Longrightarrow> db_wf st'"
proof -
  assume wf: "db_wf st" and s: "chains_shrink st st'"
  have "table_wf c (clientTable st' c)" if "c < MAXCLIENTS" for c
  proof -
    let ?t = "clientTable st c" and ?t' = "clientTable st' c"
    let ?u = "?t\<lparr>elements := elements ?t' + int (length (concat (resources ?t))) - int (length (concat (resources ?t')))\<rparr>"
    have "table_wf c ?u"
      using wf that bucket_cong [of ?u ?t] by (simp add: db_wf_def table_wf_def)
    moreover have "table_shrinks ?u ?t'" using s by (simp add: chains_shrink_def table_shrinks_def)
    ultimately show ?thesis by (rule table_shrinks_wf)
  qed
  then show ?thesis by (simp add: db_wf_def)
qed

lemma chains_shrink_entries: "chains_shrink st st' \<Longrightarrow> subseq (entries st' x) (entries st x)"
  by (auto simp: entries_def Let_def chains_shrink_def stack_def
      intro!: subseq_map subseq_filter_mono list_all2_subseq_concat)

lemma chains_shrink_nil:
  "chains_shrink st st' \<Longrightarrow> k < length (resources (clientTable st c)) \<Longrightarrow>
   resources (clientTable st c) ! k = [] \<Longrightarrow> resources (clientTable st' c) ! k = []"
  by (auto simp: chains_shrink_def list_all2_conv_all_nth) (metis list_emb_Nil2)

lemma free_client_loop_spec:
  assumes wb: "well_behaved call"
  shows "buckets (clientTable st cid) = length (resources (clientTable st cid)) \<Longrightarrow>
    \<forall>k < h. k < length (resources (clientTable st cid)) \<longrightarrow> resources (clientTable st cid) ! k = [] \<Longrightarrow>
    \<exists>st'. free_client_loop call cid h st = Some st' \<and> chains_shrink st st' \<and>
      concat (resources (clientTable st' cid)) = []"
proof (induction "length (concat (resources (clientTable st cid))) + (length (resources (clientTable st cid)) - h)"
    arbitrary: st h rule: less_induct)
  case less
  let ?rs = "resources (clientTable st cid)"
  show ?case
  proof (cases "h < length ?rs")
    case False
    then have "concat ?rs = []" using less.prems(2) by (auto simp: in_set_conv_nth)
    moreover have "chains_shrink st st" by (rule shrinks_chains) simp
    ultimately show ?thesis
      using False less.prems(1) by (subst free_client_loop.simps) (simp del: concat_eq_Nil_conv)
  next
    case h: True
    show ?thesis
    proof (cases "?rs ! h")
      case Nil
      have eq: "free_client_loop call cid h st = free_client_loop call cid (h + 1) st"
        using h less.prems(1) Nil by (subst free_client_loop.simps) simp
      have "\<forall>k < h + 1. k < length ?rs \<longrightarrow> ?rs ! k = []"
        using less.prems(2) Nil by (auto simp: less_Suc_eq)
      from less.hyps [OF _ less.prems(1) this] h show ?thesis unfolding eq by simp
    next
      case (Cons r rs)
      define st1 where "st1 = unlink cid h 0 st"
      define st2 where "st2 = (if res_type r AND RC_CACHED \<noteq> 0 then FlushClientCaches (res_id r) st1 else st1)"
      define st3 where "st3 = call (deleter st2 (res_type r)) (res_value r) (res_id r) st2"
      have eq: "free_client_loop call cid h st = free_client_loop call cid h st3"
        using h less.prems(1) Cons by (subst free_client_loop.simps) (simp add: st1_def st2_def st3_def Let_def)
      have s1: "chains_shrink st st1"
        using unlink_head_shrinks [OF h Cons]
        by (auto simp: chains_shrink_def st1_def unlink_def Let_def list_all2_refl)
      have s13: "chains_shrink st1 st3"
      proof -
        have "shrinks st1 st2" by (simp add: st2_def FlushClientCaches_shrinks)
        moreover have "shrinks st2 st3" using wb by (simp add: st3_def well_behaved_def)
        ultimately show ?thesis using shrinks_trans shrinks_chains by blast
      qed
      have s: "chains_shrink st st3" using s1 s13 by (rule chains_shrink_trans)
      let ?rs3 = "resources (clientTable st3 cid)"
      have len: "length ?rs3 = length ?rs" "buckets (clientTable st3 cid) = buckets (clientTable st cid)"
        using s list_all2_lengthD unfolding chains_shrink_def by blast+
      have "length (concat ?rs3) \<le> length (concat (resources (clientTable st1 cid)))"
        using s13 by (intro list_emb_length [of "(=)"] list_all2_subseq_concat) (simp add: chains_shrink_def)
      also have "\<dots> < length (concat ?rs)"
        using arg_cong [OF mset_concat_update [OF h, of rs], of size] Cons
        by (simp add: st1_def unlink_def Let_def)
      finally have less1: "length (concat ?rs3) + (length ?rs3 - h) < length (concat ?rs) + (length ?rs - h)"
        using len by simp
      have "\<forall>k < h. k < length ?rs3 \<longrightarrow> ?rs3 ! k = []"
        using less.prems(2) chains_shrink_nil [OF s] len by simp
      from less.hyps [OF less1 _ this] less.prems(1) len obtain st' where
        "free_client_loop call cid h st3 = Some st'" "chains_shrink st3 st'"
        "concat (resources (clientTable st' cid)) = []" by auto
      then show ?thesis unfolding eq using chains_shrink_trans [OF s] by blast
    qed
  qed
qed



subsection \<open>Ids made inside the server\<close>

definition used :: "ClientResourceRec \<Rightarrow> XID \<Rightarrow> bool" where
  "used t x \<longleftrightarrow> stack t x \<noteq> []"

lemma used_iff: "used t x \<longleftrightarrow> (\<exists>r \<in> set (concat (resources t)). res_id r = x)"
  by (auto simp: used_def stack_def filter_empty_conv)

lemma set_id_range: "set (map word_of_nat [unat a ..< unat (b :: XID) + 1]) = {a..b}"
proof (intro set_eqI iffI)
  fix x :: XID
  assume "x \<in> set (map word_of_nat [unat a ..< unat b + 1])"
  then obtain n where n: "unat a \<le> n" "n \<le> unat b" "x = word_of_nat n" by auto
  have "unat x = n" unfolding n(3) using n(2) by (rule le_unat_uoi)
  with n show "x \<in> {a..b}" by (simp add: word_le_nat_alt)
next
  fix x :: XID
  assume "x \<in> {a..b}"
  then have "unat x \<in> set [unat a ..< unat b + 1]" "x = word_of_nat (unat x)"
    by (auto simp: word_le_nat_alt)
  then show "x \<in> set (map word_of_nat [unat a ..< unat b + 1])" unfolding set_map by blast
qed

lemma AvailableID_spec:
  assumes "table_wf c t" "buckets t \<noteq> 0" "0 < a" "good = 0 \<or> \<not> used t good"
  shows "AvailableID t a b good \<noteq> 0 \<Longrightarrow>
      a \<le> AvailableID t a b good \<and> AvailableID t a b good \<le> b \<and> \<not> used t (AvailableID t a b good)"
    and "AvailableID t a b good = 0 \<Longrightarrow> x \<in> {a..b} \<Longrightarrow> used t x"
proof -
  have free: "(\<forall>r \<in> set (chain t i). res_id r \<noteq> i) \<longleftrightarrow> \<not> used t i" for i
    using stack_via_chain [OF assms(1,2), of i] by (auto simp: used_def filter_empty_conv)
  define F where "F = find (\<lambda>i. \<not> used t i) (map word_of_nat [unat a ..< unat b + 1])"
  have av: "AvailableID t a b good = (if a \<le> good \<and> good \<le> b then good
      else case F of Some i \<Rightarrow> i | None \<Rightarrow> 0)"
    unfolding AvailableID_def F_def free ..
  have some: "a \<le> i \<and> i \<le> b \<and> \<not> used t i" if "F = Some i" for i
  proof -
    from find_SomeD [OF that [unfolded F_def]]
    have "i \<in> set (map word_of_nat [unat a ..< unat b + 1])" "\<not> used t i" by blast+
    then show ?thesis unfolding set_id_range by simp
  qed
  have none: "used t x" if "F = None" "x \<in> {a..b}" for x
    using that unfolding F_def find_None_iff set_id_range by blast
  show "AvailableID t a b good \<noteq> 0 \<Longrightarrow>
      a \<le> AvailableID t a b good \<and> AvailableID t a b good \<le> b \<and> \<not> used t (AvailableID t a b good)"
    using assms(4) some unfolding av by (auto split: if_splits option.splits)
  show "used t x" if "AvailableID t a b good = 0" "x \<in> {a..b}"
  proof (cases "a \<le> good \<and> good \<le> b")
    case True
    with that(1) assms(3) show ?thesis unfolding av by simp
  next
    case False
    show ?thesis
    proof (cases F)
      case None
      then show ?thesis using none that(2) by blast
    next
      case (Some i)
      with False that(1) have "i = 0" unfolding av by (simp split: if_splits)
      with some [OF Some] assms(3) show ?thesis by simp
    qed
  qed
qed

text \<open>
  The loop of \<open>GetXIDRange\<close> narrows the range: the resources seen are outside, and a free id of
  the whole range is never lost.
\<close>

definition range_inv :: "ClientResourceRec \<Rightarrow> XID \<Rightarrow> XID \<Rightarrow> ResourceRec set \<Rightarrow> XID \<times> XID \<times> XID \<Rightarrow> bool" where
  "range_inv t lo hi seen = (\<lambda>(a, b, good). lo \<le> a \<and> b \<le> hi \<and> (good = 0 \<or> \<not> used t good) \<and>
     (\<forall>r \<in> seen. res_id r \<notin> {a..b}) \<and>
     ((\<exists>x \<in> {lo..hi}. \<not> used t x) \<longrightarrow> (\<exists>x \<in> {a..b}. \<not> used t x)))"

lemma range_step_inv:
  assumes wf: "table_wf c t" "buckets t \<noteq> 0" and lim: "0 < lo" "hi < - 1"
    and r: "r \<in> set (concat (resources t))" and inv: "range_inv t lo hi seen (a, b, good)"
  shows "range_inv t lo hi (insert r seen) (range_step t r (a, b, good))"
proof (cases "a \<le> res_id r \<and> res_id r \<le> b")
  case False
  with inv show ?thesis by (auto simp: range_inv_def)
next
  case True
  let ?x = "res_id r"
  have ux: "used t ?x" using r by (auto simp: used_iff)
  have i: "lo \<le> a" "b \<le> hi" "good = 0 \<or> \<not> used t good" "\<forall>r \<in> seen. res_id r \<notin> {a..b}"
    "(\<exists>x \<in> {lo..hi}. \<not> used t x) \<longrightarrow> (\<exists>x \<in> {a..b}. \<not> used t x)"
    using inv by (auto simp: range_inv_def)
  have ba: "0 < a" using lim(1) i(1) by (rule less_le_trans)
  have bx: "0 < ?x" using ba True by (meson less_le_trans)
  have bm: "?x < - 1" using True i(2) lim(2) by (meson le_less_trans order_trans)
  have bs: "0 < ?x + 1" using word_succ_pos [OF bm] .
  note left = word_le_pred [OF bx]
  note right = word_succ_le [OF bm]
  have lo: "lo \<le> ?x + 1" using i(1) True right [of "?x + 1"] bm
    by (meson order_trans less_imp_le word_succ_gt)
  have hi: "?x - 1 \<le> hi" using i(2) True left [of "?x - 1"]
    by (meson order_trans less_imp_le order_refl)
  have subL: "{a..?x - 1} \<subseteq> {a..b}" and xL: "?x \<notin> {a..?x - 1}"
    using True by (intro subsetI, auto simp: left)
  have subR: "{?x + 1..b} \<subseteq> {a..b}" and xR: "?x \<notin> {?x + 1..b}"
    using True by (intro subsetI, auto simp: right)
  let ?l = "AvailableID t a (?x - 1) good" and ?r = "AvailableID t (?x + 1) b good"
  note L = AvailableID_spec [OF wf ba i(3), of "?x - 1"]
  note R = AvailableID_spec [OF wf bs i(3), of b]
  have keep_left: "range_inv t lo hi (insert r seen) (a, ?x - 1, g)"
    if "g = 0 \<or> \<not> used t g" "(\<exists>x \<in> {a..b}. \<not> used t x) \<longrightarrow> (\<exists>x \<in> {a..?x - 1}. \<not> used t x)" for g
    using that i hi subL xL unfolding range_inv_def prod.case by blast
  have keep_right: "range_inv t lo hi (insert r seen) (?x + 1, b, g)"
    if "g = 0 \<or> \<not> used t g" "(\<exists>x \<in> {a..b}. \<not> used t x) \<longrightarrow> (\<exists>x \<in> {?x + 1..b}. \<not> used t x)" for g
    using that i lo subR xR unfolding range_inv_def prod.case by blast
  have split: "x \<in> {a..b} \<Longrightarrow> \<not> used t x \<Longrightarrow> x \<in> {a..?x - 1} \<or> x \<in> {?x + 1..b}" for x
    using ux by (cases x ?x rule: linorder_cases) (auto simp: left right)
  have nin: "\<not> (?x < a \<or> ?x > b)" using True by auto
  note step = range_step.simps [of t r a b good, unfolded if_not_P [OF nin] Let_def]
  show ?thesis
  proof (cases "?x - a \<ge> b - ?x")
    case True
    show ?thesis
    proof (cases "?l = 0")
      case False
      with L(1) have "range_inv t lo hi (insert r seen) (a, ?x - 1, ?l)" by (intro keep_left) auto
      with True False show ?thesis unfolding step by simp
    next
      case z: True
      with L(2) split have "range_inv t lo hi (insert r seen) (?x + 1, b, ?l)" by (intro keep_right) blast+
      with True z show ?thesis unfolding step by simp
    qed
  next
    case False
    show ?thesis
    proof (cases "?r = 0")
      case z: True
      with R(2) split have "range_inv t lo hi (insert r seen) (a, ?x - 1, ?r)" by (intro keep_left) blast+
      with False z show ?thesis unfolding step by simp
    next
      case nz: False
      with R(1) have "range_inv t lo hi (insert r seen) (?x + 1, b, ?r)" by (intro keep_right) auto
      with False nz show ?thesis unfolding step by simp
    qed
  qed
qed

lemma range_fold_inv:
  assumes "table_wf c t" "buckets t \<noteq> 0" "0 < lo" "hi < - 1"
  shows "set rs \<subseteq> set (concat (resources t)) \<Longrightarrow> range_inv t lo hi seen s \<Longrightarrow>
    range_inv t lo hi (seen \<union> set rs) (fold (range_step t) rs s)"
proof (induction rs arbitrary: seen s)
  case (Cons r rs)
  obtain a b g where s: "s = (a, b, g)" by (cases s) auto
  have "range_inv t lo hi (insert r seen) (range_step t r s)"
    unfolding s using range_step_inv [OF assms, of r seen a b g] Cons.prems s by simp
  from Cons.IH [OF _ this] Cons.prems(1) show ?case by simp
qed simp

text \<open>
  The range \<open>GetXIDRange\<close> searches: the ids of a client, or the ones the server makes for it.
\<close>

definition xid_base :: "nat \<Rightarrow> bool \<Rightarrow> XID" where
  "xid_base client server =
     (if server then clientAsMask client OR (if client \<noteq> 0 then SERVER_BIT else SERVER_MINID)
      else clientAsMask client)"

lemma clientAsMask_bit:
  assumes "c < MAXCLIENTS" shows "bit (clientAsMask c) n \<longleftrightarrow> 21 \<le> n \<and> bit c (n - 21)"
proof -
  have hi: "\<not> bit c m" if "11 \<le> m" for m
  proof -
    have "c < 2 ^ 8" using assms by (simp add: MAXCLIENTS_def)
    also have "(2::nat) ^ 8 \<le> 2 ^ m" using that by (intro power_increasing) auto
    finally show ?thesis by (simp add: bit_iff_odd)
  qed
  have "n < 32" if "21 \<le> n" "bit c (n - 21)" proof (rule ccontr)
    assume "\<not> n < 32"
    then have "11 \<le> n - 21" by linarith
    with hi that(2) show False by blast
  qed
  then show ?thesis
    by (auto simp: clientAsMask_def CLIENTOFFSET_def bit_push_bit_iff bit_of_nat_iff)
qed

lemma xid_base_pos:
  assumes "c < MAXCLIENTS" "server \<or> c \<noteq> 0" shows "0 < xid_base c server"
proof -
  have "c \<noteq> 0 \<Longrightarrow> clientAsMask c \<noteq> 0"
  proof
    assume "c \<noteq> 0" "clientAsMask c = 0"
    then obtain n where "bit c n" by (metis bit_eqI bit_0_eq bot_apply bot_bool_def)
    with clientAsMask_bit [OF assms(1), of "n + 21"] \<open>clientAsMask c = 0\<close> show False by simp
  qed
  moreover have "SERVER_BIT \<noteq> 0" "SERVER_MINID \<noteq> 0" by (simp_all add: SERVER_BIT_def SERVER_MINID_def)
  ultimately show ?thesis
    using assms(2) by (auto simp: xid_base_def word_gt_0 or_eq_0_iff)
qed

lemma xid_base_top:
  assumes "c < MAXCLIENTS" shows "xid_base c server OR RESOURCE_ID_MASK < - 1"
proof -
  have "\<not> bit c 10"
  proof -
    have "c < 2 ^ 10" using assms by (simp add: MAXCLIENTS_def)
    then show ?thesis by (simp add: bit_iff_odd)
  qed
  then have "\<not> bit (xid_base c server OR RESOURCE_ID_MASK) 31"
    using clientAsMask_bit [OF assms, of 31]
    by (simp add: xid_base_def bit_or_iff RESOURCE_ID_MASK_def CLIENTOFFSET_def SERVER_BIT_def SERVER_MINID_def)
  moreover have "bit (- 1 :: XID) 31" by simp
  ultimately have "xid_base c server OR RESOURCE_ID_MASK \<noteq> - 1" by metis
  then show ?thesis by (simp add: order_less_le)
qed

lemma GetXIDRange_aux:
  assumes "db_wf st" "client < MAXCLIENTS" "buckets (clientTable st client) \<noteq> 0"
    "server \<or> client \<noteq> 0" "GetXIDRange st client server = (lo, hi)"
  shows "if \<exists>x \<in> {xid_base client server..xid_base client server OR RESOURCE_ID_MASK}.
           \<not> used (clientTable st client) x
    then lo \<noteq> 0 \<and> lo \<le> hi \<and> xid_base client server \<le> lo \<and>
      hi \<le> xid_base client server OR RESOURCE_ID_MASK \<and>
      (\<forall>r \<in> set (concat (resources (clientTable st client))). res_id r \<notin> {lo..hi})
    else lo = 0 \<and> hi = 0"
proof -
  let ?t = "clientTable st client" and ?a = "xid_base client server"
  let ?b = "?a OR RESOURCE_ID_MASK" and ?rs = "concat (resources ?t)"
  have wf: "table_wf client ?t" using assms(1,2) by (simp add: db_wf_def)
  note pos = xid_base_pos [OF assms(2,4)]
  obtain a b g where f: "fold (range_step ?t) ?rs (?a, ?b, 0) = (a, b, g)" using prod_cases3 by blast
  have "range_inv ?t ?a ?b {} (?a, ?b, 0)" by (simp add: range_inv_def)
  from range_fold_inv [OF wf assms(3) pos xid_base_top [OF assms(2)] order_refl this]
  have inv: "?a \<le> a" "b \<le> ?b" "\<forall>r \<in> set ?rs. res_id r \<notin> {a..b}"
    "(\<exists>x \<in> {?a..?b}. \<not> used ?t x) \<longrightarrow> (\<exists>x \<in> {a..b}. \<not> used ?t x)"
    unfolding f range_inv_def by auto
  have res: "(lo, hi) = (if a > b then (0, 0) else (a, b))"
    using assms(5) f by (simp add: GetXIDRange_def xid_base_def Let_def)
  show ?thesis
  proof (cases "\<exists>x \<in> {?a..?b}. \<not> used ?t x")
    case True
    with inv(4) have "a \<le> b" by (auto intro: order_trans)
    with res have "lo = a" "hi = b" by (auto simp: not_less [symmetric])
    moreover have "a \<noteq> 0" using pos inv(1) by auto
    ultimately show ?thesis using True inv(1-3) \<open>a \<le> b\<close> by simp
  next
    case False
    have "a > b"
    proof (rule ccontr)
      assume "\<not> b < a"
      then have "a \<le> b" by simp
      then have "\<not> used ?t a" using inv(3) by (auto simp: used_iff)
      with False \<open>a \<le> b\<close> inv(1,2) show False by (meson atLeastAtMost_iff order_trans)
    qed
    with res False show ?thesis by auto
  qed
qed

text \<open>
  C15. \<open>GetXIDRange\<close> never hands out an id that is in use: when it returns a range, the range is not empty,
  lies inside the ids it was asked for (those of the client, or those the server makes for the
  client) and holds the id of no resource of the client; and it returns \<open>(0, 0)\<close> exactly when
  every one of those ids is taken.
\<close>

theorem GetXIDRange_unused:
  assumes "db_wf st" "client < MAXCLIENTS" "buckets (clientTable st client) \<noteq> 0"
    "server \<or> client \<noteq> 0" "GetXIDRange st client server = (lo, hi)"
  shows "if \<exists>x \<in> {xid_base client server..xid_base client server OR RESOURCE_ID_MASK}.
           \<not> used (clientTable st client) x
    then lo \<noteq> 0 \<and> lo \<le> hi \<and> xid_base client server \<le> lo \<and>
      hi \<le> xid_base client server OR RESOURCE_ID_MASK \<and>
      (\<forall>r \<in> set (concat (resources (clientTable st client))). res_id r \<notin> {lo..hi})
    else lo = 0 \<and> hi = 0"
  by (rule GetXIDRange_aux [OF assms])

theorem GetXIDRange_unused_witness:
  "\<exists>lo hi. GetXIDRange db_example 1 True = (lo, hi) \<and>
    (if \<exists>x \<in> {xid_base 1 True..xid_base 1 True OR RESOURCE_ID_MASK}.
           \<not> used (clientTable db_example 1) x
    then lo \<noteq> 0 \<and> lo \<le> hi \<and> xid_base 1 True \<le> lo \<and> hi \<le> xid_base 1 True OR RESOURCE_ID_MASK \<and>
      (\<forall>r \<in> set (concat (resources (clientTable db_example 1))). res_id r \<notin> {lo..hi})
    else lo = 0 \<and> hi = 0)"
proof -
  obtain lo hi where r: "GetXIDRange db_example 1 True = (lo, hi)" by (cases "GetXIDRange db_example 1 True")
  from GetXIDRange_unused [OF db_example_wf(1) _ _ _ this] r show ?thesis
    by (auto simp: MAXCLIENTS_def db_example_wf)
qed

text \<open>
  The reserve of ids the server makes for a client: from \<open>fakeID\<close> up to \<open>endFakeID\<close> no id is in use.
\<close>

definition reserve_free :: "ClientResourceRec \<Rightarrow> bool" where
  "reserve_free t \<longleftrightarrow> fakeID t \<le> endFakeID t \<and>
     (\<forall>r \<in> set (concat (resources t)). res_id r \<notin> {fakeID t..<endFakeID t})"

text \<open>
  \<open>FakeClientID\<close> hands out an id that no resource of the client has and that it will not hand out again
  from the same reserve, and it keeps the reserve free of used ids, refilling it when it is
  exhausted. Only the client exception, raised when every id is taken, escapes this.
\<close>

theorem FakeClientID_fresh:
  assumes "db_wf st" "client < MAXCLIENTS" "buckets (clientTable st client) \<noteq> 0"
    "reserve_free (clientTable st client)" "FakeClientID st client = Some (xid, False, st')"
  shows "\<not> used (clientTable st client) xid \<and> xid < fakeID (clientTable st' client) \<and>
    reserve_free (clientTable st' client) \<and>
    concat (resources (clientTable st' client)) = concat (resources (clientTable st client))"
proof -
  let ?t = "clientTable st client"
  have r: "fakeID ?t \<le> endFakeID ?t" "\<forall>r \<in> set (concat (resources ?t)). res_id r \<notin> {fakeID ?t..<endFakeID ?t}"
    using assms(4) by (auto simp: reserve_free_def)
  show ?thesis
  proof (cases "fakeID ?t = endFakeID ?t")
    case False
    with r(1) have lt: "fakeID ?t < endFakeID ?t" by simp
    have m: "fakeID ?t < - 1" using lt by (meson less_le_trans word_n1_ge)
    have s: "xid = fakeID ?t" "clientTable st' client = ?t\<lparr>fakeID := fakeID ?t + 1\<rparr>"
      using assms(5) False by (auto simp: FakeClientID_def Let_def)
    have "fakeID ?t + 1 \<le> endFakeID ?t" using lt by (simp add: word_succ_le [OF m])
    moreover have "{fakeID ?t + 1..<endFakeID ?t} \<subseteq> {fakeID ?t..<endFakeID ?t}"
      by (intro subsetI, auto simp: word_succ_le [OF m])
    ultimately have "reserve_free (clientTable st' client)" unfolding s reserve_free_def using r(2) by auto
    moreover have "\<not> used ?t xid"
    proof
      assume "used ?t xid"
      then obtain q where "q \<in> set (concat (resources ?t))" "res_id q = fakeID ?t"
        unfolding s used_iff by blast
      with r(2) lt show False by (metis atLeastLessThan_iff order_refl)
    qed
    ultimately show ?thesis by (simp add: s word_succ_gt [OF m])
  next
    case True
    let ?st = "set_table client (?t\<lparr>fakeID := fakeID ?t + 1\<rparr>) st"
    obtain lo hi where g: "GetXIDRange ?st client True = (lo, hi)" by fastforce
    have "table_wf client ?t" using assms(1,2) by (simp add: db_wf_def)
    moreover have "bucket (?t\<lparr>fakeID := fakeID ?t + 1\<rparr>) = bucket ?t" by (rule bucket_cong) simp
    ultimately have "db_wf ?st" by (intro db_wf_set [OF assms(1)]) (simp add: table_wf_def)
    from GetXIDRange_aux [OF this assms(2) _ _ g] assms(3)
    have R: "lo \<noteq> 0 \<Longrightarrow> lo \<le> hi \<and> hi \<le> xid_base client True OR RESOURCE_ID_MASK \<and>
        (\<forall>r \<in> set (concat (resources ?t)). res_id r \<notin> {lo..hi})"
      by (simp split: if_splits)
    have s: "lo \<noteq> 0" "xid = lo"
      "clientTable st' client = ?t\<lparr>fakeID := lo + 1, endFakeID := hi + 1\<rparr>"
      using assms(5) True g by (auto simp: FakeClientID_def Let_def split: if_splits)
    from R [OF s(1)] xid_base_top [OF assms(2), of True]
    have h: "lo \<le> hi" "hi < - 1" "\<forall>r \<in> set (concat (resources ?t)). res_id r \<notin> {lo..hi}"
      using le_less_trans by blast+
    have l: "lo < - 1" using h(1,2) by (rule le_less_trans)
    have "lo + 1 \<le> hi + 1" using h(1) word_succ_gt [OF h(2)] by (simp add: word_succ_le [OF l])
    moreover have sub: "{lo + 1..<hi + 1} \<subseteq> {lo..hi}"
    proof
      fix y assume y: "y \<in> {lo + 1..<hi + 1}"
      then have "lo < y" by (simp add: word_succ_le [OF l])
      moreover have "y \<le> hi"
      proof (rule ccontr)
        assume "\<not> y \<le> hi"
        then have "hi + 1 \<le> y" by (simp add: word_succ_le [OF h(2)])
        with y show False by (meson atLeastLessThan_iff not_le)
      qed
      ultimately show "y \<in> {lo..hi}" by simp
    qed
    moreover have "\<forall>r \<in> set (concat (resources ?t)). res_id r \<notin> {lo + 1..<hi + 1}"
      using sub h(3) by blast
    ultimately have "reserve_free (clientTable st' client)" unfolding s reserve_free_def by simp
    moreover have "\<not> used ?t xid"
      using h(1,3) unfolding s used_iff by (metis atLeastAtMost_iff order_refl)
    ultimately show ?thesis by (simp add: s word_succ_gt [OF l])
  qed
qed

lemma reserve_example: "reserve_free (clientTable db_example 1)"
  by (auto simp: reserve_free_def db_example_def InitClientResources_def Let_def clientAsMask_def
      CLIENTOFFSET_def SERVER_BIT_def RESOURCE_ID_MASK_def)

theorem FakeClientID_fresh_witness:
  "\<exists>st'. FakeClientID db_example 1 = Some (0x40200000, False, st') \<and>
    \<not> used (clientTable db_example 1) 0x40200000 \<and> 0x40200000 < fakeID (clientTable st' 1) \<and>
    reserve_free (clientTable st' 1) \<and>
    concat (resources (clientTable st' 1)) = concat (resources (clientTable db_example 1))"
proof -
  have "\<exists>st'. FakeClientID db_example 1 = Some (0x40200000, False, st')"
    by (simp add: FakeClientID_def db_example_def InitClientResources_def Let_def clientAsMask_def
        CLIENTOFFSET_def SERVER_BIT_def RESOURCE_ID_MASK_def)
  with FakeClientID_fresh [OF db_example_wf(1) _ _ reserve_example] show ?thesis
    by (auto simp: MAXCLIENTS_def db_example_wf)
qed

subsection \<open>Ids chosen by clients\<close>

text \<open>
  \<open>expectID\<close> bounds the ids a client has ever used for itself: no id without the server bit that
  is in use reaches it.
\<close>

definition expect_ok :: "dix_state \<Rightarrow> bool" where
  "expect_ok st \<longleftrightarrow> (\<forall>x. x AND SERVER_BIT = 0 \<longrightarrow> entries st x \<noteq> [] \<longrightarrow>
     x < expectID (clientTable st (CLIENT_ID x)))"

lemma not_server_max: "x AND SERVER_BIT = 0 \<Longrightarrow> (x :: XID) < - 1"
  by (auto simp: order_less_le SERVER_BIT_def)

lemma AddResource_expectID:
  assumes "AddResource call rok True xid rtype val st = Some (ok, st')"
  shows "expectID (clientTable st' c) = (if c = CLIENT_ID xid \<and> xid AND SERVER_BIT = 0 \<and>
      xid \<ge> expectID (clientTable st c) then xid + 1 else expectID (clientTable st c))"
  using assms by (auto simp: AddResource_def RebuildTable_def Let_def split: if_splits)

text \<open>
  The bound \<open>expectID\<close> is kept by every successful \<open>AddResource\<close>, whatever the id, the type and
  the value, and whether or not the table is rebuilt.
\<close>

theorem AddResource_keeps_expect_ok:
  assumes "db_wf st" "expect_ok st" "AddResource call rok True xid rtype val st = Some (ok, st')"
  shows "db_wf st' \<and> expect_ok st'"
proof -
  have "buckets (clientTable st (CLIENT_ID xid)) \<noteq> 0"
    using assms(3) by (auto simp: AddResource_def Let_def split: if_splits)
  from AddResource_aux [OF assms(1) this, of call rok rtype val] assms(3)
  have st': "db_wf st'" "entries st' = (entries st)(xid := (rtype, val) # entries st xid)" by auto
  have "x < expectID (clientTable st' (CLIENT_ID x))" if x: "x AND SERVER_BIT = 0" "entries st' x \<noteq> []" for x
  proof (cases "x = xid")
    case True
    with x(1) word_succ_gt [OF not_server_max [OF x(1)]] show ?thesis
      by (auto simp: AddResource_expectID [OF assms(3)])
  next
    case False
    with x st'(2) assms(2) have "x < expectID (clientTable st (CLIENT_ID x))" by (simp add: expect_ok_def)
    moreover have "xid < xid + 1" if "xid AND SERVER_BIT = 0"
      by (rule word_succ_gt [OF not_server_max [OF that]])
    ultimately show ?thesis by (auto simp: AddResource_expectID [OF assms(3)])
  qed
  with st'(1) show ?thesis by (simp add: expect_ok_def)
qed

lemma db_example_entries: "entries db_example x = []"
proof -
  have "concat (resources (clientTable db_example c)) = []" for c
    by (simp add: db_example_def InitClientResources_def Let_def empty_client_def)
  from this [of "CLIENT_ID x"] show ?thesis
    by (simp add: entries_def Let_def stack_def del: concat_eq_Nil_conv)
qed

theorem AddResource_keeps_expect_ok_witness:
  "\<exists>ok st'. AddResource (\<lambda>_ _ _ st. st) True True 0x200005 3 77 db_example = Some (ok, st') \<and>
    db_wf st' \<and> expect_ok st'"
proof -
  have "expect_ok db_example" by (simp add: expect_ok_def db_example_entries)
  moreover obtain st' where "AddResource (\<lambda>_ _ _ st. st) True True 0x200005 3 77 db_example = Some (True, st')"
    using AddResource_aux [OF db_example_wf(1), of "0x200005" "\<lambda>_ _ _ st. st" True 3 77]
    by (auto simp: db_example_wf CLIENT_ID_example)
  ultimately show ?thesis
    using AddResource_keeps_expect_ok [OF db_example_wf(1)] by blast
qed

lemma masks:
  "RESOURCE_ID_MASK = mask 21" "RESOURCE_CLIENT_MASK = push_bit 21 (mask 8)" "SERVER_BIT = 2 ^ 30"
  by (simp_all add: RESOURCE_ID_MASK_def RESOURCE_CLIENT_MASK_def SERVER_BIT_def CLIENTOFFSET_def
      mask_eq_exp_minus_1)

lemma client_bit_low: "c < MAXCLIENTS \<Longrightarrow> bit c n \<Longrightarrow> n < 8"
proof (rule ccontr)
  assume c: "c < MAXCLIENTS" "bit c n" "\<not> n < 8"
  have "c < 2 ^ 8" using c(1) by (simp add: MAXCLIENTS_def)
  also have "(2::nat) ^ 8 \<le> 2 ^ n" using c(3) by (intro power_increasing) auto
  finally show False using c(2) by (simp add: bit_iff_odd)
qed

lemma LegalNewID_id:
  assumes "client < MAXCLIENTS" "clientAsMask client = xid AND NOT RESOURCE_ID_MASK"
  shows "xid AND SERVER_BIT = 0" "CLIENT_ID xid = client"
proof -
  have b: "bit xid n \<longleftrightarrow> bit client (n - 21)" if "21 \<le> n" "n < 32" for n
  proof -
    have "bit (xid AND NOT RESOURCE_ID_MASK) n \<longleftrightarrow> bit xid n"
      using that by (simp add: masks bit_and_iff bit_not_iff bit_mask_iff)
    with clientAsMask_bit [OF assms(1), of n] assms(2) that show ?thesis by simp
  qed
  show "xid AND SERVER_BIT = 0"
  proof (rule bit_word_eqI)
    fix n assume "n < LENGTH(32)"
    moreover have "bit SERVER_BIT n \<Longrightarrow> n = 30" unfolding masks(3) bit_exp_iff by simp
    ultimately show "bit (xid AND SERVER_BIT) n \<longleftrightarrow> bit (0 :: XID) n"
      using b [of 30] client_bit_low [OF assms(1), of 9] by (auto simp: bit_and_iff)
  qed
  have "drop_bit 21 (xid AND push_bit 21 (mask 8)) = (word_of_nat client :: XID)"
  proof (rule bit_word_eqI)
    fix n assume n: "n < LENGTH(32)"
    show "bit (drop_bit 21 (xid AND push_bit 21 (mask 8))) n \<longleftrightarrow> bit (word_of_nat client :: XID) n"
      using b [of "21 + n"] client_bit_low [OF assms(1), of n] n
      by (cases "n < 8") (auto simp: bit_drop_bit_eq bit_and_iff bit_push_bit_iff bit_mask_iff bit_of_nat_iff add.commute)
  qed
  then show "CLIENT_ID xid = client"
    using assms(1) by (simp add: CLIENT_ID_def CLIENT_BITS_def masks CLIENTOFFSET_def MAXCLIENTS_def unat_of_nat)
qed

text \<open>
  Under that bound an id \<open>LegalNewID\<close> accepts (outside the Panoramix extension) belongs to the client,
  carries no server bit and has no resource that a lookup of any class would find.
\<close>

theorem LegalNewID_unused:
  assumes "db_wf st" "expect_ok st" "client < MAXCLIENTS" "LegalNewID True st xid client"
  shows "CLIENT_ID xid = client \<and> xid AND SERVER_BIT = 0 \<and> LookupIDByClass st xid RC_ANY = 0"
proof -
  have l: "clientAsMask client = xid AND NOT RESOURCE_ID_MASK"
    "expectID (clientTable st client) \<le> xid \<or> LookupIDByClass st xid RC_ANY = 0"
    using assms(4) by (auto simp: LegalNewID_def Let_def)
  note x = LegalNewID_id [OF assms(3) l(1)]
  have "LookupIDByClass st xid RC_ANY = 0" if "expectID (clientTable st client) \<le> xid"
  proof -
    have "entries st xid = []"
      using assms(2) x that unfolding expect_ok_def by (metis not_le)
    then show ?thesis by (simp add: LookupIDByClass_aux [OF assms(1)])
  qed
  with l(2) x show ?thesis by blast
qed

theorem LegalNewID_unused_witness:
  "LegalNewID True db_example 0x200005 1 \<and> LookupIDByClass db_example 0x200005 RC_ANY = 0"
proof -
  have "expect_ok db_example" by (simp add: expect_ok_def db_example_entries)
  moreover have "LegalNewID True db_example 0x200005 1"
    by (simp add: LegalNewID_def Let_def clientAsMask_def CLIENTOFFSET_def RESOURCE_ID_MASK_def
        db_example_def InitClientResources_def)
  ultimately show ?thesis
    using LegalNewID_unused [OF db_example_wf(1), of 1 "0x200005"] by (simp add: MAXCLIENTS_def)
qed

end
