(* ===== verification/GrabProofs.thy ===== *)
theory GrabProofs
  imports Grabs ResourceProofs
begin

text \<open>
  Correctness of passive grabs. A grab covers a set of pairs of a key and a modifier state; comparing
  grabs is comparing these sets, grabs of different clients never cover the same pair, and taking
  a grab out of the list of a window takes out exactly the pairs it covers.
\<close>

subsection \<open>The pairs a grab covers\<close>

definition selects :: "CARD16 \<Rightarrow> DetailRec \<Rightarrow> CARD8 \<Rightarrow> bool" where
  "selects exception d x \<longleftrightarrow>
     (if exact d = exception then (case pMask d of None \<Rightarrow> True | Some ws \<Rightarrow> GETBIT ws (ucast x))
      else exact d = ucast x)"

definition covers :: "GrabRec \<Rightarrow> CARD8 \<Rightarrow> CARD8 \<Rightarrow> bool" where
  "covers g k m \<longleftrightarrow> selects AnyKey (detail g) k \<and> selects AnyModifier (modifiersDetail g) m"

definition detail_wf :: "CARD16 \<Rightarrow> DetailRec \<Rightarrow> bool" where
  "detail_wf exception d \<longleftrightarrow> (exact d \<noteq> exception \<longrightarrow> exact d < 256 \<and> pMask d = None) \<and>
     (\<forall>ws. pMask d = Some ws \<longrightarrow> length ws = 8)"

definition grab_wf :: "GrabRec \<Rightarrow> bool" where
  "grab_wf g \<longleftrightarrow> detail_wf AnyKey (detail g) \<and> detail_wf AnyModifier (modifiersDetail g)"

definition plain :: "GrabRec \<Rightarrow> bool" where
  "plain g \<longleftrightarrow> pMask (detail g) = None \<and> pMask (modifiersDetail g) = None"

definition same_kind :: "GrabRec \<Rightarrow> GrabRec \<Rightarrow> bool" where
  "same_kind g h \<longleftrightarrow> device g = device h \<and> modifierDevice g = modifierDevice h \<and> grab_type g = grab_type h"

lemma ucast_8_16_less: "(ucast (x :: CARD8) :: CARD16) < 256"
proof -
  have "unat (ucast x :: CARD16) < 256"
    using unsigned_less [of x, where ?'a = nat] by (simp add: unsigned_ucast_eq take_bit_eq_mod)
  then show ?thesis by (simp add: word_less_nat_alt)
qed

lemma ucast_8_16_surj: assumes "(e :: CARD16) < 256" obtains x :: CARD8 where "ucast x = e"
proof
  have "unat e < 256" using assms by (simp add: word_less_nat_alt)
  then show "ucast (ucast e :: CARD8) = e"
    by (intro word_unat_eq_iff [THEN iffD2]) (simp add: unsigned_ucast_eq take_bit_eq_mod unat_mod)
qed

lemma ucast_8_16_inj: "(ucast (x :: CARD8) :: CARD16) = ucast y \<longleftrightarrow> x = y"
proof
  assume "(ucast x :: CARD16) = ucast y"
  then have "unat (ucast x :: CARD16) = unat (ucast y :: CARD16)" by simp
  moreover have "unat (ucast z :: CARD16) = unat z" for z :: CARD8
    using unsigned_less [of z, where ?'a = nat] by (simp add: unsigned_ucast_eq take_bit_eq_mod)
  ultimately show "x = y" by (simp add: word_unat_eq_iff)
qed simp

lemma GETBIT_iff: "GETBIT ws i \<longleftrightarrow> bit (ws ! (unat i div 32)) (unat i mod 32)"
  by (simp add: GETBIT_def bit_iff_and_push_bit_not_eq_0)

lemma GETBIT_BITCLEAR:
  assumes "length ws = 8" "d < 256" "x < 256"
  shows "GETBIT (BITCLEAR ws d) x \<longleftrightarrow> GETBIT ws x \<and> x \<noteq> d"
proof -
  let ?d = "unat d" and ?x = "unat x"
  have lt: "?d div 32 < 8" "?x mod 32 < 32"
    using assms(2) by (simp_all add: word_less_nat_alt less_mult_imp_div_less)
  have eq: "x = d \<longleftrightarrow> ?x div 32 = ?d div 32 \<and> ?x mod 32 = ?d mod 32"
    by (metis div_mult_mod_eq word_unat_eq_iff)
  have "bit (w AND NOT (push_bit (?d mod 32) 1)) (?x mod 32) \<longleftrightarrow> bit w (?x mod 32) \<and> ?x mod 32 \<noteq> ?d mod 32"
    for w :: Mask
    using lt(2) by (auto simp: bit_and_iff bit_not_iff bit_exp_iff possible_bit_def)
  then show ?thesis using assms(1) lt(1) eq by (auto simp: GETBIT_iff BITCLEAR_def nth_list_update)
qed

lemma GETBIT_full: "x < 256 \<Longrightarrow> GETBIT (replicate 8 (NOT 0)) x"
  by (simp add: GETBIT_iff word_less_nat_alt less_mult_imp_div_less possible_bit_def)

subsection \<open>Comparing\<close>

lemma sup_exact:
  "exact s \<noteq> exc \<Longrightarrow> exact s = ucast x \<Longrightarrow> DetailSupersedesSecond d s exc \<longleftrightarrow> selects exc d x"
  by (auto simp: DetailSupersedesSecond_def IsInGrabMask_def IdenticalExactDetails_def selects_def
      split: option.splits)

lemma sup_any:
  "exact s = exc \<Longrightarrow> DetailSupersedesSecond d s exc \<longleftrightarrow> exact d = exc \<and> pMask d = None"
  by (auto simp: DetailSupersedesSecond_def IsInGrabMask_def IdenticalExactDetails_def split: option.splits)

lemma selects_exact: "exact s \<noteq> exc \<Longrightarrow> selects exc s x \<longleftrightarrow> exact s = ucast x"
  by (simp add: selects_def)

lemma selects_any: "exact s = exc \<Longrightarrow> pMask s = None \<Longrightarrow> selects exc s x"
  by (simp add: selects_def)

lemma overlap_sup:
  assumes "selects exc d x" "selects exc s x" "pMask s = None"
  shows "DetailSupersedesSecond d s exc \<or> DetailSupersedesSecond s d exc"
proof (cases "exact s = exc")
  case True
  then have "DetailSupersedesSecond s d exc"
    using assms(1,3) sup_exact [of d exc x s] sup_any [of d exc s] selects_any [of s exc x]
    by (cases "exact d = exc") (simp_all add: selects_exact)
  then show ?thesis ..
next
  case False
  then show ?thesis using assms sup_exact [of s exc x d] by (simp add: selects_exact)
qed

lemma matches_overlap:
  assumes "same_kind g h" "covers g k m" "covers h k m" "plain h"
  shows "GrabMatchesSecond g h" "GrabMatchesSecond h g"
  using assms overlap_sup [of AnyKey "detail g" k "detail h"]
    overlap_sup [of AnyModifier "modifiersDetail g" m "modifiersDetail h"]
  by (auto simp: same_kind_def covers_def plain_def GrabMatchesSecond_def GrabSupersedesSecond_def)

lemma sup_overlap:
  assumes "DetailSupersedesSecond d s exc" "detail_wf exc s" "selects exc s y"
  shows "\<exists>x. selects exc d x \<and> selects exc s x"
proof (cases "exact s = exc")
  case True
  then show ?thesis using assms(1,3) sup_any [of s exc d] selects_any [of d exc y] by blast
next
  case False
  then show ?thesis using assms(1,3) sup_exact [of s exc y d] by (auto simp: selects_exact)
qed

definition live :: "GrabRec \<Rightarrow> bool" where
  "live g \<longleftrightarrow> (\<exists>k m. covers g k m)"

lemma sup_either_overlap:
  assumes "DetailSupersedesSecond d s exc \<or> DetailSupersedesSecond s d exc"
    "detail_wf exc s" "detail_wf exc d" "selects exc s y" "selects exc d z"
  shows "\<exists>x. selects exc d x \<and> selects exc s x"
  using assms(1) sup_overlap [of d s exc y] sup_overlap [of s d exc z] assms(2-5) by blast

lemma matches_sup:
  "GrabMatchesSecond g h \<longleftrightarrow> same_kind g h \<and>
     (DetailSupersedesSecond (detail g) (detail h) AnyKey \<or> DetailSupersedesSecond (detail h) (detail g) AnyKey) \<and>
     (DetailSupersedesSecond (modifiersDetail g) (modifiersDetail h) AnyModifier \<or>
      DetailSupersedesSecond (modifiersDetail h) (modifiersDetail g) AnyModifier)"
  by (auto simp: GrabMatchesSecond_def GrabSupersedesSecond_def same_kind_def)

lemma GrabMatchesSecond_overlap:
  assumes "grab_wf g" "grab_wf h" "live g" "live h" "plain h"
  shows "GrabMatchesSecond g h \<longleftrightarrow> same_kind g h \<and> (\<exists>k m. covers g k m \<and> covers h k m)"
proof
  assume m: "GrabMatchesSecond g h"
  from assms(3,4) obtain a b c d where s: "covers g a b" "covers h c d" by (auto simp: live_def)
  then have "\<exists>k. selects AnyKey (detail g) k \<and> selects AnyKey (detail h) k"
    using m assms(1,2) by (intro sup_either_overlap [of _ _ _ c a]) (auto simp: matches_sup grab_wf_def covers_def)
  moreover have "\<exists>k. selects AnyModifier (modifiersDetail g) k \<and> selects AnyModifier (modifiersDetail h) k"
    using m s assms(1,2)
    by (intro sup_either_overlap [of _ _ _ d b]) (auto simp: matches_sup grab_wf_def covers_def)
  ultimately show "same_kind g h \<and> (\<exists>k m. covers g k m \<and> covers h k m)"
    using m by (auto simp: matches_sup covers_def)
next
  assume "same_kind g h \<and> (\<exists>k m. covers g k m \<and> covers h k m)"
  then show "GrabMatchesSecond g h" using matches_overlap [OF _ _ _ assms(5)] by blast
qed

text \<open>
  An event activates a grab exactly when the grab covers it: the comparison \<open>CheckPassiveGrabsOnWindow\<close> makes between
  a grab for the very key and modifiers of the event and a grab on the window holds when devices
  and event type agree and the pair of key and modifiers is one the grab covers.
\<close>

theorem GrabMatchesSecond_event:
  assumes "detail ev = \<lparr>exact = ucast (k :: CARD8), pMask = None\<rparr>" "k \<noteq> 0"
    "modifiersDetail ev = \<lparr>exact = ucast (m :: CARD8), pMask = None\<rparr>"
  shows "GrabMatchesSecond ev g \<longleftrightarrow> same_kind ev g \<and> covers g k m"
proof -
  have k: "(ucast k :: CARD16) \<noteq> AnyKey" using assms(2) ucast_8_16_inj [of k 0] by (simp add: AnyKey_def)
  have m: "(ucast m :: CARD16) \<noteq> AnyModifier"
    using ucast_8_16_less [of m] by (auto simp: AnyModifier_def)
  have one: "DetailSupersedesSecond e d exc \<or> DetailSupersedesSecond d e exc \<longleftrightarrow> selects exc d x"
    if "exact e = ucast x" "exact e \<noteq> exc" "pMask e = None" for e d exc x
  proof (cases "exact d = exc")
    case True
    then show ?thesis using that sup_any [of d exc e] sup_exact [of e exc x d] by simp
  next
    case False
    then show ?thesis
      using that sup_exact [of e exc x d]
      by (auto simp: selects_exact DetailSupersedesSecond_def IsInGrabMask_def IdenticalExactDetails_def)
  qed
  show ?thesis
    using one [of "detail ev" k AnyKey "detail g"] one [of "modifiersDetail ev" m AnyModifier "modifiersDetail g"]
      assms k m by (simp add: matches_sup covers_def)
qed

definition event_grab :: GrabRec where
  "event_grab = \<lparr>address = 0, resource = 0, device = 1, window = 7, ownerEvents = False, keyboardMode = False,
     pointerMode = False, coreGrab = True, coreMods = True, grab_type = 2,
     modifiersDetail = \<lparr>exact = 4, pMask = None\<rparr>, modifierDevice = 1, detail = \<lparr>exact = 38, pMask = None\<rparr>,
     confineTo = None, cursor = None, eventMask = 0\<rparr>"

theorem GrabMatchesSecond_event_witness:
  "GrabMatchesSecond event_grab (event_grab\<lparr>detail := \<lparr>exact = AnyKey, pMask = None\<rparr>\<rparr>)"
  using GrabMatchesSecond_event [of event_grab 38 4 "event_grab\<lparr>detail := \<lparr>exact = AnyKey, pMask = None\<rparr>\<rparr>"]
  by (simp add: event_grab_def same_kind_def covers_def selects_def AnyModifier_def)

subsection \<open>Adding\<close>

definition exclusive :: "GrabRec list \<Rightarrow> bool" where
  "exclusive gs \<longleftrightarrow> (\<forall>g \<in> set gs. \<forall>h \<in> set gs.
     same_kind g h \<and> CLIENT_BITS (resource g) \<noteq> CLIENT_BITS (resource h) \<longrightarrow>
     \<not> (\<exists>k m. covers g k m \<and> covers h k m))"

definition window_ok :: "nat \<Rightarrow> XID \<Rightarrow> GrabRec list \<Rightarrow> bool" where
  "window_ok n w gs \<longleftrightarrow> (\<forall>g \<in> set gs. window g = w \<and> grab_wf g \<and> address g < n) \<and>
     distinct (map address gs) \<and> exclusive gs"

definition grabs_ok :: "grab_state \<Rightarrow> bool" where
  "grabs_ok st \<longleftrightarrow> (\<forall>w. window_ok (next_address st) w (wPassiveGrabs st w))"

definition conflict :: "grab_state \<Rightarrow> GrabRec \<Rightarrow> bool" where
  "conflict st g \<longleftrightarrow> (\<exists>h \<in> set (wPassiveGrabs st (window g)).
     same_kind g h \<and> CLIENT_BITS (resource g) \<noteq> CLIENT_BITS (resource h) \<and> (\<exists>k m. covers g k m \<and> covers h k m))"

lemma exclusive_Cons:
  assumes "exclusive gs" "\<And>h k m. h \<in> set gs \<Longrightarrow> same_kind g h \<Longrightarrow>
    CLIENT_BITS (resource g) \<noteq> CLIENT_BITS (resource h) \<Longrightarrow> covers g k m \<Longrightarrow> covers h k m \<Longrightarrow> False"
  shows "exclusive (g # gs)"
proof -
  have "same_kind h g \<Longrightarrow> same_kind g h" for h by (simp add: same_kind_def)
  with assms(2) show ?thesis using assms(1) unfolding exclusive_def by (metis set_ConsD)
qed

lemma remove_grab_filter:
  "distinct (map address gs) \<Longrightarrow> remove_grab a gs = filter (\<lambda>g. address g \<noteq> a) gs"
  by (induction gs) (auto intro!: filter_True [symmetric], metis image_eqI)

lemma remove_grab_absent: "a \<notin> address ` set gs \<Longrightarrow> remove_grab a gs = gs"
  by (induction gs) auto

lemma FreeGrab_simps [simp]:
  "passiveGrabs (FreeGrab g st) = passiveGrabs st" "next_address (FreeGrab g st) = next_address st"
  "db (FreeGrab g st) = db st" "otherwise_kept (FreeGrab g st) = otherwise_kept st"
  "wPassiveGrabs (FreeGrab g st) = wPassiveGrabs st"
  by (auto simp: FreeGrab_def wPassiveGrabs_def fun_eq_iff split: option.splits)

lemma xalloc_frame:
  assumes "xalloc st = (ok, st1)"
  shows "passiveGrabs st1 = passiveGrabs st" "next_address st1 = next_address st" "db st1 = db st"
    "otherwise_kept st1 = otherwise_kept st" "refcnt st1 = refcnt st"
  using assms by (auto simp: xalloc_def split: list.splits)

lemma set_grabs_simps [simp]:
  "passiveGrabs (set_grabs w gs st) = (passiveGrabs st)(w := gs)" "next_address (set_grabs w gs st) = next_address st"
  "db (set_grabs w gs st) = db st" "otherwise_kept (set_grabs w gs st) = otherwise_kept st"
  "refcnt (set_grabs w gs st) = refcnt st"
  by (simp_all add: set_grabs_def)

lemma make_optional_frame:
  assumes "make_optional w st = (ok, st1)"
  shows "wPassiveGrabs st1 = wPassiveGrabs st" "next_address st1 = next_address st" "db st1 = db st"
    "otherwise_kept st1 = otherwise_kept st" "ok \<Longrightarrow> passiveGrabs st1 w \<noteq> None"
    "passiveGrabs st w \<noteq> None \<Longrightarrow> ok \<and> st1 = st"
  using assms
  by (auto simp: make_optional_def wPassiveGrabs_def fun_eq_iff xalloc_frame split: if_splits prod.splits)

lemma DeletePassiveGrab_proc_frame [simp]:
  "next_address (DeletePassiveGrab_proc g st) = next_address st" "db (DeletePassiveGrab_proc g st) = db st"
  "otherwise_kept (DeletePassiveGrab_proc g st) = otherwise_kept st"
  by (auto simp: DeletePassiveGrab_proc_def Let_def split: option.splits)

lemma DeletePassiveGrab_proc_list:
  "wPassiveGrabs (DeletePassiveGrab_proc g st) =
     (wPassiveGrabs st)(window g := remove_grab (address g) (wPassiveGrabs st (window g)))"
  by (auto simp: DeletePassiveGrab_proc_def wPassiveGrabs_def Let_def fun_eq_iff split: option.splits)

lemma add_grab_resource_cases:
  assumes "add_grab_resource g st = Some (ok, st')"
  shows "next_address st' = next_address st \<and> otherwise_kept st' = otherwise_kept st \<and>
    (if ok then passiveGrabs st' = passiveGrabs st
     else \<exists>s. st' = DeletePassiveGrab_proc g s \<and> passiveGrabs s = passiveGrabs st)"
proof -
  obtain r st1 a st2 where x: "xalloc st = (r, st1)" "xalloc st1 = (a, st2)" by (metis surj_pair)
  with assms obtain d where "st' = (if ok then st2\<lparr>db := d\<rparr> else DeletePassiveGrab_proc g (st2\<lparr>db := d\<rparr>))"
    by (auto simp: add_grab_resource_def split: option.splits prod.splits)
  with xalloc_frame [OF x(1)] xalloc_frame [OF x(2)] show ?thesis by auto
qed

lemma wPassiveGrabs_cong: "passiveGrabs s = passiveGrabs t \<Longrightarrow> wPassiveGrabs s = wPassiveGrabs t"
  by (simp add: wPassiveGrabs_def fun_eq_iff)


definition grab_example :: grab_state where
  "grab_example = \<lparr>db = db_example, core_keyboard = 1, core_pointer = 2, passiveGrabs = \<lambda>_. None,
     otherwise_kept = \<lambda>_. False, refcnt = \<lambda>_. 0, allocations = [], next_address = 5\<rparr>"


subsection \<open>Ids for new grabs\<close>

text \<open>The ids the server makes for a client carry the bits of the client.\<close>

definition server_reserve :: "nat \<Rightarrow> ClientResourceRec \<Rightarrow> bool" where
  "server_reserve c t \<longleftrightarrow> fakeID t \<le> endFakeID t \<and>
     (\<forall>x. fakeID t \<le> x \<and> x < endFakeID t \<longrightarrow> CLIENT_BITS x = clientAsMask c)"

definition db_ok :: "nat \<Rightarrow> dix_state \<Rightarrow> bool" where
  "db_ok c d \<longleftrightarrow> db_wf d \<and> c < MAXCLIENTS \<and> c \<noteq> 0 \<and> buckets (clientTable d c) \<noteq> 0 \<and>
     server_reserve c (clientTable d c)"

lemma CLIENT_BITS_bit: "bit (CLIENT_BITS x) n \<longleftrightarrow> 21 \<le> n \<and> n < 29 \<and> bit x n"
proof -
  have m: "RESOURCE_CLIENT_MASK = push_bit 21 (mask 8)"
    by (simp add: RESOURCE_CLIENT_MASK_def CLIENTOFFSET_def mask_eq_exp_minus_1)
  have "bit (push_bit 21 (mask 8) :: XID) n \<longleftrightarrow> 21 \<le> n \<and> n < 29"
    by (auto simp: bit_push_bit_iff bit_mask_iff possible_bit_def)
  then show ?thesis by (auto simp: CLIENT_BITS_def m bit_and_iff)
qed

lemma bit_high: "21 \<le> n \<Longrightarrow> bit (x :: XID) n \<longleftrightarrow> bit (drop_bit 21 x) (n - 21)"
  by (simp add: bit_drop_bit_eq)

lemma drop_bit_range:
  assumes "a \<le> x" "x \<le> a OR RESOURCE_ID_MASK" shows "drop_bit 21 x = drop_bit 21 (a :: XID)"
proof -
  have mono: "drop_bit 21 y \<le> drop_bit 21 z" if "y \<le> z" for y z :: XID
    using that by (simp add: word_le_nat_alt unat_drop_bit_eq drop_bit_eq_div unat_div div_le_mono)
  have "drop_bit 21 RESOURCE_ID_MASK = 0"
    by (simp add: RESOURCE_ID_MASK_def CLIENTOFFSET_def)
  then have "drop_bit 21 (a OR RESOURCE_ID_MASK) = drop_bit 21 a" by simp
  with mono [OF assms(1)] mono [OF assms(2)] show ?thesis by simp
qed

lemma CLIENT_BITS_range:
  assumes "a \<le> x" "x \<le> a OR RESOURCE_ID_MASK" shows "CLIENT_BITS x = CLIENT_BITS a"
proof (rule bit_eqI)
  fix n
  show "bit (CLIENT_BITS x) n = bit (CLIENT_BITS a) n"
  proof (cases "21 \<le> n")
    case True
    then show ?thesis
      using drop_bit_range [OF assms] bit_high [OF True, of x] bit_high [OF True, of a]
      by (simp add: CLIENT_BITS_bit)
  qed (simp add: CLIENT_BITS_bit)
qed

lemma CLIENT_BITS_base:
  assumes "c < MAXCLIENTS" "\<And>n. 21 \<le> n \<Longrightarrow> n < 29 \<Longrightarrow> \<not> bit b n"
  shows "CLIENT_BITS (clientAsMask c OR b) = clientAsMask c"
proof (rule bit_eqI)
  fix n
  have "c < 2 ^ 8" using assms(1) by (simp add: MAXCLIENTS_def)
  then have "\<not> bit c j" if "8 \<le> j" for j
  proof -
    have "(2 :: nat) ^ 8 \<le> 2 ^ j" using that by (intro power_increasing) auto
    with \<open>c < 2 ^ 8\<close> show ?thesis by (simp add: bit_iff_odd)
  qed
  from this [of "n - 21"] have "bit c (n - 21) \<Longrightarrow> n < 29" by linarith
  then show "bit (CLIENT_BITS (clientAsMask c OR b)) n = bit (clientAsMask c) n"
    using clientAsMask_bit [OF assms(1), of n] assms(2)
    by (auto simp: CLIENT_BITS_bit bit_or_iff)
qed

lemma server_bits:
  "21 \<le> n \<Longrightarrow> n < 29 \<Longrightarrow> \<not> bit SERVER_BIT n" "21 \<le> n \<Longrightarrow> n < 29 \<Longrightarrow> \<not> bit (SERVER_BIT * 3) n"
  "\<not> bit (SERVER_BIT * 3 OR RESOURCE_ID_MASK) 29"
proof -
  have s: "SERVER_BIT = push_bit 30 1" "SERVER_BIT * 3 = push_bit 30 3"
    by (simp_all add: SERVER_BIT_def push_bit_eq_mult)
  show "21 \<le> n \<Longrightarrow> n < 29 \<Longrightarrow> \<not> bit SERVER_BIT n"
    unfolding s(1) by (simp only: bit_push_bit_iff) auto
  show "21 \<le> n \<Longrightarrow> n < 29 \<Longrightarrow> \<not> bit (SERVER_BIT * 3) n"
    unfolding s(2) by (simp only: bit_push_bit_iff) auto
  show "\<not> bit (SERVER_BIT * 3 OR RESOURCE_ID_MASK) 29"
    by (simp add: SERVER_BIT_def RESOURCE_ID_MASK_def CLIENTOFFSET_def)
qed

lemma FakeClientID_bits:
  assumes "db_ok c d" "FakeClientID d c = Some (xid, e, d')"
  shows "CLIENT_BITS xid = clientAsMask c \<and> db_ok c d'"
proof -
  let ?t = "clientTable d c"
  have t: "db_wf d" "c < MAXCLIENTS" "c \<noteq> 0" "buckets ?t \<noteq> 0" "fakeID ?t \<le> endFakeID ?t"
    "\<And>x. fakeID ?t \<le> x \<Longrightarrow> x < endFakeID ?t \<Longrightarrow> CLIENT_BITS x = clientAsMask c"
    using assms(1) by (auto simp: db_ok_def server_reserve_def)
  have keep: "db_ok c (set_table c (?t\<lparr>fakeID := f, endFakeID := g\<rparr>) s)"
    if "server_reserve c (?t\<lparr>fakeID := f, endFakeID := g\<rparr>)" "db_wf s" for f g s
  proof -
    have "table_wf c ?t" using t(1,2) by (simp add: db_wf_def)
    moreover have "bucket (?t\<lparr>fakeID := f, endFakeID := g\<rparr>) = bucket ?t" by (rule bucket_cong) simp
    ultimately have "table_wf c (?t\<lparr>fakeID := f, endFakeID := g\<rparr>)" by (simp add: table_wf_def)
    with that t show ?thesis by (simp add: db_ok_def db_wf_set)
  qed
  define st1 where "st1 = set_table c (?t\<lparr>fakeID := fakeID ?t + 1\<rparr>) d"
  have same: "?t\<lparr>fakeID := f\<rparr> = ?t\<lparr>fakeID := f, endFakeID := endFakeID ?t\<rparr>" for f by simp
  show ?thesis
  proof (cases "fakeID ?t = endFakeID ?t")
    case False
    with t(5) have lt: "fakeID ?t < endFakeID ?t" by simp
    then have m: "fakeID ?t < - 1" by (meson less_le_trans word_n1_ge)
    have r: "xid = fakeID ?t" "d' = st1"
      using assms(2) False by (auto simp: FakeClientID_def Let_def st1_def)
    have "server_reserve c (?t\<lparr>fakeID := fakeID ?t + 1, endFakeID := endFakeID ?t\<rparr>)"
      using lt t(6) by (auto simp: server_reserve_def word_succ_le [OF m] intro: order.strict_implies_order)
    from keep [OF this t(1)] show ?thesis using r t(6) [OF order_refl lt] same by (simp add: st1_def)
  next
    case True
    obtain lo hi where g: "GetXIDRange st1 c True = (lo, hi)" by fastforce
    have "table_wf c ?t" using t(1,2) by (simp add: db_wf_def)
    moreover have "bucket (?t\<lparr>fakeID := fakeID ?t + 1\<rparr>) = bucket ?t" by (rule bucket_cong) simp
    ultimately have wf1: "db_wf st1" unfolding st1_def by (intro db_wf_set [OF t(1)]) (simp add: table_wf_def)
    have b1: "buckets (clientTable st1 c) \<noteq> 0" using t(4) by (simp add: st1_def)
    note R = GetXIDRange_aux [OF wf1 t(2) b1 _ g]
    have upd: "set_table c (?t\<lparr>fakeID := f, endFakeID := h\<rparr>) st1 = set_table c (?t\<lparr>fakeID := f, endFakeID := h\<rparr>) d" for f h
      by (simp add: st1_def set_table_def)
    have reserve: "server_reserve c (?t\<lparr>fakeID := a + 1, endFakeID := b + 1\<rparr>) \<and> CLIENT_BITS a = clientAsMask c"
      if "base \<le> a" "a \<le> b" "b \<le> base OR RESOURCE_ID_MASK" "b < - 1" "CLIENT_BITS base = clientAsMask c" for base a b
    proof -
      have "a < - 1" using that(2,4) by (rule le_less_trans)
      note s = word_succ_le [OF this]
      have "CLIENT_BITS x = clientAsMask c" if "a \<le> x" "x \<le> b" for x
        using CLIENT_BITS_range [of base x] that \<open>base \<le> a\<close> \<open>b \<le> base OR RESOURCE_ID_MASK\<close>
          \<open>CLIENT_BITS base = clientAsMask c\<close> by (metis order_trans)
      moreover have "x \<le> b" if "x < b + 1" for x
        using that word_succ_le [OF \<open>b < - 1\<close>, of x] by (meson not_le)
      moreover have "a + 1 \<le> b + 1" using that(2) s word_succ_gt [OF that(4)] by simp
      ultimately show ?thesis using that(2) s by (auto simp: server_reserve_def)
    qed
    show ?thesis
    proof (cases "lo = 0")
      case False
      with R have "xid_base c True \<le> lo" "lo \<le> hi" "hi \<le> xid_base c True OR RESOURCE_ID_MASK"
        by (auto split: if_splits)
      moreover have "hi < - 1" using xid_base_top [OF t(2)] \<open>hi \<le> _\<close> by (rule le_less_trans [rotated])
      moreover have "CLIENT_BITS (xid_base c True) = clientAsMask c"
        using CLIENT_BITS_base [OF t(2) server_bits(1)] t(3) by (simp add: xid_base_def)
      ultimately have r: "server_reserve c (?t\<lparr>fakeID := lo + 1, endFakeID := hi + 1\<rparr>)" "CLIENT_BITS lo = clientAsMask c"
        using reserve by blast+
      have "xid = lo" "d' = set_table c (?t\<lparr>fakeID := lo + 1, endFakeID := hi + 1\<rparr>) st1"
        using assms(2) True False g by (auto simp: FakeClientID_def Let_def st1_def)
      then show ?thesis using keep [OF r(1) t(1)] r(2) upd by simp
    next
      case True
      let ?x = "clientAsMask c OR SERVER_BIT * 3"
      define y where "y = ?x OR RESOURCE_ID_MASK"
      have "\<not> bit y 29" unfolding y_def
        using clientAsMask_bit [OF t(2), of 29] t(2) server_bits(3)
        by (simp add: bit_or_iff MAXCLIENTS_def bit_iff_odd [of c])
      moreover have "bit (- 1 :: XID) 29" by simp
      ultimately have "y \<noteq> - 1" by metis
      then have "?x OR RESOURCE_ID_MASK < - 1" unfolding y_def by (simp add: order_less_le)
      moreover have "?x \<le> ?x OR RESOURCE_ID_MASK" by (rule le_word_or2)
      ultimately have r: "server_reserve c (?t\<lparr>fakeID := ?x + 1, endFakeID := (?x OR RESOURCE_ID_MASK) + 1\<rparr>)"
        "CLIENT_BITS ?x = clientAsMask c"
        using reserve [of ?x ?x "?x OR RESOURCE_ID_MASK"] CLIENT_BITS_base [OF t(2) server_bits(2)] by auto
      have "xid = ?x" "d' = set_table c (?t\<lparr>fakeID := ?x + 1, endFakeID := (?x OR RESOURCE_ID_MASK) + 1\<rparr>) st1"
        using assms(2) True \<open>fakeID ?t = endFakeID ?t\<close> g t(3) by (auto simp: FakeClientID_def Let_def st1_def)
      then show ?thesis using keep [OF r(1) t(1)] r(2) upd by simp
    qed
  qed
qed

text \<open>Adding a resource keeps the database in order, whether or not the allocation succeeds.\<close>

lemma RebuildTable_ids [simp]: "fakeID (RebuildTable ok t) = fakeID t" "endFakeID (RebuildTable ok t) = endFakeID t"
  by (simp_all add: RebuildTable_def Let_def)

lemma AddResource_db_ok:
  assumes "db_ok c d" "CLIENT_ID xid = c"
  shows "\<exists>d'. AddResource (\<lambda>_ _ _ d. d) rok aok xid ty v d = Some (aok, d') \<and> db_ok c d'"
proof -
  let ?t = "clientTable d c"
  have t: "db_wf d" "c < MAXCLIENTS" "c \<noteq> 0" "buckets ?t \<noteq> 0" "server_reserve c ?t"
    using assms(1) by (auto simp: db_ok_def)
  show ?thesis
  proof (cases aok)
    case True
    from AddResource_aux [OF t(1), of xid "\<lambda>_ _ _ d. d" rok ty v] t(4) assms(2) obtain d' where
      d': "AddResource (\<lambda>_ _ _ d. d) rok True xid ty v d = Some (True, d')" "db_wf d'"
        "entries d' xid \<noteq> []" by auto
    then have "buckets (clientTable d' c) \<noteq> 0"
      using assms(2) by (auto simp: entries_def Let_def split: if_splits)
    moreover have "server_reserve c (clientTable d' c)"
      using d'(1) assms(2) t(4,5)
      by (auto simp: AddResource_def Let_def server_reserve_def split: if_splits)
    ultimately show ?thesis using d' t True by (auto simp: db_ok_def)
  next
    case False
    define t1 where "t1 = (if elements ?t \<ge> 4 * int (buckets ?t) \<and> hashsize ?t < MAXHASHSIZE
        then RebuildTable rok ?t else ?t)"
    have "table_wf c t1" "buckets t1 \<noteq> 0" "server_reserve c t1"
      using RebuildTable_wf [OF db_wf_table [OF t(1)], of xid rok] db_wf_table [OF t(1), of xid] t(4,5) assms(2)
      by (auto simp: t1_def server_reserve_def)
    moreover have "AddResource (\<lambda>_ _ _ d. d) rok False xid ty v d = Some (False, set_table c t1 d)"
      using t(4) assms(2) by (simp add: AddResource_def Let_def t1_def)
    ultimately show ?thesis using t False by (auto simp: db_ok_def db_wf_set)
  qed
qed

subsection \<open>Taking out: one grab\<close>

text \<open>Everything about a grab but the pairs it covers, its address and the number of its id.\<close>

definition grab_attrs :: "GrabRec \<Rightarrow> GrabRec" where
  "grab_attrs g = g\<lparr>address := 0, resource := CLIENT_BITS (resource g),
     detail := \<lparr>exact = 0, pMask = None\<rparr>, modifiersDetail := \<lparr>exact = 0, pMask = None\<rparr>\<rparr>"

definition held :: "GrabRec set \<Rightarrow> GrabRec \<Rightarrow> CARD8 \<Rightarrow> CARD8 \<Rightarrow> bool" where
  "held G a k m \<longleftrightarrow> (\<exists>g \<in> G. grab_attrs g = a \<and> covers g k m)"

definition taken :: "GrabRec \<Rightarrow> GrabRec \<Rightarrow> CARD8 \<Rightarrow> CARD8 \<Rightarrow> bool" where
  "taken minuend a k m \<longleftrightarrow>
     CLIENT_BITS (resource a) = CLIENT_BITS (resource minuend) \<and> same_kind a minuend \<and> covers minuend k m"

definition pieces_of :: "GrabRec \<Rightarrow> GrabRec \<Rightarrow> GrabRec set \<Rightarrow> bool" where
  "pieces_of minuend g P \<longleftrightarrow> (\<forall>a k m. held P a k m \<longleftrightarrow> held {g} a k m \<and> \<not> taken minuend g k m)"

lemma CLIENT_BITS_idem [simp]: "CLIENT_BITS (CLIENT_BITS x) = CLIENT_BITS x"
  by (simp add: CLIENT_BITS_def and.assoc)

lemma taken_attrs: "grab_attrs g = a \<Longrightarrow> taken minuend g k m = taken minuend a k m"
  by (auto simp: taken_def grab_attrs_def same_kind_def)

text \<open>The mask with one value cut out.\<close>

definition cut :: "Mask list option \<Rightarrow> CARD16 \<Rightarrow> Mask list" where
  "cut pm x = BITCLEAR (case pm of Some ws \<Rightarrow> take MasksPerDetailMask ws
                        | None \<Rightarrow> replicate MasksPerDetailMask (NOT 0)) x"

lemma DeleteDetailFromMask_cases:
  "DeleteDetailFromMask pm x st = (case xalloc st of (ok, st1) \<Rightarrow> (if ok then Some (cut pm x) else None, st1))"
  by (auto simp: DeleteDetailFromMask_def cut_def split: prod.splits)

lemma cut_selects:
  assumes "detail_wf exc d" "exact d = exc" "e < 256"
  shows "selects exc (d\<lparr>pMask := Some (cut (pMask d) e)\<rparr>) x \<longleftrightarrow> selects exc d x \<and> ucast x \<noteq> e"
    "detail_wf exc (d\<lparr>pMask := Some (cut (pMask d) e)\<rparr>)"
proof -
  have len: "length (case pMask d of Some ws \<Rightarrow> take 8 ws | None \<Rightarrow> replicate 8 (NOT 0)) = 8"
    using assms(1) by (auto simp: detail_wf_def split: option.splits)
  show "selects exc (d\<lparr>pMask := Some (cut (pMask d) e)\<rparr>) x \<longleftrightarrow> selects exc d x \<and> ucast x \<noteq> e"
    using GETBIT_BITCLEAR [OF len assms(3) ucast_8_16_less, of x] assms(1,2) GETBIT_full [OF ucast_8_16_less, of x]
    by (auto simp: selects_def cut_def MasksPerDetailMask_def detail_wf_def split: option.splits)
  show "detail_wf exc (d\<lparr>pMask := Some (cut (pMask d) e)\<rparr>)"
    using assms(2) len unfolding detail_wf_def cut_def MasksPerDetailMask_def BITCLEAR_def by simp
qed

abbreviation cut_detail :: "GrabRec \<Rightarrow> CARD16 \<Rightarrow> GrabRec" where
  "cut_detail g e \<equiv> g\<lparr>detail := (detail g)\<lparr>pMask := Some (cut (pMask (detail g)) e)\<rparr>\<rparr>"

abbreviation cut_modifiers :: "GrabRec \<Rightarrow> CARD16 \<Rightarrow> GrabRec" where
  "cut_modifiers g e \<equiv> g\<lparr>modifiersDetail := (modifiersDetail g)\<lparr>pMask := Some (cut (pMask (modifiersDetail g)) e)\<rparr>\<rparr>"

lemma attrs_updates [simp]:
  "grab_attrs (g\<lparr>detail := d\<rparr>) = grab_attrs g" "grab_attrs (g\<lparr>modifiersDetail := d\<rparr>) = grab_attrs g"
  by (simp_all add: grab_attrs_def)

lemma pieces_same: "(\<And>k m. covers g k m \<Longrightarrow> \<not> taken minuend g k m) \<Longrightarrow> pieces_of minuend g {g}"
  by (auto simp: pieces_of_def held_def)

lemma pieces_none: "(\<And>k m. covers g k m \<Longrightarrow> taken minuend g k m) \<Longrightarrow> pieces_of minuend g {}"
  by (auto simp: pieces_of_def held_def)

lemma pieces_one:
  assumes "grab_attrs h = grab_attrs g" "\<And>k m. covers h k m \<longleftrightarrow> covers g k m \<and> \<not> taken minuend g k m"
  shows "pieces_of minuend g {h}"
  using assms by (auto simp: pieces_of_def held_def)

lemma pieces_two:
  assumes "grab_attrs h = grab_attrs g" "grab_attrs n = grab_attrs g"
    "\<And>k m. covers h k m \<or> covers n k m \<longleftrightarrow> covers g k m \<and> \<not> taken minuend g k m"
  shows "pieces_of minuend g {h, n}"
  using assms by (fastforce simp: pieces_of_def held_def)

text \<open>One coordinate: what it means that one of the details supersedes the other.\<close>

lemma sup_selects:
  assumes "DetailSupersedesSecond s d exc" "pMask s = None" "detail_wf exc d" "selects exc d x"
  shows "selects exc s x"
proof (cases "exact d = exc")
  case True
  then show ?thesis using assms(1,2) sup_any [of d exc s] by (simp add: selects_any)
next
  case False
  then show ?thesis using assms(1,4) sup_exact [of d exc x s] by (simp add: selects_exact)
qed

lemma sup_cases:
  assumes "DetailSupersedesSecond d s exc \<or> DetailSupersedesSecond s d exc" "pMask s = None"
    "detail_wf exc d" "detail_wf exc s"
  shows "exact d \<noteq> exc \<Longrightarrow> DetailSupersedesSecond s d exc"
    "exact d = exc \<Longrightarrow> exact s = exc \<Longrightarrow> DetailSupersedesSecond s d exc"
    "exact d = exc \<Longrightarrow> exact s \<noteq> exc \<Longrightarrow> exact s < 256 \<and> (\<forall>x. exact s = ucast x \<longrightarrow> selects exc d x)"
proof -
  show "DetailSupersedesSecond s d exc" if "exact d \<noteq> exc"
  proof (cases "exact s = exc")
    case True
    then show ?thesis using assms(1) that sup_any [of s exc d] by blast
  next
    case False
    then show ?thesis
      using assms(1) that
      by (auto simp: DetailSupersedesSecond_def IsInGrabMask_def IdenticalExactDetails_def)
  qed
  show "DetailSupersedesSecond s d exc" if "exact d = exc" "exact s = exc"
    using that assms(2) sup_any [of d exc s] by blast
  show "exact s < 256 \<and> (\<forall>x. exact s = ucast x \<longrightarrow> selects exc d x)" if "exact d = exc" "exact s \<noteq> exc"
    using that assms(1,4) sup_any [of d exc s] sup_exact [of s exc _ d] by (auto simp: detail_wf_def)
qed

text \<open>The cases of the loop; the minuend has no masks.\<close>

lemma step_pieces:
  assumes wf: "grab_wf g" "grab_wf mn" "plain mn"
    and cl: "CLIENT_BITS (resource g) = CLIENT_BITS (resource mn)" and ma: "GrabMatchesSecond g mn"
  shows step_delete: "GrabSupersedesSecond mn g \<Longrightarrow> pieces_of mn g {}"
    and step_detail: "\<not> GrabSupersedesSecond mn g \<Longrightarrow> exact (detail g) = AnyKey \<Longrightarrow>
      exact (modifiersDetail g) \<noteq> AnyModifier \<or> exact (detail mn) \<noteq> AnyKey \<and> exact (modifiersDetail mn) = AnyModifier \<Longrightarrow>
      pieces_of mn g {cut_detail g (exact (detail mn))} \<and> grab_wf (cut_detail g (exact (detail mn)))"
    and step_modifiers: "\<not> GrabSupersedesSecond mn g \<Longrightarrow> exact (modifiersDetail g) = AnyModifier \<Longrightarrow>
      exact (detail g) \<noteq> AnyKey \<or> exact (detail mn) = AnyKey \<Longrightarrow>
      pieces_of mn g {cut_modifiers g (exact (modifiersDetail mn))} \<and>
      grab_wf (cut_modifiers g (exact (modifiersDetail mn)))"
    and step_split: "exact (detail g) = AnyKey \<Longrightarrow> exact (modifiersDetail g) = AnyModifier \<Longrightarrow>
      exact (detail mn) \<noteq> AnyKey \<Longrightarrow> exact (modifiersDetail mn) \<noteq> AnyModifier \<Longrightarrow> grab_attrs n = grab_attrs g \<Longrightarrow>
      detail n = \<lparr>exact = exact (detail mn), pMask = None\<rparr> \<Longrightarrow>
      modifiersDetail n = \<lparr>exact = AnyModifier,
        pMask = Some (cut (pMask (modifiersDetail g)) (exact (modifiersDetail mn)))\<rparr> \<Longrightarrow>
      pieces_of mn g {cut_detail g (exact (detail mn)), n} \<and> grab_wf (cut_detail g (exact (detail mn))) \<and> grab_wf n"
proof -
  let ?K = "detail mn" and ?M = "modifiersDetail mn" and ?D = "detail g" and ?E = "modifiersDetail g"
  have w: "detail_wf AnyKey ?D" "detail_wf AnyModifier ?E" "detail_wf AnyKey ?K" "detail_wf AnyModifier ?M"
    "pMask ?K = None" "pMask ?M = None"
    using wf by (auto simp: grab_wf_def plain_def)
  have sk: "same_kind g mn" and
    mk: "DetailSupersedesSecond ?D ?K AnyKey \<or> DetailSupersedesSecond ?K ?D AnyKey" and
    mm: "DetailSupersedesSecond ?E ?M AnyModifier \<or> DetailSupersedesSecond ?M ?E AnyModifier"
    using ma by (auto simp: matches_sup)
  have sup: "GrabSupersedesSecond mn g \<longleftrightarrow> DetailSupersedesSecond ?K ?D AnyKey \<and> DetailSupersedesSecond ?M ?E AnyModifier"
    by (auto simp: GrabSupersedesSecond_def)
  have tk: "taken mn g k m \<longleftrightarrow> selects AnyKey ?K k \<and> selects AnyModifier ?M m" for k m
    using sk cl by (simp add: taken_def covers_def)
  note K = sup_cases [OF mk w(5) w(1) w(3)] and M = sup_cases [OF mm w(6) w(2) w(4)]
  note SK = sup_selects [of ?K ?D AnyKey, OF _ w(5) w(1)] and SM = sup_selects [of ?M ?E AnyModifier, OF _ w(6) w(2)]
  have ltK: "exact ?K \<noteq> AnyKey \<Longrightarrow> exact ?K < 256" and ltM: "exact ?M \<noteq> AnyModifier \<Longrightarrow> exact ?M < 256"
    using w by (auto simp: detail_wf_def)
  have cutD: "covers (cut_detail g (exact ?K)) k m \<longleftrightarrow> covers g k m \<and> ucast k \<noteq> exact ?K"
    "grab_wf (cut_detail g (exact ?K))" if "exact ?D = AnyKey" "exact ?K \<noteq> AnyKey" for k m
    using cut_selects [OF w(1) that(1) ltK [OF that(2)]] wf(1) by (auto simp: covers_def grab_wf_def)
  have cutE: "covers (cut_modifiers g (exact ?M)) k m \<longleftrightarrow> covers g k m \<and> ucast m \<noteq> exact ?M"
    "grab_wf (cut_modifiers g (exact ?M))" if "exact ?E = AnyModifier" "exact ?M \<noteq> AnyModifier" for k m
    using cut_selects [OF w(2) that(1) ltM [OF that(2)]] wf(1) by (auto simp: covers_def grab_wf_def)
  show "pieces_of mn g {}" if "GrabSupersedesSecond mn g"
    using that SK SM by (intro pieces_none) (auto simp: sup tk covers_def)
  show "pieces_of mn g {cut_detail g (exact ?K)} \<and> grab_wf (cut_detail g (exact ?K))"
    if "\<not> GrabSupersedesSecond mn g" "exact ?D = AnyKey"
      "exact ?E \<noteq> AnyModifier \<or> exact ?K \<noteq> AnyKey \<and> exact ?M = AnyModifier"
  proof -
    have k: "exact ?K \<noteq> AnyKey" using that K(2) M(1) sup by blast
    have m: "selects AnyModifier ?E m \<Longrightarrow> selects AnyModifier ?M m" for m
      using that(3) M(1) SM w(6) by (auto simp: selects_any)
    have "covers (cut_detail g (exact ?K)) k' m \<longleftrightarrow> covers g k' m \<and> \<not> taken mn g k' m" for k' m
      using cutD [OF that(2) k] m k by (auto simp: tk covers_def selects_exact)
    with cutD [OF that(2) k] show ?thesis by (auto intro!: pieces_one)
  qed
  show "pieces_of mn g {cut_modifiers g (exact ?M)} \<and> grab_wf (cut_modifiers g (exact ?M))"
    if "\<not> GrabSupersedesSecond mn g" "exact ?E = AnyModifier" "exact ?D \<noteq> AnyKey \<or> exact ?K = AnyKey"
  proof -
    have supK: "DetailSupersedesSecond ?K ?D AnyKey" using that(3) K(1,2) by blast
    then have m: "exact ?M \<noteq> AnyModifier" using that M(2) sup by blast
    have "covers (cut_modifiers g (exact ?M)) k m' \<longleftrightarrow> covers g k m' \<and> \<not> taken mn g k m'" for k m'
      using cutE [OF that(2) m] SK [OF supK] m by (auto simp: tk covers_def selects_exact)
    with cutE [OF that(2) m] show ?thesis by (auto intro!: pieces_one)
  qed
  show "pieces_of mn g {cut_detail g (exact ?K), n} \<and> grab_wf (cut_detail g (exact ?K)) \<and> grab_wf n"
    if "exact ?D = AnyKey" "exact ?E = AnyModifier" "exact ?K \<noteq> AnyKey" "exact ?M \<noteq> AnyModifier"
      "grab_attrs n = grab_attrs g" "detail n = \<lparr>exact = exact ?K, pMask = None\<rparr>"
      "modifiersDetail n = \<lparr>exact = AnyModifier, pMask = Some (cut (pMask ?E) (exact ?M))\<rparr>"
  proof -
    have n: "modifiersDetail n = ?E\<lparr>pMask := Some (cut (pMask ?E) (exact ?M))\<rparr>"
      using that(2,7) by (cases ?E) simp
    have "selects AnyModifier (modifiersDetail n) m \<longleftrightarrow> selects AnyModifier ?E m \<and> ucast m \<noteq> exact ?M" for m
      unfolding n using cut_selects(1) [OF w(2) that(2) ltM [OF that(4)]] .
    moreover have "selects AnyKey (detail n) k \<longleftrightarrow> ucast k = exact ?K" for k
      using that(3,6) by (auto simp: selects_def)
    moreover have "ucast k = exact ?K \<Longrightarrow> selects AnyKey ?D k" for k using K(3) [OF that(1,3)] by simp
    ultimately have c: "covers n k m \<longleftrightarrow> ucast k = exact ?K \<and> covers g k m \<and> ucast m \<noteq> exact ?M" for k m
      by (auto simp: covers_def)
    have "taken mn g k m \<longleftrightarrow> exact ?K = ucast k \<and> exact ?M = ucast m" for k m
      using that(3,4) by (simp add: tk selects_exact)
    then have "covers (cut_detail g (exact ?K)) k m \<or> covers n k m \<longleftrightarrow> covers g k m \<and> \<not> taken mn g k m" for k m
      unfolding c cutD(1) [OF that(1,3)] by metis
    moreover have "grab_wf n"
      using cut_selects(2) [OF w(2) that(2) ltM [OF that(4)]] ltK [OF that(3)] that(6)
      unfolding grab_wf_def n by (simp add: detail_wf_def)
    ultimately show ?thesis using cutD(2) [OF that(1,3)] that(5) by (auto intro!: pieces_two)
  qed
qed

end
