(* ===== verification/GrabDeletion.thy ===== *)
theory GrabDeletion
  imports GrabProofs
begin

text \<open>
  Correctness of \<open>DeletePassiveGrabFromList\<close>: the loop is followed with an invariant on the deletions,
  additions and new masks it has collected, for every pattern of failing allocations.
\<close>

subsection \<open>What stays the same while the loop runs\<close>

definition frame :: "nat \<Rightarrow> grab_state \<Rightarrow> grab_state \<Rightarrow> bool" where
  "frame c st s \<longleftrightarrow> passiveGrabs s = passiveGrabs st \<and> otherwise_kept s = otherwise_kept st \<and>
     core_keyboard s = core_keyboard st \<and> core_pointer s = core_pointer st \<and>
     next_address st \<le> next_address s \<and> db_ok c (db s) \<and> (allocations st = [] \<longrightarrow> allocations s = [])"

lemma frame_refl: "db_ok c (db st) \<Longrightarrow> frame c st st"
  by (simp add: frame_def)

lemma frame_xalloc: "frame c st s \<Longrightarrow> xalloc s = (ok, s1) \<Longrightarrow> frame c st s1"
  by (auto simp: frame_def xalloc_def split: list.splits)

lemma frame_alloc_fails: "frame c st s \<Longrightarrow> xalloc s = (False, s1) \<Longrightarrow> allocations st \<noteq> []"
  by (auto simp: frame_def xalloc_def)

lemma frame_FreeGrab: "frame c st s \<Longrightarrow> frame c st (FreeGrab g s)"
  by (auto simp: frame_def FreeGrab_def split: option.splits)

lemma frame_db: "frame c st s \<Longrightarrow> db_ok c d \<Longrightarrow> frame c st (s\<lparr>db := d\<rparr>)"
  by (simp add: frame_def)

lemma frame_make_optional:
  "frame c st s \<Longrightarrow> passiveGrabs st w \<noteq> None \<Longrightarrow> make_optional w s = (True, s)"
  by (auto simp: frame_def make_optional_def)

text \<open>Deleting a grab that is not in a list leaves the lists alone.\<close>

lemma delete_absent:
  assumes "address g \<notin> address ` set (wPassiveGrabs s (window g))"
  shows "DeletePassiveGrab_proc g s = FreeGrab g s"
proof (cases "passiveGrabs s (window g)")
  case (Some gs)
  have "remove_grab (address g) gs = gs"
    using assms Some by (intro remove_grab_absent) (simp add: wPassiveGrabs_def)
  then show ?thesis
    using Some by (auto simp: DeletePassiveGrab_proc_def set_grabs_def fun_upd_idem)
qed (simp add: DeletePassiveGrab_proc_def)

lemma frame_delete_absent:
  assumes "frame c st s" "address g \<notin> address ` set (wPassiveGrabs st (window g))"
  shows "frame c st (DeletePassiveGrab_proc g s)"
proof -
  have "wPassiveGrabs s = wPassiveGrabs st" using assms(1) by (intro wPassiveGrabs_cong) (simp add: frame_def)
  with assms delete_absent [of g s] frame_FreeGrab show ?thesis by simp
qed

lemma add_grab_resource_frame:
  assumes "frame c st s" "CLIENT_ID (resource g) = c" "address g \<notin> address ` set (wPassiveGrabs st (window g))"
  shows "\<exists>ok s'. add_grab_resource g s = Some (ok, s') \<and> frame c st s' \<and> next_address s' = next_address s \<and>
    (ok \<or> allocations st \<noteq> [])"
proof -
  obtain r s1 a s2 where x: "xalloc s = (r, s1)" "xalloc s1 = (a, s2)" by (metis surj_pair)
  note f1 = frame_xalloc [OF assms(1) x(1)]
  have f: "frame c st s2" using frame_xalloc [OF f1 x(2)] .
  have al: "a \<or> allocations st \<noteq> []" using frame_alloc_fails [OF f1] x(2) by (cases a) auto
  have "db_ok c (db s2)" using f by (simp add: frame_def)
  from AddResource_db_ok [OF this assms(2)] obtain d where
    d: "AddResource (\<lambda>_ _ _ d. d) r a (resource g) RT_PASSIVEGRAB (address g) (db s2) = Some (a, d)" "db_ok c d"
    by blast
  have "frame c st (if a then s2\<lparr>db := d\<rparr> else DeletePassiveGrab_proc g (s2\<lparr>db := d\<rparr>))"
    using frame_db [OF f d(2)] frame_delete_absent [OF _ assms(3)] by simp
  moreover have "next_address s2 = next_address s" using xalloc_frame(2) [OF x(1)] xalloc_frame(2) [OF x(2)] by simp
  ultimately show ?thesis using x d al by (simp add: add_grab_resource_def)
qed

lemma free_grab_resource_db:
  assumes "db_wf (db s)"
  shows "\<exists>d. free_grab_resource g s = Some (DeletePassiveGrab_proc g (s\<lparr>db := d\<rparr>)) \<and> db_wf d"
  using FreeResource_aux [OF assms well_behaved_id, of "resource g" RT_NONE]
  by (auto simp: free_grab_resource_def)

subsection \<open>Clients and their ids\<close>

lemma CLIENT_ID_mask: "clientAsMask (CLIENT_ID x) = CLIENT_BITS x"
proof (rule bit_eqI)
  fix n
  show "bit (clientAsMask (CLIENT_ID x)) n = bit (CLIENT_BITS x) n"
    by (auto simp: clientAsMask_def CLIENT_ID_def CLIENTOFFSET_def bit_push_bit_iff bit_drop_bit_eq
        CLIENT_BITS_bit possible_bit_def)
qed

lemma CLIENT_ID_cong: "CLIENT_BITS x = CLIENT_BITS y \<Longrightarrow> CLIENT_ID x = CLIENT_ID y"
  by (simp add: CLIENT_ID_def)

lemma FakeClientID_total: "c \<noteq> 0 \<Longrightarrow> \<exists>xid e d'. FakeClientID d c = Some (xid, e, d')"
  by (auto simp: FakeClientID_def Let_def split: prod.splits)

text \<open>Creating a grab like another one.\<close>

lemma CreateGrab_like:
  assumes "frame c st s" "CLIENT_ID (resource g) = c"
    "coreGrab g = (device g = core_keyboard st \<or> device g = core_pointer st)"
    "coreMods g = (modifierDevice g = core_keyboard st \<or> modifierDevice g = core_pointer st)"
  shows "\<exists>r s'. CreateGrab c (device g) (window g) (eventMask g) (ownerEvents g) (keyboardMode g) (pointerMode g)
      (modifierDevice g) AnyModifier (grab_type g) key (confineTo g) (cursor g) s = Some (r, s') \<and> frame c st s' \<and>
    next_address s \<le> next_address s' \<and> (r \<noteq> None \<or> allocations st \<noteq> []) \<and>
    (\<forall>n. r = Some n \<longrightarrow> grab_attrs n = grab_attrs g \<and> detail n = \<lparr>exact = key, pMask = None\<rparr> \<and>
       modifiersDetail n = \<lparr>exact = AnyModifier, pMask = None\<rparr> \<and> address n = next_address s \<and>
       next_address s' = next_address s + 1 \<and> window n = window g \<and> CLIENT_ID (resource n) = c)"
proof -
  obtain ok s1 where x: "xalloc s = (ok, s1)" by fastforce
  have f: "frame c st s1" by (rule frame_xalloc [OF assms(1) x])
  then have d: "db_ok c (db s1)" by (simp add: frame_def)
  then have "c \<noteq> 0" by (simp add: db_ok_def)
  from FakeClientID_total [OF this] obtain xid e d' where i: "FakeClientID (db s1) c = Some (xid, e, d')" by blast
  from FakeClientID_bits [OF d i] have xid: "CLIENT_BITS xid = CLIENT_BITS (resource g)" "db_ok c d'"
    using CLIENT_ID_mask [of "resource g"] assms(2) by auto
  have core: "core_keyboard s1 = core_keyboard st" "core_pointer s1 = core_pointer st"
    "allocations st = [] \<longrightarrow> allocations s1 = []" "passiveGrabs s1 = passiveGrabs st"
    "otherwise_kept s1 = otherwise_kept st" "next_address s1 = next_address s" "next_address st \<le> next_address s"
    using f xalloc_frame(2) [OF x] by (auto simp: frame_def)
  show ?thesis
  proof (cases ok)
    case False
    with f x core(6) frame_alloc_fails [OF assms(1)] show ?thesis by (simp add: CreateGrab_def)
  next
    case True
    with x i xid(2) core CLIENT_ID_cong [OF xid(1)] assms(2-4) xid(1) show ?thesis
      by (simp add: CreateGrab_def frame_def grab_attrs_def)
  qed
qed

subsection \<open>The invariant of the loop\<close>

text \<open>The grabs that stand for the grabs \<open>ps\<close> looked at so far.\<close>

definition result :: "deletion \<Rightarrow> GrabRec list \<Rightarrow> GrabRec set" where
  "result acc ps = set (adds acc) \<union> fold update_grab (updates acc) ` {g \<in> set ps. g \<notin> set (deletes acc)}"

definition bookkeeping :: "nat \<Rightarrow> grab_state \<Rightarrow> XID \<Rightarrow> GrabRec list \<Rightarrow> deletion \<Rightarrow> bool" where
  "bookkeeping c st w ps acc \<longleftrightarrow> frame c st (del_st acc) \<and>
     set (deletes acc) \<subseteq> set ps \<and> distinct (deletes acc) \<and>
     fst ` set (updates acc) \<subseteq> address ` (set ps - set (deletes acc)) \<and>
     (\<forall>n \<in> set (adds acc). window n = w \<and> next_address st \<le> address n \<and> address n < next_address (del_st acc)) \<and>
     distinct (map address (adds acc))"

definition meaning :: "GrabRec \<Rightarrow> GrabRec list \<Rightarrow> deletion \<Rightarrow> bool" where
  "meaning mn ps acc \<longleftrightarrow> (\<forall>a k m. held (result acc ps) a k m \<longleftrightarrow> held (set ps) a k m \<and> \<not> taken mn a k m) \<and>
     (\<forall>g \<in> result acc ps. grab_wf g) \<and> (adds acc \<noteq> [] \<longrightarrow> updates acc \<noteq> [])"

definition scan_inv :: "nat \<Rightarrow> grab_state \<Rightarrow> GrabRec \<Rightarrow> GrabRec list \<Rightarrow> deletion \<Rightarrow> bool" where
  "scan_inv c st mn ps acc \<longleftrightarrow> bookkeeping c st (window mn) ps acc \<and> (del_ok acc \<longrightarrow> meaning mn ps acc) \<and>
     (del_ok acc \<or> allocations st \<noteq> [])"

text \<open>What the loop may rely on for the next grab.\<close>

definition next_grab :: "grab_state \<Rightarrow> GrabRec list \<Rightarrow> GrabRec \<Rightarrow> bool" where
  "next_grab st ps g \<longleftrightarrow> address g \<notin> address ` set ps \<and> address g < next_address st \<and> grab_wf g \<and>
     coreGrab g = (device g = core_keyboard st \<or> device g = core_pointer st) \<and>
     coreMods g = (modifierDevice g = core_keyboard st \<or> modifierDevice g = core_pointer st)"

lemma update_grab_other: "address g \<noteq> fst u \<Longrightarrow> update_grab u g = g"
  by (cases u) (simp add: update_grab_def)

lemma fold_update_other: "address g \<notin> fst ` set us \<Longrightarrow> fold update_grab us g = g"
  by (induction us arbitrary: g) (auto simp: update_grab_other)

lemma address_update [simp]: "address (update_grab u g) = address g"
  by (cases u) (simp add: update_grab_def)

lemma address_fold_update [simp]: "address (fold update_grab us g) = address g"
  by (induction us arbitrary: g) simp_all

lemma held_Un: "held (A \<union> B) a k m \<longleftrightarrow> held A a k m \<or> held B a k m"
  by (auto simp: held_def)

lemma meaning_step:
  assumes "meaning mn ps acc" "result acc' (ps @ [g]) = result acc ps \<union> P" "pieces_of mn g P"
    "\<forall>h \<in> P. grab_wf h" "adds acc' \<noteq> [] \<longrightarrow> updates acc' \<noteq> []"
  shows "meaning mn (ps @ [g]) acc'"
proof -
  have "held P a k m \<longleftrightarrow> held {g} a k m \<and> \<not> taken mn a k m" for a k m
    using assms(3) taken_attrs [of g a mn k m] by (auto simp: pieces_of_def held_def)
  moreover have "held (set (ps @ [g])) a k m \<longleftrightarrow> held (set ps) a k m \<or> held {g} a k m" for a k m
    using held_Un [of "set ps" "{g}"] by simp
  ultimately show ?thesis using assms(1,2,4,5) by (auto simp: meaning_def held_Un)
qed

lemma bookkeeping_mono:
  "bookkeeping c st w ps acc \<Longrightarrow> address g \<notin> address ` set ps \<Longrightarrow> bookkeeping c st w (ps @ [g]) acc"
  by (fastforce simp: bookkeeping_def)

lemma result_skip:
  assumes "bookkeeping c st w ps acc" "address g \<notin> address ` set ps"
  shows "result acc (ps @ [g]) = result acc ps \<union> {g}"
proof -
  have "g \<notin> set (deletes acc)" "address g \<notin> fst ` set (updates acc)"
    using assms by (auto simp: bookkeeping_def)
  moreover from this have "{h \<in> set (ps @ [g]). h \<notin> set (deletes acc)} = insert g {h \<in> set ps. h \<notin> set (deletes acc)}"
    by auto
  ultimately show ?thesis using fold_update_other [of g "updates acc"] by (simp only: result_def image_insert) auto
qed

lemma result_delete:
  assumes "bookkeeping c st w ps acc" "address g \<notin> address ` set ps"
  shows "result (acc\<lparr>deletes := deletes acc @ [g]\<rparr>) (ps @ [g]) = result acc ps \<union> {}"
proof -
  have "{h \<in> set (ps @ [g]). h \<notin> set (deletes acc @ [g])} = {h \<in> set ps. h \<notin> set (deletes acc)}"
    using assms by auto
  then show ?thesis by (simp add: result_def)
qed

lemma result_update:
  assumes "bookkeeping c st w ps acc" "address g \<notin> address ` set ps" "fst u = address g"
  shows "result (acc\<lparr>updates := updates acc @ [u], adds := adds acc @ ns, del_st := s\<rparr>) (ps @ [g]) =
    result acc ps \<union> ({update_grab u g} \<union> set ns)"
proof -
  have g: "g \<notin> set (deletes acc)" "address g \<notin> fst ` set (updates acc)"
    using assms by (auto simp: bookkeeping_def)
  have "fold update_grab (updates acc @ [u]) h = fold update_grab (updates acc) h" if "h \<in> set ps" for h
  proof -
    have "address h \<noteq> address g" using that assms(2) by (metis image_eqI)
    then show ?thesis using assms(3) update_grab_other [of "fold update_grab (updates acc) h" u] by simp
  qed
  moreover have "fold update_grab (updates acc @ [u]) g = update_grab u g"
    using fold_update_other [OF g(2)] by simp
  moreover have "{h \<in> set (ps @ [g]). h \<notin> set (deletes acc)} = insert g {h \<in> set ps. h \<notin> set (deletes acc)}"
    using g(1) by auto
  moreover have "fold update_grab (updates acc @ [u]) ` {h \<in> set ps. h \<notin> set (deletes acc)} =
      fold update_grab (updates acc) ` {h \<in> set ps. h \<notin> set (deletes acc)}"
    using calculation(1) by (intro image_cong) auto
  ultimately have "fold update_grab (updates acc @ [u]) ` {h \<in> set (ps @ [g]). h \<notin> set (deletes acc)} =
      insert (update_grab u g) (fold update_grab (updates acc) ` {h \<in> set ps. h \<notin> set (deletes acc)})"
    by (simp only: image_insert)
  then show ?thesis by (auto simp: result_def)
qed

lemma UPDATE_cases:
  obtains ok s1 where "xalloc (del_st acc) = (ok, s1)"
    "UPDATE b g v acc =
       (if ok then acc\<lparr>updates := updates acc @ [(address g, b, cut (pMask (if b then detail g else modifiersDetail g)) v)],
                       del_st := s1\<rparr>
        else acc\<lparr>del_ok := False, del_st := s1\<rparr>)"
proof -
  obtain ok s1 where "xalloc (del_st acc) = (ok, s1)" by fastforce
  with that show thesis by (simp add: UPDATE_def DeleteDetailFromMask_cases)
qed

lemma bookkeeping_update:
  assumes "bookkeeping c st w ps acc" "address g \<notin> address ` set ps" "fst u = address g" "frame c st s"
    "next_address (del_st acc) \<le> next_address s"
    "\<forall>n \<in> set ns. window n = w \<and> next_address (del_st acc) \<le> address n \<and> address n < next_address s"
    "distinct (map address ns)"
  shows "bookkeeping c st w (ps @ [g]) (acc\<lparr>updates := updates acc @ [u], adds := adds acc @ ns, del_st := s\<rparr>)"
proof -
  have "next_address st \<le> next_address (del_st acc)" using assms(1) by (auto simp: bookkeeping_def frame_def)
  then show ?thesis
    using assms by (fastforce simp: bookkeeping_def)
qed

lemma bookkeeping_st:
  assumes "bookkeeping c st w ps acc" "frame c st s" "next_address (del_st acc) \<le> next_address s"
  shows "bookkeeping c st w ps (acc\<lparr>del_ok := b, del_st := s\<rparr>)"
  using assms by (fastforce simp: bookkeeping_def)

lemma bookkeeping_add:
  assumes "bookkeeping c st w ps acc" "frame c st s" "window n = w"
    "next_address (del_st acc) \<le> address n" "address n < next_address s"
  shows "bookkeeping c st w ps (acc\<lparr>adds := adds acc @ [n], del_st := s\<rparr>)"
proof -
  have "next_address st \<le> next_address (del_st acc)" using assms(1) by (auto simp: bookkeeping_def frame_def)
  then show ?thesis using assms by (fastforce simp: bookkeeping_def)
qed

lemma bookkeeping_delete:
  assumes "bookkeeping c st w ps acc" "address g \<notin> address ` set ps"
  shows "bookkeeping c st w (ps @ [g]) (acc\<lparr>deletes := deletes acc @ [g]\<rparr>)"
proof -
  have g: "g \<notin> set ps" using assms(2) by auto
  then have "set (ps @ [g]) - set (deletes acc @ [g]) = set ps - set (deletes acc)" by auto
  then have "fst ` set (updates acc) \<subseteq> address ` (set (ps @ [g]) - set (deletes acc @ [g]))"
    using assms(1) by (simp add: bookkeeping_def)
  moreover have "set (deletes acc) \<subseteq> set ps" "distinct (deletes acc)"
    using assms(1) by (auto simp: bookkeeping_def)
  moreover from this g have "g \<notin> set (deletes acc)" by auto
  ultimately show ?thesis using assms(1) by (simp add: bookkeeping_def subset_insertI2)
qed

subsection \<open>One round of the loop\<close>

lemma scan_update:
  assumes "scan_inv c st mn ps acc" "del_ok acc" "address g \<notin> address ` set ps" "window g = window mn"
    "pieces_of mn g {update_grab (address g, b, cut (pMask (if b then detail g else modifiersDetail g)) v) g}"
    "grab_wf (update_grab (address g, b, cut (pMask (if b then detail g else modifiersDetail g)) v) g)"
  shows "scan_inv c st mn (ps @ [g]) (UPDATE b g v acc)"
proof -
  let ?u = "(address g, b, cut (pMask (if b then detail g else modifiersDetail g)) v)"
  have bk: "bookkeeping c st (window mn) ps acc" and mg: "meaning mn ps acc"
    using assms(1,2) by (auto simp: scan_inv_def)
  obtain ok s1 where x: "xalloc (del_st acc) = (ok, s1)" and
    u: "UPDATE b g v acc = (if ok then acc\<lparr>updates := updates acc @ [?u], del_st := s1\<rparr>
        else acc\<lparr>del_ok := False, del_st := s1\<rparr>)"
    by (rule UPDATE_cases [of acc b g v])
  have fr: "frame c st s1" using frame_xalloc [OF _ x] bk by (auto simp: bookkeeping_def)
  have na: "next_address s1 = next_address (del_st acc)" using xalloc_frame(2) [OF x] .
  show ?thesis
  proof (cases ok)
    case True
    let ?acc = "acc\<lparr>updates := updates acc @ [?u], adds := adds acc @ [], del_st := s1\<rparr>"
    have eq: "UPDATE b g v acc = ?acc" using u True by simp
    have "bookkeeping c st (window mn) (ps @ [g]) ?acc"
      using na by (intro bookkeeping_update [OF bk assms(3) _ fr]) simp_all
    moreover have "result ?acc (ps @ [g]) = result acc ps \<union> {update_grab ?u g}"
      using result_update [OF bk assms(3), of ?u s1 "[]"] by simp
    from meaning_step [OF mg this assms(5)] assms(6) have "meaning mn (ps @ [g]) ?acc" by simp
    ultimately show ?thesis unfolding eq using assms(2) by (simp add: scan_inv_def)
  next
    case False
    then have "UPDATE b g v acc = acc\<lparr>del_ok := False, del_st := s1\<rparr>" using u by simp
    moreover have "allocations st \<noteq> []"
      using frame_alloc_fails [of c st "del_st acc" s1] x False bk by (simp add: bookkeeping_def)
    ultimately show ?thesis
      using bookkeeping_st [OF bookkeeping_mono [OF bk assms(3)] fr] na by (simp add: scan_inv_def)
  qed
qed

lemma scan_split:
  assumes inv: "scan_inv c st mn ps acc" "del_ok acc" and g: "next_grab st ps g" "window g = window mn"
    "CLIENT_ID (resource g) = c" and w: "passiveGrabs st (window mn) \<noteq> None"
    "\<forall>h \<in> set (wPassiveGrabs st (window mn)). address h < next_address st"
    and P: "\<And>n. grab_attrs n = grab_attrs g \<Longrightarrow> detail n = \<lparr>exact = exact (detail mn), pMask = None\<rparr> \<Longrightarrow>
      modifiersDetail n = \<lparr>exact = AnyModifier,
        pMask = Some (cut (pMask (modifiersDetail g)) (exact (modifiersDetail mn)))\<rparr> \<Longrightarrow>
      pieces_of mn g {cut_detail g (exact (detail mn)), n} \<and> grab_wf (cut_detail g (exact (detail mn))) \<and> grab_wf n"
  shows "\<exists>acc'. split_grab mn g (UPDATE True g (exact (detail mn)) acc) = Some acc' \<and>
    scan_inv c st mn (ps @ [g]) acc'"
proof -
  let ?k = "exact (detail mn)" and ?m = "exact (modifiersDetail mn)"
  let ?u = "(address g, True, cut (pMask (detail g)) ?k)"
  let ?acc = "UPDATE True g ?k acc"
  have bk: "bookkeeping c st (window mn) ps acc" and mg: "meaning mn ps acc"
    using inv by (auto simp: scan_inv_def)
  have ad: "address g \<notin> address ` set ps" using g(1) by (simp add: next_grab_def)
  obtain ok s1 where x: "xalloc (del_st acc) = (ok, s1)" and
    u: "?acc = (if ok then acc\<lparr>updates := updates acc @ [?u], del_st := s1\<rparr>
        else acc\<lparr>del_ok := False, del_st := s1\<rparr>)"
    by (rule UPDATE_cases [of acc True g ?k]) simp
  have fr: "frame c st s1" using frame_xalloc [OF _ x] bk by (auto simp: bookkeeping_def)
  have na: "next_address s1 = next_address (del_st acc)" using xalloc_frame(2) [OF x] .
  have st1: "del_st ?acc = s1" using u by simp
  have bk1: "bookkeeping c st (window mn) (ps @ [g]) ?acc"
    using u bookkeeping_update [OF bk ad, of ?u s1 "[]"] bookkeeping_st [OF bookkeeping_mono [OF bk ad] fr] fr na
    by (cases ok) simp_all
  from CreateGrab_like [OF fr g(3), of ?k] g(1) obtain r s2 where
    cr: "CreateGrab c (device g) (window g) (eventMask g) (ownerEvents g) (keyboardMode g) (pointerMode g)
      (modifierDevice g) AnyModifier (grab_type g) ?k (confineTo g) (cursor g) s1 = Some (r, s2)" "frame c st s2"
      "next_address s1 \<le> next_address s2" "r \<noteq> None \<or> allocations st \<noteq> []" and
    new: "\<And>n. r = Some n \<Longrightarrow> grab_attrs n = grab_attrs g \<and> detail n = \<lparr>exact = ?k, pMask = None\<rparr> \<and>
       modifiersDetail n = \<lparr>exact = AnyModifier, pMask = None\<rparr> \<and> address n = next_address s1 \<and>
       next_address s2 = next_address s1 + 1 \<and> window n = window g \<and> CLIENT_ID (resource n) = c"
    by (auto simp: next_grab_def)
  have failed: "scan_inv c st mn (ps @ [g]) (?acc\<lparr>del_ok := False, del_st := s\<rparr>)"
    if "frame c st s" "next_address s1 \<le> next_address s" "allocations st \<noteq> []" for s
    using bookkeeping_st [OF bk1 that(1)] that(2,3) st1 by (simp add: scan_inv_def)
  show ?thesis
  proof (cases r)
    case None
    with cr failed [OF cr(2,3)] show ?thesis using g(3) st1 by (auto simp: split_grab_def)
  next
    case (Some n)
    note n = new [OF Some]
    obtain ok2 s3 where x3: "xalloc s2 = (ok2, s3)" by fastforce
    have f3: "frame c st s3" "next_address s3 = next_address s2"
      using frame_xalloc [OF cr(2) x3] xalloc_frame(2) [OF x3] by simp_all
    let ?ws = "cut (pMask (modifiersDetail g)) ?m"
    let ?n = "n\<lparr>modifiersDetail := (modifiersDetail n)\<lparr>pMask := Some ?ws\<rparr>\<rparr>"
    show ?thesis
    proof (cases ok2)
      case False
      with cr(1) Some x3 st1 g(3) have
        "split_grab mn g ?acc = Some (?acc\<lparr>del_ok := False, del_st := FreeGrab n s3\<rparr>)"
        by (simp add: split_grab_def DeleteDetailFromMask_cases)
      moreover have "next_address s1 \<le> next_address (FreeGrab n s3)" using cr(3) f3(2) by simp
      moreover have "allocations st \<noteq> []" using frame_alloc_fails [OF cr(2), of s3] x3 False by simp
      ultimately show ?thesis using failed [OF frame_FreeGrab [OF f3(1)]] by blast
    next
      case True
      have ab: "address ?n \<notin> address ` set (wPassiveGrabs st (window ?n))"
      proof
        assume "address ?n \<in> address ` set (wPassiveGrabs st (window ?n))"
        then have "next_address s1 < next_address st" using w(2) n g(2) by auto
        with fr show False by (simp add: frame_def)
      qed
      from add_grab_resource_frame [OF f3(1) _ ab] n obtain added s4 where
        a: "add_grab_resource ?n s3 = Some (added, s4)" "frame c st s4" "next_address s4 = next_address s3"
        "added \<or> allocations st \<noteq> []" by auto
      have opt: "make_optional (window ?n) s3 = (True, s3)"
        using frame_make_optional [OF f3(1)] w(1) n g(2) by simp
      have sp: "split_grab mn g ?acc = Some (if added then ?acc\<lparr>adds := adds ?acc @ [?n], del_st := s4\<rparr>
          else ?acc\<lparr>del_ok := False, del_st := s4\<rparr>)"
        using cr(1) Some x3 st1 g(3) True opt a(1)
        by (cases added) (simp_all add: split_grab_def DeleteDetailFromMask_cases Let_def)
      show ?thesis
      proof (cases added)
        case False
        with sp failed [OF a(2)] a(3,4) f3(2) cr(3) show ?thesis by simp
      next
        case added: True
        let ?acc' = "?acc\<lparr>adds := adds ?acc @ [?n], del_st := s4\<rparr>"
        have "bookkeeping c st (window mn) (ps @ [g]) ?acc'"
          using n g(2) st1 a(3) f3(2) by (intro bookkeeping_add [OF bk1 a(2)]) simp_all
        moreover have "meaning mn (ps @ [g]) ?acc'" if "del_ok ?acc'"
        proof -
          have eq: "?acc' = acc\<lparr>updates := updates acc @ [?u], adds := adds acc @ [?n], del_st := s4\<rparr>"
            using that u by (cases ok) simp_all
          have "grab_attrs ?n = grab_attrs g" "detail ?n = \<lparr>exact = ?k, pMask = None\<rparr>"
            "modifiersDetail ?n = \<lparr>exact = AnyModifier, pMask = Some ?ws\<rparr>"
            using n by simp_all
          note pc = P [OF this]
          have up: "update_grab ?u g = cut_detail g ?k" by (simp add: update_grab_def)
          have "result ?acc' (ps @ [g]) = result acc ps \<union> {cut_detail g ?k, ?n}"
            unfolding eq using result_update [OF bk ad, of ?u s4 "[?n]"] up by (simp add: insert_commute)
          from meaning_step [OF mg this] pc show ?thesis unfolding eq by simp
        qed
        moreover have "del_ok ?acc' \<or> allocations st \<noteq> []"
          using u inv(2) frame_alloc_fails [of c st "del_st acc" s1] x bk by (cases ok) (auto simp: bookkeeping_def)
        ultimately show ?thesis using sp added by (simp add: scan_inv_def)
      qed
    qed
  qed
qed

subsection \<open>The whole loop\<close>

lemma scan_step:
  assumes inv: "scan_inv c st mn ps acc" "del_ok acc" and g: "next_grab st ps g" "window g = window mn"
    and mn: "grab_wf mn" "plain mn" "CLIENT_ID (resource mn) = c" and w: "passiveGrabs st (window mn) \<noteq> None"
    "\<forall>h \<in> set (wPassiveGrabs st (window mn)). address h < next_address st"
  shows "\<exists>acc'. delete_step mn g acc = Some acc' \<and> scan_inv c st mn (ps @ [g]) acc'"
proof -
  have bk: "bookkeeping c st (window mn) ps acc" and mg: "meaning mn ps acc"
    using inv by (auto simp: scan_inv_def)
  have ad: "address g \<notin> address ` set ps" and wf: "grab_wf g" using g(1) by (auto simp: next_grab_def)
  have aw: "del_ok acc \<or> allocations st \<noteq> []" using inv(2) by simp
  let ?D = "exact (detail g) = AnyKey" and ?E = "exact (modifiersDetail g) = AnyModifier"
    and ?K = "exact (detail mn) = AnyKey" and ?M = "exact (modifiersDetail mn) = AnyModifier"
  have upd: "update_grab (address g, True, cut (pMask (detail g)) v) g = cut_detail g v"
    "update_grab (address g, False, cut (pMask (modifiersDetail g)) v) g = cut_modifiers g v" for v
    by (simp_all add: update_grab_def)
  show ?thesis
  proof (cases "CLIENT_BITS (resource g) = CLIENT_BITS (resource mn) \<and> GrabMatchesSecond g mn")
    case False
    then have "pieces_of mn g {g}"
      using matches_overlap(1) [of g mn] mn(2) by (intro pieces_same) (auto simp: taken_def)
    from meaning_step [OF mg result_skip [OF bk ad] this] wf mg
    have "meaning mn (ps @ [g]) acc" by (simp add: meaning_def)
    with False bookkeeping_mono [OF bk ad] aw show ?thesis by (auto simp: delete_step_def scan_inv_def)
  next
    case True
    then have cl: "CLIENT_BITS (resource g) = CLIENT_BITS (resource mn)" and ma: "GrabMatchesSecond g mn" by auto
    note steps = step_delete [OF wf mn(1,2) cl ma] step_detail [OF wf mn(1,2) cl ma]
      step_modifiers [OF wf mn(1,2) cl ma] step_split [OF wf mn(1,2) cl ma]
    show ?thesis
    proof (cases "GrabSupersedesSecond mn g")
      case sup: True
      let ?acc = "acc\<lparr>deletes := deletes acc @ [g]\<rparr>"
      from meaning_step [OF mg result_delete [OF bk ad] steps(1) [OF sup]] mg
      have "meaning mn (ps @ [g]) ?acc" by (simp add: meaning_def)
      moreover have "bookkeeping c st (window mn) (ps @ [g]) ?acc"
        using bookkeeping_delete [OF bk ad] .
      ultimately show ?thesis using True sup aw by (auto simp: delete_step_def scan_inv_def)
    next
      case ns: False
      consider (det) "?D" "\<not> ?E" | (mods) "\<not> ?D" "?E" | (none) "\<not> ?D" "\<not> ?E" | (spl) "?D" "?E" "\<not> ?K" "\<not> ?M"
        | (keys) "?D" "?E" "?K" | (anym) "?D" "?E" "\<not> ?K" "?M" by blast
      then show ?thesis
      proof cases
        case det
        with True ns have "delete_step mn g acc = Some (UPDATE True g (exact (detail mn)) acc)"
          by (simp add: delete_step_def)
        with steps(2) [OF ns] det scan_update [OF inv ad g(2), of True "exact (detail mn)"]
        show ?thesis by (simp add: upd)
      next
        case mods
        with True ns have "delete_step mn g acc = Some (UPDATE False g (exact (modifiersDetail mn)) acc)"
          by (simp add: delete_step_def)
        with steps(3) [OF ns] mods scan_update [OF inv ad g(2), of False "exact (modifiersDetail mn)"]
        show ?thesis by (simp add: upd)
      next
        case none
        have "DetailSupersedesSecond (detail mn) (detail g) AnyKey"
          "DetailSupersedesSecond (modifiersDetail mn) (modifiersDetail g) AnyModifier"
          using sup_cases(1) [of "detail g" "detail mn" AnyKey]
            sup_cases(1) [of "modifiersDetail g" "modifiersDetail mn" AnyModifier] none ma mn(1,2) wf
          by (auto simp: matches_sup plain_def grab_wf_def)
        with ns show ?thesis by (simp add: GrabSupersedesSecond_def)
      next
        case spl
        with True ns have "delete_step mn g acc = split_grab mn g (UPDATE True g (exact (detail mn)) acc)"
          by (simp add: delete_step_def)
        moreover have "CLIENT_ID (resource g) = c" using CLIENT_ID_cong [OF cl] mn(3) by simp
        ultimately show ?thesis using scan_split [OF inv g _ w] steps(4) [OF spl] by simp
      next
        case keys
        with True ns have "delete_step mn g acc = Some (UPDATE False g (exact (modifiersDetail mn)) acc)"
          by (simp add: delete_step_def)
        with steps(3) [OF ns] keys scan_update [OF inv ad g(2), of False "exact (modifiersDetail mn)"]
        show ?thesis by (simp add: upd)
      next
        case anym
        with True ns have "delete_step mn g acc = Some (UPDATE True g (exact (detail mn)) acc)"
          by (simp add: delete_step_def)
        with steps(2) [OF ns] anym scan_update [OF inv ad g(2), of True "exact (detail mn)"]
        show ?thesis by (simp add: upd)
      qed
    qed
  qed
qed

lemma scan_all:
  assumes "scan_inv c st mn ps acc" "grab_wf mn" "plain mn" "CLIENT_ID (resource mn) = c"
    "passiveGrabs st (window mn) \<noteq> None" "\<forall>h \<in> set (wPassiveGrabs st (window mn)). address h < next_address st"
    "distinct (map address (ps @ gs))" "\<forall>g \<in> set gs. next_grab st [] g \<and> window g = window mn"
  shows "\<exists>acc'. delete_scan mn gs acc = Some acc' \<and> scan_inv c st mn (ps @ gs) acc'"
  using assms(1,7,8)
proof (induction gs arbitrary: ps acc)
  case (Cons g gs)
  show ?case
  proof (cases "del_ok acc")
    case False
    have "bookkeeping c st (window mn) (ps @ hs) acc" if "distinct (map address (ps @ hs))" for hs
      using that
    proof (induction hs rule: rev_induct)
      case (snoc h hs)
      then show ?case using bookkeeping_mono [of c st "window mn" "ps @ hs" acc h] by auto
    qed (use Cons.prems(1) in \<open>simp add: scan_inv_def\<close>)
    with False Cons.prems(1,2) show ?thesis by (simp add: scan_inv_def)
  next
    case True
    have "next_grab st ps g" "window g = window mn" using Cons.prems(2,3) by (auto simp: next_grab_def)
    from scan_step [OF Cons.prems(1) True this assms(2-6)] obtain acc1 where
      "delete_step mn g acc = Some acc1" "scan_inv c st mn (ps @ [g]) acc1" by blast
    with Cons.IH [of "ps @ [g]" acc1] Cons.prems(2,3) True show ?thesis by simp
  qed
qed simp

subsection \<open>After the loop\<close>

lemma free_grab_resources_list:
  assumes "db_wf (db s)" "\<forall>g \<in> set ds. window g = w" "distinct (map address (wPassiveGrabs s w))"
  shows "\<exists>s'. free_grab_resources ds s = Some s' \<and> next_address s' = next_address s \<and>
    wPassiveGrabs s' = (wPassiveGrabs s)(w := filter (\<lambda>g. address g \<notin> address ` set ds) (wPassiveGrabs s w))"
  using assms
proof (induction ds arbitrary: s)
  case (Cons d ds)
  from free_grab_resource_db [OF Cons.prems(1), of d] obtain e where
    f: "free_grab_resource d s = Some (DeletePassiveGrab_proc d (s\<lparr>db := e\<rparr>))" "db_wf e" by blast
  let ?s = "DeletePassiveGrab_proc d (s\<lparr>db := e\<rparr>)"
  have s: "wPassiveGrabs ?s = (wPassiveGrabs s)(w := filter (\<lambda>g. address g \<noteq> address d) (wPassiveGrabs s w))"
    using Cons.prems(2,3) wPassiveGrabs_cong [of "s\<lparr>db := e\<rparr>" s]
    by (simp add: DeletePassiveGrab_proc_list remove_grab_filter)
  then have "distinct (map address (wPassiveGrabs ?s w))" using Cons.prems(3) by (simp add: distinct_map_filter)
  with Cons.IH [of ?s] f Cons.prems(2) s show ?case by (auto simp: fun_eq_iff)
qed simp

lemma link_grabs_list:
  assumes "\<forall>g \<in> set ns. window g = w" "ns \<noteq> [] \<longrightarrow> passiveGrabs s w \<noteq> None"
  shows "\<exists>s'. link_grabs ns s = Some s' \<and> next_address s' = next_address s \<and>
    wPassiveGrabs s' = (wPassiveGrabs s)(w := rev ns @ wPassiveGrabs s w)"
  using assms
proof (induction ns arbitrary: s)
  case (Cons n ns)
  then obtain gs where gs: "passiveGrabs s w = Some gs" by auto
  let ?s = "set_grabs w (Some (n # gs)) s"
  have "wPassiveGrabs ?s = (wPassiveGrabs s)(w := n # gs)" "wPassiveGrabs s w = gs"
    using gs by (auto simp: wPassiveGrabs_def)
  with Cons.IH [of ?s] Cons.prems gs show ?case by (auto simp: fun_eq_iff)
qed simp

lemma apply_updates_list:
  "wPassiveGrabs (apply_updates w us s) = (wPassiveGrabs s)(w := map (fold update_grab us) (wPassiveGrabs s w))"
  by (auto simp: apply_updates_def wPassiveGrabs_def fun_eq_iff split: option.splits)

lemma free_adds:
  assumes "db_wf (db s)" "\<forall>n \<in> set ns. address n \<notin> address ` set (wPassiveGrabs s (window n))"
  shows "\<exists>s'. free_grab_resources ns s = Some s' \<and> next_address s' = next_address s \<and>
    wPassiveGrabs s' = wPassiveGrabs s"
  using assms
proof (induction ns arbitrary: s)
  case (Cons n ns)
  from free_grab_resource_db [OF Cons.prems(1), of n] obtain e where
    f: "free_grab_resource n s = Some (DeletePassiveGrab_proc n (s\<lparr>db := e\<rparr>))" "db_wf e" by blast
  have eq: "wPassiveGrabs (s\<lparr>db := e\<rparr>) = wPassiveGrabs s" by (rule wPassiveGrabs_cong) simp
  then have "DeletePassiveGrab_proc n (s\<lparr>db := e\<rparr>) = FreeGrab n (s\<lparr>db := e\<rparr>)"
    using Cons.prems(2) by (intro delete_absent) simp
  with f Cons.IH [of "FreeGrab n (s\<lparr>db := e\<rparr>)"] Cons.prems(2) eq show ?case by simp
qed simp

lemma window_ok_mono: "window_ok n w gs \<Longrightarrow> n \<le> n' \<Longrightarrow> window_ok n' w gs"
  by (fastforce simp: window_ok_def)

lemma attrs_same:
  assumes "grab_attrs g = grab_attrs h"
  shows "CLIENT_BITS (resource g) = CLIENT_BITS (resource h)" "same_kind g k = same_kind h k" "same_kind k g = same_kind k h"
proof -
  have sel: "resource (grab_attrs x) = CLIENT_BITS (resource x)" "device (grab_attrs x) = device x"
    "modifierDevice (grab_attrs x) = modifierDevice x" "grab_type (grab_attrs x) = grab_type x" for x
    by (simp_all add: grab_attrs_def)
  note f = sel [of g, unfolded assms, unfolded sel]
  then show "CLIENT_BITS (resource g) = CLIENT_BITS (resource h)" "same_kind g k = same_kind h k"
    "same_kind k g = same_kind k h"
    by (simp_all add: same_kind_def)
qed

lemma exclusive_held:
  assumes "exclusive gs" "\<And>a k m. held (set hs) a k m \<Longrightarrow> held (set gs) a k m"
  shows "exclusive hs"
  unfolding exclusive_def
proof (intro ballI impI notI, elim conjE exE)
  fix g h k m
  assume "g \<in> set hs" "h \<in> set hs" and s: "same_kind g h" "CLIENT_BITS (resource g) \<noteq> CLIENT_BITS (resource h)"
    and "covers g k m" "covers h k m"
  then have "held (set hs) (grab_attrs g) k m" "held (set hs) (grab_attrs h) k m" by (auto simp: held_def)
  then obtain g0 h0 where o: "g0 \<in> set gs" "grab_attrs g0 = grab_attrs g" "covers g0 k m"
    "h0 \<in> set gs" "grab_attrs h0 = grab_attrs h" "covers h0 k m"
    using assms(2) by (meson held_def)
  have "same_kind g0 h0" "CLIENT_BITS (resource g0) \<noteq> CLIENT_BITS (resource h0)"
    using s attrs_same [OF o(2)] attrs_same [OF o(5)] by auto
  with assms(1) o show False by (auto simp: exclusive_def)
qed

definition core_ok :: "grab_state \<Rightarrow> GrabRec \<Rightarrow> bool" where
  "core_ok st g \<longleftrightarrow> coreGrab g = (device g = core_keyboard st \<or> device g = core_pointer st) \<and>
     coreMods g = (modifierDevice g = core_keyboard st \<or> modifierDevice g = core_pointer st)"

text \<open>The list of the window after a loop that went well, and how the code makes it.\<close>

definition final_list :: "deletion \<Rightarrow> GrabRec list \<Rightarrow> GrabRec list" where
  "final_list acc gs = map (fold update_grab (updates acc))
     (rev (adds acc) @ filter (\<lambda>g. address g \<notin> address ` set (deletes acc)) gs)"

lemma window_fold_update [simp]: "window (fold update_grab us g) = window g"
proof (induction us arbitrary: g)
  case (Cons u us)
  have "window (update_grab u g) = window g" by (cases u) (simp add: update_grab_def)
  with Cons show ?case by simp
qed simp

lemma kept_grabs:
  assumes "set (deletes acc) \<subseteq> set gs" "distinct (map address gs)"
  shows "set (filter (\<lambda>g. address g \<notin> address ` set (deletes acc)) gs) = {g \<in> set gs. g \<notin> set (deletes acc)}"
  using assms by (auto simp: distinct_map inj_on_def)

lemma final_list_set:
  assumes "bookkeeping c st w gs acc" "window_ok (next_address st) w gs"
  shows "set (final_list acc gs) = result acc gs"
proof -
  have "fold update_grab (updates acc) n = n" if "n \<in> set (adds acc)" for n
  proof (rule fold_update_other, rule notI)
    assume "address n \<in> fst ` set (updates acc)"
    then obtain g where "g \<in> set gs" "address n = address g"
      using assms(1) by (fastforce simp: bookkeeping_def)
    with that assms show False by (fastforce simp: bookkeeping_def window_ok_def)
  qed
  then have "fold update_grab (updates acc) ` set (adds acc) = set (adds acc)" by simp
  moreover have "set (deletes acc) \<subseteq> set gs" "distinct (map address gs)"
    using assms by (auto simp: bookkeeping_def window_ok_def)
  ultimately show ?thesis
    using kept_grabs [of acc gs] by (simp only: final_list_def result_def set_map set_append set_rev image_Un)
qed

lemma final_list_ok:
  assumes "bookkeeping c st w gs acc" "meaning mn gs acc" "window_ok (next_address st) w gs"
  shows "window_ok (next_address (del_st acc)) w (final_list acc gs)"
  unfolding window_ok_def
proof (intro conjI ballI)
  have le: "next_address st \<le> next_address (del_st acc)" using assms(1) by (auto simp: bookkeeping_def frame_def)
  have ns: "window n = w \<and> next_address st \<le> address n \<and> address n < next_address (del_st acc)"
    if "n \<in> set (adds acc)" for n using assms(1) that by (auto simp: bookkeeping_def)
  have gs: "window g = w \<and> address g < next_address st" if "g \<in> set gs" for g
    using assms(3) that by (auto simp: window_ok_def)
  note set = final_list_set [OF assms(1,3)]
  fix g assume g: "g \<in> set (final_list acc gs)"
  with assms(2) show "grab_wf g" unfolding set meaning_def by blast
  from g ns gs show "window g = w" by (auto simp: final_list_def)
  from g ns gs le show "address g < next_address (del_st acc)" by (fastforce simp: final_list_def)
next
  let ?keep = "filter (\<lambda>g. address g \<notin> address ` set (deletes acc)) gs"
  have ne: "address n \<noteq> address g" if "n \<in> set (adds acc)" "g \<in> set gs" for n g
    using assms(1,3) that by (fastforce simp: bookkeeping_def window_ok_def)
  have "map address (final_list acc gs) = map address (rev (adds acc)) @ map address ?keep"
    by (simp add: final_list_def o_def)
  moreover have "distinct (map address (rev (adds acc)))" "distinct (map address ?keep)"
    using assms(1,3) by (auto simp: bookkeeping_def window_ok_def distinct_map_filter rev_map [symmetric])
  moreover have "set (map address (rev (adds acc))) \<inter> set (map address ?keep) = {}"
  proof (rule ccontr)
    assume "set (map address (rev (adds acc))) \<inter> set (map address ?keep) \<noteq> {}"
    then obtain n g where "n \<in> set (adds acc)" "g \<in> set gs" "address n = address g" by auto
    with ne show False by blast
  qed
  ultimately show "distinct (map address (final_list acc gs))" by (simp only: distinct_append)
next
  have "exclusive gs" using assms(3) by (simp add: window_ok_def)
  moreover have "held (set (final_list acc gs)) a k m \<Longrightarrow> held (set gs) a k m" for a k m
    using assms(2) unfolding final_list_set [OF assms(1,3)] meaning_def by blast
  ultimately show "exclusive (final_list acc gs)" by (rule exclusive_held)
qed

text \<open>What the code does after the loop.\<close>

lemma commit:
  assumes bk: "bookkeeping c st w gs acc" and mg: "meaning mn gs acc" and ok: "window_ok (next_address st) w gs"
    and gs: "gs = wPassiveGrabs st w"
  shows "\<exists>s2 s3. free_grab_resources (deletes acc) (del_st acc) = Some s2 \<and> link_grabs (adds acc) s2 = Some s3 \<and>
    wPassiveGrabs (apply_updates w (updates acc) s3) = (wPassiveGrabs st)(w := final_list acc gs) \<and>
    next_address (apply_updates w (updates acc) s3) = next_address (del_st acc)"
proof -
  let ?s = "del_st acc" and ?keep = "filter (\<lambda>g. address g \<notin> address ` set (deletes acc)) gs"
  have sub: "set (deletes acc) \<subseteq> set gs" and us: "fst ` set (updates acc) \<subseteq> address ` (set gs - set (deletes acc))"
    and ns: "\<forall>n \<in> set (adds acc). window n = w" and wf: "db_wf (db ?s)"
    using bk by (auto simp: bookkeeping_def frame_def db_ok_def)
  have l: "wPassiveGrabs ?s = wPassiveGrabs st"
    using bk by (intro wPassiveGrabs_cong) (simp add: bookkeeping_def frame_def)
  have "\<forall>g \<in> set (deletes acc). window g = w" "distinct (map address (wPassiveGrabs ?s w))"
    using sub ok gs l by (auto simp: window_ok_def)
  from free_grab_resources_list [OF wf this] obtain s2 where
    s2: "free_grab_resources (deletes acc) ?s = Some s2" "next_address s2 = next_address ?s"
      "wPassiveGrabs s2 = (wPassiveGrabs st)(w := ?keep)" using l gs by auto
  have "adds acc \<noteq> [] \<longrightarrow> passiveGrabs s2 w \<noteq> None"
  proof
    assume "adds acc \<noteq> []"
    then have "updates acc \<noteq> []" using mg by (simp add: meaning_def)
    then obtain g where "g \<in> set gs - set (deletes acc)" using us by (cases "updates acc") auto
    then have "g \<in> set ?keep" using kept_grabs [OF sub] ok by (simp add: window_ok_def)
    then have "wPassiveGrabs s2 w \<noteq> []" using s2(3) by (metis empty_iff fun_upd_same list.set(1))
    then show "passiveGrabs s2 w \<noteq> None" unfolding wPassiveGrabs_def by (cases "passiveGrabs s2 w") auto
  qed
  from link_grabs_list [OF ns this] obtain s3 where
    s3: "link_grabs (adds acc) s2 = Some s3" "next_address s3 = next_address ?s"
      "wPassiveGrabs s3 = (wPassiveGrabs st)(w := rev (adds acc) @ ?keep)" using s2 by auto
  have "wPassiveGrabs (apply_updates w (updates acc) s3) = (wPassiveGrabs st)(w := final_list acc gs)"
    unfolding apply_updates_list s3(3) by (simp add: final_list_def)
  moreover have "next_address (apply_updates w (updates acc) s3) = next_address ?s"
    using s3(2) by (simp add: apply_updates_def)
  ultimately show ?thesis using s2(1) s3(1) by blast
qed

lemma back_out:
  assumes "bookkeeping c st w gs acc" "grabs_ok st"
  shows "\<exists>s. free_grab_resources (adds acc) (del_st acc) = Some s \<and> wPassiveGrabs s = wPassiveGrabs st \<and> grabs_ok s"
proof -
  let ?s = "del_st acc"
  have l: "wPassiveGrabs ?s = wPassiveGrabs st"
    using assms(1) by (intro wPassiveGrabs_cong) (simp add: bookkeeping_def frame_def)
  have "db_wf (db ?s)" and le: "next_address st \<le> next_address ?s"
    using assms(1) by (auto simp: bookkeeping_def frame_def db_ok_def)
  moreover have "\<forall>n \<in> set (adds acc). address n \<notin> address ` set (wPassiveGrabs ?s (window n))"
    using assms l by (fastforce simp: bookkeeping_def grabs_ok_def window_ok_def)
  ultimately obtain s where "free_grab_resources (adds acc) ?s = Some s"
    "next_address s = next_address ?s" "wPassiveGrabs s = wPassiveGrabs ?s" using free_adds by blast
  with assms(2) l le show ?thesis by (auto simp: grabs_ok_def intro: window_ok_mono)
qed

lemma scan_window:
  assumes "grabs_ok st" "db_ok (CLIENT_ID (resource mn)) (db st)" "grab_wf mn" "plain mn"
    "\<forall>g \<in> set (wPassiveGrabs st (window mn)). core_ok st g" "wPassiveGrabs st (window mn) \<noteq> []"
    "xalloc st = (ok, st1)"
  shows "\<exists>acc. delete_scan mn (wPassiveGrabs st (window mn))
      \<lparr>del_ok = True, deletes = [], adds = [], updates = [], del_st = st1\<rparr> = Some acc \<and>
    scan_inv (CLIENT_ID (resource mn)) st mn (wPassiveGrabs st (window mn)) acc"
proof -
  let ?gs = "wPassiveGrabs st (window mn)"
    and ?acc0 = "\<lparr>del_ok = True, deletes = [], adds = [], updates = [], del_st = st1\<rparr>"
  have ok: "window_ok (next_address st) (window mn) ?gs" using assms(1) by (simp add: grabs_ok_def)
  have "scan_inv (CLIENT_ID (resource mn)) st mn [] ?acc0"
    using frame_xalloc [OF frame_refl [OF assms(2)] assms(7)]
    by (simp add: scan_inv_def bookkeeping_def meaning_def result_def held_def)
  moreover have "passiveGrabs st (window mn) \<noteq> None"
    using assms(6) by (auto simp: wPassiveGrabs_def split: option.splits)
  moreover have "\<forall>g \<in> set ?gs. next_grab st [] g \<and> window g = window mn"
    using ok assms(5) by (auto simp: next_grab_def core_ok_def window_ok_def)
  ultimately show ?thesis
    using scan_all [of _ st mn "[]" ?acc0 ?gs] assms(3,4) ok by (auto simp: window_ok_def)
qed

text \<open>
  C19. Ungrabbing: \<open>DeletePassiveGrabFromList\<close> always returns. When it succeeds, the grabs on the window cover, with
  the same events, devices, modes, cursor and confining window, exactly the pairs of key and
  modifiers they covered before, without those of the minuend for its client, devices and event
  type; other clients and other windows lose nothing. When an allocation fails it reports so and
  every list is as before. It only fails when an allocation does.
\<close>

theorem DeletePassiveGrabFromList_takes_out:
  assumes "grabs_ok st" "db_ok (CLIENT_ID (resource mn)) (db st)" "grab_wf mn" "plain mn"
    "\<forall>g \<in> set (wPassiveGrabs st (window mn)). core_ok st g"
  shows "\<exists>ok st'. DeletePassiveGrabFromList mn st = Some (ok, st') \<and> grabs_ok st' \<and>
    (\<forall>w. w \<noteq> window mn \<or> \<not> ok \<longrightarrow> wPassiveGrabs st' w = wPassiveGrabs st w) \<and>
    (ok \<longrightarrow> (\<forall>a k m. held (set (wPassiveGrabs st' (window mn))) a k m \<longleftrightarrow>
       held (set (wPassiveGrabs st (window mn))) a k m \<and> \<not> taken mn a k m)) \<and>
    (allocations st = [] \<longrightarrow> ok)"
proof (cases "wPassiveGrabs st (window mn) = []")
  case True
  then show ?thesis
    using assms(1) by (intro exI [of _ True] exI [of _ st]) (simp add: DeletePassiveGrabFromList_def held_def)
next
  case False
  let ?w = "window mn" and ?gs = "wPassiveGrabs st (window mn)"
  have win: "window_ok (next_address st) w (wPassiveGrabs st w)" for w using assms(1) by (simp add: grabs_ok_def)
  obtain lok st1 where x: "xalloc st = (lok, st1)" by fastforce
  show ?thesis
  proof (cases lok)
    case lf: False
    then have "DeletePassiveGrabFromList mn st = Some (False, st1)"
      using x False by (simp add: DeletePassiveGrabFromList_def Let_def)
    moreover have "allocations st \<noteq> []" using frame_alloc_fails [OF frame_refl [OF assms(2)]] x lf by simp
    moreover have "wPassiveGrabs st1 = wPassiveGrabs st" by (rule wPassiveGrabs_cong [OF xalloc_frame(1) [OF x]])
    ultimately show ?thesis
      using assms(1) xalloc_frame(2) [OF x] by (intro exI [of _ False] exI [of _ st1]) (simp add: grabs_ok_def)
  next
    case True
    from scan_window [OF assms False x] obtain acc where
      scan: "delete_scan mn ?gs \<lparr>del_ok = True, deletes = [], adds = [], updates = [], del_st = st1\<rparr> = Some acc"
        "scan_inv (CLIENT_ID (resource mn)) st mn ?gs acc" by blast
    then have bk: "bookkeeping (CLIENT_ID (resource mn)) st ?w ?gs acc"
      and bad: "del_ok acc \<or> allocations st \<noteq> []" by (auto simp: scan_inv_def)
    show ?thesis
    proof (cases "del_ok acc")
      case False
      with back_out [OF bk assms(1)] x True \<open>?gs \<noteq> []\<close> scan(1) bad show ?thesis
        by (auto simp: DeletePassiveGrabFromList_def Let_def intro!: exI [of _ False])
    next
      case ok: True
      with scan(2) have mg: "meaning mn ?gs acc" by (simp add: scan_inv_def)
      from commit [OF bk mg win refl] obtain s2 s3 where
        c: "free_grab_resources (deletes acc) (del_st acc) = Some s2" "link_grabs (adds acc) s2 = Some s3"
          "wPassiveGrabs (apply_updates ?w (updates acc) s3) = (wPassiveGrabs st)(?w := final_list acc ?gs)"
          "next_address (apply_updates ?w (updates acc) s3) = next_address (del_st acc)" by blast
      let ?st' = "apply_updates ?w (updates acc) s3"
      have "DeletePassiveGrabFromList mn st = Some (True, ?st')"
        using x True \<open>?gs \<noteq> []\<close> scan(1) ok c(1,2) by (simp add: DeletePassiveGrabFromList_def Let_def)
      moreover have "next_address st \<le> next_address (del_st acc)" using bk by (auto simp: bookkeeping_def frame_def)
      then have "grabs_ok ?st'"
        using final_list_ok [OF bk mg win] window_ok_mono [OF win] c(3,4) by (simp add: grabs_ok_def)
      moreover have "held (set (final_list acc ?gs)) a k m \<longleftrightarrow> held (set ?gs) a k m \<and> \<not> taken mn a k m" for a k m
        using final_list_set [OF bk win] mg by (simp add: meaning_def)
      ultimately show ?thesis using c(3) by (intro exI [of _ True] exI [of _ ?st']) simp
    qed
  qed
qed

definition any_grab :: GrabRec where
  "any_grab = event_grab\<lparr>resource := 0x40200000, detail := \<lparr>exact = AnyKey, pMask = None\<rparr>,
     modifiersDetail := \<lparr>exact = AnyModifier, pMask = None\<rparr>\<rparr>"

definition any_state :: grab_state where
  "any_state = grab_example\<lparr>passiveGrabs := (\<lambda>_. None)(7 := Some [any_grab])\<rparr>"

lemma db_example_ok: "db_ok 1 db_example"
proof -
  have t: "fakeID (clientTable db_example 1) = 0x40200000" "endFakeID (clientTable db_example 1) = 0x40400000"
    by (simp_all add: db_example_def InitClientResources_def Let_def clientAsMask_def CLIENTOFFSET_def
        SERVER_BIT_def RESOURCE_ID_MASK_def)
  have "CLIENT_BITS x = clientAsMask 1" if "0x40200000 \<le> x" "x < 0x40400000" for x
  proof -
    have "x \<le> 0x40200000 OR RESOURCE_ID_MASK"
      using that(2) by (simp add: RESOURCE_ID_MASK_def CLIENTOFFSET_def word_less_nat_alt word_le_nat_alt)
    from CLIENT_BITS_range [OF that(1) this] show ?thesis
      by (simp add: CLIENT_BITS_def RESOURCE_CLIENT_MASK_def CLIENTOFFSET_def clientAsMask_def)
  qed
  then show ?thesis using db_example_wf t by (simp add: db_ok_def server_reserve_def MAXCLIENTS_def)
qed

theorem DeletePassiveGrabFromList_takes_out_witness:
  "\<exists>st'. DeletePassiveGrabFromList (event_grab\<lparr>resource := 0x40200000\<rparr>) any_state = Some (True, st') \<and>
    (\<forall>g \<in> set (wPassiveGrabs st' 7). \<not> covers g 38 4) \<and> (\<exists>g \<in> set (wPassiveGrabs st' 7). covers g 38 5)"
proof -
  let ?mn = "event_grab\<lparr>resource := 0x40200000\<rparr>"
  have c: "CLIENT_ID 0x40200000 = 1"
    by (simp add: CLIENT_ID_def CLIENT_BITS_def RESOURCE_CLIENT_MASK_def CLIENTOFFSET_def)
  have w: "wPassiveGrabs any_state = (\<lambda>_. [])(7 := [any_grab])"
    by (simp add: wPassiveGrabs_def any_state_def fun_eq_iff)
  have wf: "grab_wf any_grab" "grab_wf ?mn" "plain ?mn" "window any_grab = 7" "window ?mn = 7" "address any_grab = 0"
    "next_address any_state = 5" "allocations any_state = []" "db any_state = db_example" "core_ok any_state any_grab"
    by (simp_all add: any_grab_def event_grab_def grab_wf_def detail_wf_def plain_def AnyKey_def AnyModifier_def
        any_state_def grab_example_def core_ok_def)
  have "grabs_ok any_state"
    using wf by (simp add: grabs_ok_def window_ok_def w exclusive_def)
  moreover have "db_ok (CLIENT_ID (resource ?mn)) (db any_state)" using db_example_ok c wf by simp
  ultimately obtain st' where st': "DeletePassiveGrabFromList ?mn any_state = Some (True, st')"
    "\<And>a k m. held (set (wPassiveGrabs st' 7)) a k m \<longleftrightarrow> held {any_grab} a k m \<and> \<not> taken ?mn a k m"
    using DeletePassiveGrabFromList_takes_out [of any_state ?mn] wf w by auto
  have cov: "covers any_grab k m" "covers ?mn k m \<longleftrightarrow> k = 38 \<and> m = 4" for k m
    using ucast_8_16_inj [of k 38] ucast_8_16_inj [of m 4]
    by (auto simp: covers_def selects_def any_grab_def event_grab_def AnyKey_def AnyModifier_def)
  have tk: "taken ?mn (grab_attrs any_grab) k m \<longleftrightarrow> k = 38 \<and> m = 4" for k m
    using cov(2) [of k m] by (simp add: taken_def grab_attrs_def same_kind_def any_grab_def event_grab_def)
  have "\<not> covers g 38 4" if "g \<in> set (wPassiveGrabs st' 7)" for g
    using st'(2) [of "grab_attrs g" 38 4] tk that by (auto simp: held_def)
  moreover have "held (set (wPassiveGrabs st' 7)) (grab_attrs any_grab) 38 5"
    using st'(2) tk cov(1) by (simp add: held_def)
  ultimately show ?thesis using st'(1) by (auto simp: held_def)
qed

end
