(* ===== verification/Properties.thy ===== *)
theory Properties
  imports Prelude Atoms
begin

text \<open>
  Window properties, \<^verbatim>\<open>programs/Xserver/dix/property.c\<close>: the requests that change, read, list,
  delete and rotate the properties of a window. The state holds what the handlers read and
  write: the windows with their optional records, the atom table, the fields of the client, and
  the log of events and replies in the order they are sent. The build without LBX is modelled.
\<close>

subsection \<open>State\<close>

type_synonym byte = "8 word"

record PropertyRec =
  propertyName :: Atom
  prop_type :: Atom
  format :: nat
  prop_size :: nat
  prop_data :: "byte list"

text \<open>
  A window: whether it has a parent, and the property list of its optional record, if it has one.
\<close>

record WindowRec =
  has_parent :: bool
  optional :: "PropertyRec list option"

datatype PropertyState = PropertyNewValue | PropertyDelete

record xGetPropertyReply =
  reply_format :: nat
  reply_length :: CARD32
  reply_type :: Atom
  bytesAfter :: CARD32
  nItems :: CARD32

datatype sent_item =
    PropertyNotify XID PropertyState Atom CARD32
  | GetPropertyReply xGetPropertyReply "byte list"
  | ListPropertiesReply "Atom list"

record prop_state =
  windows :: "XID \<rightharpoonup> WindowRec"
  atoms :: atom_state
  currentTime :: CARD32
  req_len :: nat
  noClientException :: xstatus
  errorValue :: XID
  sent :: "sent_item list"

text \<open>
  What the handlers take from elsewhere: the answer of the security extension for an access to
  a property, whether a field of a window's optional record other than its properties keeps
  the record, the clock, and which of the allocations succeed.
\<close>

datatype SecurityAction = SecurityAllowOperation | SecurityIgnoreOperation | SecurityErrorOperation

definition SecurityReadAccess :: CARD32 where "SecurityReadAccess = 1"
definition SecurityWriteAccess :: CARD32 where "SecurityWriteAccess = 2"
definition SecurityDestroyAccess :: CARD32 where "SecurityDestroyAccess = 4"

record prop_env =
  SecurityCheckPropertyAccess :: "XID \<Rightarrow> Atom \<Rightarrow> CARD32 \<Rightarrow> SecurityAction"
  otherwise_needed :: "XID \<Rightarrow> bool"
  clock :: CARD32
  optional_ok :: bool
  record_ok :: bool
  data_ok :: bool

type_synonym handler = "prop_state \<Rightarrow> xstatus \<times> prop_state"

definition UpdateCurrentTime :: "prop_env \<Rightarrow> prop_state \<Rightarrow> prop_state" where
  "UpdateCurrentTime env st = st\<lparr>currentTime := clock env\<rparr>"

definition DeliverEvents :: "XID \<Rightarrow> PropertyState \<Rightarrow> Atom \<Rightarrow> prop_state \<Rightarrow> prop_state" where
  "DeliverEvents wid state name st = st\<lparr>sent := sent st @ [PropertyNotify wid state name (currentTime st)]\<rparr>"

definition with_error :: "XID \<Rightarrow> prop_state \<Rightarrow> prop_state" where
  "with_error v st = st\<lparr>errorValue := v\<rparr>"

text \<open>The length checks of a request, in units of four bytes.\<close>

definition REQUEST_SIZE_MATCH :: "nat \<Rightarrow> prop_state \<Rightarrow> bool" where
  "REQUEST_SIZE_MATCH sz st \<longleftrightarrow> sz div 4 = req_len st"

definition REQUEST_AT_LEAST_SIZE :: "nat \<Rightarrow> prop_state \<Rightarrow> bool" where
  "REQUEST_AT_LEAST_SIZE sz st \<longleftrightarrow> sz div 4 \<le> req_len st"

definition REQUEST_FIXED_SIZE :: "nat \<Rightarrow> nat \<Rightarrow> prop_state \<Rightarrow> bool" where
  "REQUEST_FIXED_SIZE sz n st \<longleftrightarrow> sz div 4 \<le> req_len st \<and> (sz + n + 3) div 4 = req_len st"

subsection \<open>The property list of a window\<close>

definition wUserProps :: "WindowRec \<Rightarrow> PropertyRec list" where
  "wUserProps w = (case optional w of None \<Rightarrow> [] | Some ps \<Rightarrow> ps)"

definition put_window :: "XID \<Rightarrow> WindowRec \<Rightarrow> prop_state \<Rightarrow> prop_state" where
  "put_window wid w st = st\<lparr>windows := (windows st)(wid \<mapsto> w)\<rparr>"

text \<open>The position of the first property with a name.\<close>

fun find_prop :: "Atom \<Rightarrow> PropertyRec list \<Rightarrow> nat option" where
  "find_prop name [] = None"
| "find_prop name (p # ps) =
     (if propertyName p = name then Some 0 else map_option Suc (find_prop name ps))"

definition MakeWindowOptional :: "bool \<Rightarrow> WindowRec \<Rightarrow> WindowRec option" where
  "MakeWindowOptional alloc_ok w =
     (if optional w \<noteq> None then Some w
      else if \<not> alloc_ok then None
      else Some (w\<lparr>optional := Some []\<rparr>))"

definition CheckWindowOptionalNeed :: "prop_env \<Rightarrow> XID \<Rightarrow> WindowRec \<Rightarrow> WindowRec" where
  "CheckWindowOptionalNeed env wid w =
     (if \<not> has_parent w then w
      else if otherwise_needed env wid then w
      else if wUserProps w \<noteq> [] then w
      else w\<lparr>optional := None\<rparr>)"

text \<open>Taking a property off the list; only the head makes the optional record superfluous.\<close>

definition remove_prop :: "prop_env \<Rightarrow> XID \<Rightarrow> nat \<Rightarrow> WindowRec \<Rightarrow> WindowRec" where
  "remove_prop env wid i w =
     (let ps = wUserProps w; ps' = take i ps @ drop (Suc i) ps; w' = w\<lparr>optional := Some ps'\<rparr>
      in if i = 0 \<and> ps' = [] then CheckWindowOptionalNeed env wid w' else w')"

subsection \<open>Memory\<close>

text \<open>
  A block of memory is a list of bytes. Growing it leaves the new bytes undetermined, which are
  0 here; copying into it overwrites from an offset on.
\<close>

definition xrealloc :: "nat \<Rightarrow> byte list \<Rightarrow> byte list" where
  "xrealloc n block = take n block @ replicate (n - length block) 0"

definition memmove :: "nat \<Rightarrow> byte list \<Rightarrow> byte list \<Rightarrow> byte list" where
  "memmove off bytes block = take off block @ bytes @ drop (off + length bytes) block"

subsection \<open>Changing a property\<close>

datatype mode = PropModeReplace | PropModePrepend | PropModeAppend

text \<open>
  The part of \<open>ChangeWindowProperty\<close> for a property that exists; the result is the error or the
  changed property.
\<close>

definition change_existing ::
    "prop_env \<Rightarrow> Atom \<Rightarrow> nat \<Rightarrow> mode \<Rightarrow> nat \<Rightarrow> byte list \<Rightarrow> PropertyRec \<Rightarrow> xstatus + PropertyRec" where
  "change_existing env ty fmt mode len val p =
     (let sizeInBytes = fmt div 8; totalSize = len * sizeInBytes
      in if fmt \<noteq> format p \<and> mode \<noteq> PropModeReplace then Inl BadMatch
         else if prop_type p \<noteq> ty \<and> mode \<noteq> PropModeReplace then Inl BadMatch
         else if mode = PropModeReplace
         then (let resize = (totalSize \<noteq> prop_size p * (format p div 8))
               in if resize \<and> \<not> data_ok env \<and> len \<noteq> 0 then Inl BadAlloc
                  else
                    (let block = (if resize then xrealloc totalSize (prop_data p) else prop_data p);
                         block' = (if len \<noteq> 0 then memmove 0 (take totalSize val) block else block)
                     in Inr (p\<lparr>prop_data := block', prop_size := len, prop_type := ty, format := fmt\<rparr>)))
         else if len = 0 then Inr p
         else if \<not> data_ok env then Inl BadAlloc
         else if mode = PropModeAppend
         then Inr (p\<lparr>prop_data := memmove (prop_size p * sizeInBytes) (take totalSize val)
                       (xrealloc (sizeInBytes * (len + prop_size p)) (prop_data p)),
                     prop_size := prop_size p + len\<rparr>)
         else Inr (p\<lparr>prop_data := memmove 0 (take totalSize val)
                       (memmove totalSize (take (prop_size p * sizeInBytes) (prop_data p))
                         (xrealloc (sizeInBytes * (len + prop_size p)) [])),
                     prop_size := prop_size p + len\<rparr>))"

definition ChangeWindowProperty ::
    "prop_env \<Rightarrow> XID \<Rightarrow> Atom \<Rightarrow> Atom \<Rightarrow> nat \<Rightarrow> mode \<Rightarrow> nat \<Rightarrow> byte list \<Rightarrow> bool \<Rightarrow> WindowRec \<Rightarrow> handler" where
  "ChangeWindowProperty env wid name ty fmt mode len val sendevent w st =
     (let totalSize = len * (fmt div 8);
          notify = (\<lambda>st. if sendevent then DeliverEvents wid PropertyNewValue name st else st)
      in case find_prop name (wUserProps w) of
           None \<Rightarrow>
             (case MakeWindowOptional (optional_ok env) w of
                None \<Rightarrow> (BadAlloc, st)
              | Some w' \<Rightarrow>
                  if \<not> record_ok env then (BadAlloc, put_window wid w' st)
                  else if \<not> data_ok env \<and> len \<noteq> 0 then (BadAlloc, put_window wid w' st)
                  else
                    (let p = \<lparr>propertyName = name, prop_type = ty, format = fmt, prop_size = len,
                              prop_data = (if len \<noteq> 0
                                then memmove 0 (take totalSize val) (xrealloc totalSize [])
                                else xrealloc totalSize [])\<rparr>
                     in (Success, notify (put_window wid (w'\<lparr>optional := Some (p # wUserProps w')\<rparr>) st))))
         | Some i \<Rightarrow>
             (case change_existing env ty fmt mode len val (wUserProps w ! i) of
                Inl err \<Rightarrow> (err, st)
              | Inr p \<Rightarrow> (Success, notify (put_window wid (w\<lparr>optional := Some ((wUserProps w)[i := p])\<rparr>) st))))"

text \<open>The request; its mode and format are read as signed characters.\<close>

record xChangePropertyReq =
  cp_mode :: CARD8
  cp_window :: XID
  cp_property :: Atom
  cp_type :: Atom
  cp_format :: CARD8
  cp_nUnits :: nat
  cp_value :: "byte list"

definition mode_of :: "CARD8 \<Rightarrow> mode option" where
  "mode_of m = (if m = 0 then Some PropModeReplace else if m = 1 then Some PropModePrepend
                else if m = 2 then Some PropModeAppend else None)"

definition ProcChangeProperty :: "prop_env \<Rightarrow> xChangePropertyReq \<Rightarrow> handler" where
  "ProcChangeProperty env stuff st0 =
     (if \<not> REQUEST_AT_LEAST_SIZE 24 st0 then (BadLength, st0)
      else
        (let st = UpdateCurrentTime env st0; len = cp_nUnits stuff;
             totalSize = len * (unat (cp_format stuff) div 8)
         in case mode_of (cp_mode stuff) of
              None \<Rightarrow> (BadValue, with_error (scast (cp_mode stuff)) st)
            | Some mode \<Rightarrow>
                if cp_format stuff \<noteq> 8 \<and> cp_format stuff \<noteq> 16 \<and> cp_format stuff \<noteq> 32
                then (BadValue, with_error (scast (cp_format stuff)) st)
                else if len > (0xffffffff - 24) div 4 then (BadLength, st)
                else if \<not> REQUEST_FIXED_SIZE 24 totalSize st then (BadLength, st)
                else
                  (case windows st (cp_window stuff) of
                     None \<Rightarrow> (BadWindow, st)
                   | Some w \<Rightarrow>
                       if \<not> ValidAtom (atoms st) (cp_property stuff)
                       then (BadAtom, with_error (word_of_nat (cp_property stuff)) st)
                       else if \<not> ValidAtom (atoms st) (cp_type stuff)
                       then (BadAtom, with_error (word_of_nat (cp_type stuff)) st)
                       else
                         (case SecurityCheckPropertyAccess env (cp_window stuff) (cp_property stuff)
                                 SecurityWriteAccess of
                            SecurityErrorOperation \<Rightarrow> (BadAtom, with_error (word_of_nat (cp_property stuff)) st)
                          | SecurityIgnoreOperation \<Rightarrow> (Success, st)
                          | SecurityAllowOperation \<Rightarrow>
                              (case ChangeWindowProperty env (cp_window stuff) (cp_property stuff)
                                      (cp_type stuff) (unat (cp_format stuff)) mode len (cp_value stuff)
                                      True w st of
                                 (err, st') \<Rightarrow>
                                   if err \<noteq> Success then (err, st')
                                   else (noClientException st', st'))))))"

subsection \<open>Deleting\<close>

definition DeleteProperty :: "prop_env \<Rightarrow> XID \<Rightarrow> Atom \<Rightarrow> WindowRec \<Rightarrow> handler" where
  "DeleteProperty env wid name w st =
     (if wUserProps w = [] then (Success, st)
      else case find_prop name (wUserProps w) of
             None \<Rightarrow> (Success, st)
           | Some i \<Rightarrow>
               (Success, DeliverEvents wid PropertyDelete name
                  (put_window wid (remove_prop env wid i w) st)))"

text \<open>
  \<open>DeleteAllWindowProperties\<close> announces and frees every property. The window, which is being
  destroyed, keeps the head of the freed list; the freed properties are returned.
\<close>

definition DeleteAllWindowProperties :: "XID \<Rightarrow> WindowRec \<Rightarrow> prop_state \<Rightarrow> PropertyRec list \<times> prop_state" where
  "DeleteAllWindowProperties wid w st =
     (wUserProps w,
      fold (\<lambda>p. DeliverEvents wid PropertyDelete (propertyName p)) (wUserProps w) st)"

record xDeletePropertyReq =
  dp_window :: XID
  dp_property :: Atom

definition ProcDeleteProperty :: "prop_env \<Rightarrow> xDeletePropertyReq \<Rightarrow> handler" where
  "ProcDeleteProperty env stuff st0 =
     (if \<not> REQUEST_SIZE_MATCH 12 st0 then (BadLength, st0)
      else
        (let st = UpdateCurrentTime env st0
         in case windows st (dp_window stuff) of
              None \<Rightarrow> (BadWindow, st)
            | Some w \<Rightarrow>
                if \<not> ValidAtom (atoms st) (dp_property stuff)
                then (BadAtom, with_error (word_of_nat (dp_property stuff)) st)
                else
                  (case SecurityCheckPropertyAccess env (dp_window stuff) (dp_property stuff)
                          SecurityDestroyAccess of
                     SecurityErrorOperation \<Rightarrow> (BadAtom, with_error (word_of_nat (dp_property stuff)) st)
                   | SecurityIgnoreOperation \<Rightarrow> (Success, st)
                   | SecurityAllowOperation \<Rightarrow>
                       (case DeleteProperty env (dp_window stuff) (dp_property stuff) w st of
                          (result, st') \<Rightarrow>
                            if noClientException st' \<noteq> Success then (noClientException st', st')
                            else (result, st')))))"

subsection \<open>Reading\<close>

definition WriteReply :: "sent_item \<Rightarrow> prop_state \<Rightarrow> prop_state" where
  "WriteReply r st = st\<lparr>sent := sent st @ [r]\<rparr>"

definition NullPropertyReply :: "Atom \<Rightarrow> nat \<Rightarrow> handler" where
  "NullPropertyReply ty fmt st =
     (let st' = WriteReply (GetPropertyReply \<lparr>reply_format = fmt, reply_length = 0, reply_type = ty,
                  bytesAfter = 0, nItems = 0\<rparr> []) st
      in (noClientException st', st'))"

record xGetPropertyReq =
  gp_delete :: CARD8
  gp_window :: XID
  gp_property :: Atom
  gp_type :: Atom
  longOffset :: CARD32
  longLength :: CARD32

text \<open>
  The part of \<open>ProcGetProperty\<close> that answers with a piece of the property: \<open>longOffset << 2\<close> and
  \<open>4 * longLength\<close> are computed in 32 bits.
\<close>

definition get_data :: "prop_env \<Rightarrow> xGetPropertyReq \<Rightarrow> nat \<Rightarrow> WindowRec \<Rightarrow> handler" where
  "get_data env stuff i w st =
     (let p = wUserProps w ! i;
          n = (format p div 8) * prop_size p;
          ind = unat (push_bit 2 (longOffset stuff))
      in if n < ind then (BadValue, with_error (longOffset stuff) st)
         else
           (let len = min (n - ind) (unat (4 * longLength stuff));
                reply = \<lparr>reply_format = format p, reply_length = word_of_nat ((len + 3) div 4),
                         reply_type = prop_type p, bytesAfter = word_of_nat (n - (ind + len)),
                         nItems = word_of_nat (len div (format p div 8))\<rparr>;
                delete = (gp_delete stuff \<noteq> 0 \<and> bytesAfter reply = 0);
                st1 = (if delete then DeliverEvents (gp_window stuff) PropertyDelete (propertyName p) st
                       else st);
                st2 = WriteReply (GetPropertyReply reply (take len (drop ind (prop_data p)))) st1;
                st3 = (if delete then put_window (gp_window stuff) (remove_prop env (gp_window stuff) i w) st2
                       else st2)
            in (noClientException st3, st3)))"

definition ProcGetProperty :: "prop_env \<Rightarrow> xGetPropertyReq \<Rightarrow> handler" where
  "ProcGetProperty env stuff st0 =
     (if \<not> REQUEST_SIZE_MATCH 24 st0 then (BadLength, st0)
      else
        (let st = (if gp_delete stuff \<noteq> 0 then UpdateCurrentTime env st0 else st0)
         in case windows st (gp_window stuff) of
              None \<Rightarrow> (BadWindow, st)
            | Some w \<Rightarrow>
                if \<not> ValidAtom (atoms st) (gp_property stuff)
                then (BadAtom, with_error (word_of_nat (gp_property stuff)) st)
                else if gp_delete stuff \<noteq> 1 \<and> gp_delete stuff \<noteq> 0
                then (BadValue, with_error (ucast (gp_delete stuff)) st)
                else if gp_type stuff \<noteq> 0 \<and> \<not> ValidAtom (atoms st) (gp_type stuff)
                then (BadAtom, with_error (word_of_nat (gp_type stuff)) st)
                else
                  (case find_prop (gp_property stuff) (wUserProps w) of
                     None \<Rightarrow> NullPropertyReply 0 0 st
                   | Some i \<Rightarrow>
                       (let p = wUserProps w ! i;
                            access_mode = (if gp_delete stuff \<noteq> 0
                              then SecurityReadAccess OR SecurityDestroyAccess else SecurityReadAccess)
                        in case SecurityCheckPropertyAccess env (gp_window stuff) (gp_property stuff) access_mode of
                             SecurityErrorOperation \<Rightarrow>
                               (BadAtom, with_error (word_of_nat (gp_property stuff)) st)
                           | SecurityIgnoreOperation \<Rightarrow> NullPropertyReply (prop_type p) (format p) st
                           | SecurityAllowOperation \<Rightarrow>
                               if gp_type stuff \<noteq> prop_type p \<and> gp_type stuff \<noteq> 0
                               then (Success, WriteReply (GetPropertyReply
                                      \<lparr>reply_format = format p, reply_length = 0, reply_type = prop_type p,
                                       bytesAfter = word_of_nat (prop_size p), nItems = 0\<rparr> []) st)
                               else get_data env stuff i w st))))"

definition ProcListProperties :: "prop_env \<Rightarrow> XID \<Rightarrow> handler" where
  "ProcListProperties env wid st =
     (if \<not> REQUEST_SIZE_MATCH 8 st then (BadLength, st)
      else case windows st wid of
             None \<Rightarrow> (BadWindow, st)
           | Some w \<Rightarrow>
               if wUserProps w \<noteq> [] \<and> \<not> data_ok env then (BadAlloc, st)
               else
                 (let st' = WriteReply (ListPropertiesReply (map propertyName (wUserProps w))) st
                  in (noClientException st', st')))"

subsection \<open>Rotating\<close>

record xRotatePropertiesReq =
  rp_window :: XID
  nPositions :: "16 word"
  rp_atoms :: "Atom list"

text \<open>
  The first loop of \<open>ProcRotateProperties\<close> finds the properties; the result is the positions, or
  the status to return with the error value, if one is set.
\<close>

fun rotate_find ::
    "prop_env \<Rightarrow> prop_state \<Rightarrow> XID \<Rightarrow> WindowRec \<Rightarrow> Atom list \<Rightarrow> (xstatus \<times> Atom option) + nat list" where
  "rotate_find env st wid w [] = Inr []"
| "rotate_find env st wid w (a # as) =
     (let action = SecurityCheckPropertyAccess env wid a (SecurityReadAccess OR SecurityWriteAccess)
      in if \<not> ValidAtom (atoms st) a \<or> action = SecurityErrorOperation then Inl (BadAtom, Some a)
         else if action = SecurityIgnoreOperation then Inl (Success, None)
         else if a \<in> set as then Inl (BadMatch, None)
         else case find_prop a (wUserProps w) of
                None \<Rightarrow> Inl (BadMatch, None)
              | Some i \<Rightarrow>
                  (case rotate_find env st wid w as of
                     Inl e \<Rightarrow> Inl e
                   | Inr is \<Rightarrow> Inr (i # is)))"

function up_to_nonneg :: "nat \<Rightarrow> int \<Rightarrow> int" where
  "up_to_nonneg n d = (if d < 0 \<and> 0 < n then up_to_nonneg n (d + int n) else d)"
  by auto
termination by (relation "measure (\<lambda>(n, d). nat (- d))") auto

declare up_to_nonneg.simps [simp del]

text \<open>One round of the second loop: announce the property under its old name and rename it.\<close>

definition rotate_step ::
    "XID \<Rightarrow> Atom list \<Rightarrow> nat \<Rightarrow> nat list \<Rightarrow> nat \<Rightarrow> PropertyRec list \<times> prop_state \<Rightarrow> PropertyRec list \<times> prop_state"
  where
  "rotate_step wid names delta idx i = (\<lambda>(ps, st).
     (ps[idx ! i := (ps ! (idx ! i))\<lparr>propertyName := names ! ((i + delta) mod length names)\<rparr>],
      DeliverEvents wid PropertyNewValue (propertyName (ps ! (idx ! i))) st))"

definition ProcRotateProperties :: "prop_env \<Rightarrow> xRotatePropertiesReq \<Rightarrow> handler" where
  "ProcRotateProperties env stuff st0 =
     (let names = rp_atoms stuff; nAtoms = length names; wid = rp_window stuff
      in if \<not> REQUEST_FIXED_SIZE 12 (4 * nAtoms) st0 then (BadLength, st0)
         else
           (let st = UpdateCurrentTime env st0
            in case windows st wid of
                 None \<Rightarrow> (BadWindow, st)
               | Some w \<Rightarrow>
                   if nAtoms = 0 then (Success, st)
                   else if \<not> data_ok env then (BadAlloc, st)
                   else
                     (case rotate_find env st wid w names of
                        Inl (err, Some a) \<Rightarrow> (err, with_error (word_of_nat a) st)
                      | Inl (err, None) \<Rightarrow> (err, st)
                      | Inr idx \<Rightarrow>
                          (let delta = sint (nPositions stuff)
                           in if \<bar>delta\<bar> mod int nAtoms \<noteq> 0
                              then (case fold (rotate_step wid names (nat (up_to_nonneg nAtoms delta)) idx)
                                           [0..<nAtoms] (wUserProps w, st) of
                                      (ps, st') \<Rightarrow> (Success, put_window wid (w\<lparr>optional := Some ps\<rparr>) st'))
                              else (Success, st)))))"

end
