(* ===== verification/PropertyProofs.thy ===== *)
theory PropertyProofs
  imports Properties
begin

text \<open>
  Correctness of the property requests against an abstract window: a map from names to the
  type, the format and the bytes of a property.
\<close>

subsection \<open>Well-formed windows and their view\<close>

definition prop_wf :: "PropertyRec \<Rightarrow> bool" where
  "prop_wf p \<longleftrightarrow> format p \<in> {8, 16, 32} \<and> length (prop_data p) = prop_size p * (format p div 8)"

definition win_wf :: "WindowRec \<Rightarrow> bool" where
  "win_wf w \<longleftrightarrow> distinct (map propertyName (wUserProps w)) \<and> (\<forall>p \<in> set (wUserProps w). prop_wf p)"

definition val_of :: "PropertyRec \<Rightarrow> Atom \<times> nat \<times> byte list" where
  "val_of p = (prop_type p, format p, prop_data p)"

definition view_list :: "PropertyRec list \<Rightarrow> Atom \<rightharpoonup> Atom \<times> nat \<times> byte list" where
  "view_list ps = map_of (map (\<lambda>p. (propertyName p, val_of p)) ps)"

definition view :: "WindowRec \<Rightarrow> Atom \<rightharpoonup> Atom \<times> nat \<times> byte list" where
  "view w = view_list (wUserProps w)"

lemma view_list_simps [simp]:
  "view_list [] = Map.empty"
  "view_list (p # ps) = (view_list ps)(propertyName p \<mapsto> val_of p)"
  by (simp_all add: view_list_def)

lemma wUserProps_Some [simp]: "wUserProps (w\<lparr>optional := Some ps\<rparr>) = ps"
  by (simp add: wUserProps_def)

lemma find_prop_None: "find_prop a ps = None \<longleftrightarrow> a \<notin> propertyName ` set ps"
  by (induction ps) auto

lemma find_prop_None_view: "find_prop a ps = None \<Longrightarrow> view_list ps a = None"
  by (induction ps) (auto split: if_splits)

lemma find_prop_Some:
  "find_prop a ps = Some i \<Longrightarrow> i < length ps \<and> propertyName (ps ! i) = a \<and> view_list ps a = Some (val_of (ps ! i))"
  by (induction ps arbitrary: i) (auto split: if_splits)

lemma find_prop_iff:
  "distinct (map propertyName ps) \<Longrightarrow> i < length ps \<Longrightarrow> find_prop (propertyName (ps ! i)) ps = Some i"
proof (induction ps arbitrary: i)
  case (Cons p ps)
  then show ?case using nth_mem [of "i - 1" ps] by (cases i) auto
qed simp

lemma nth_name_ne:
  "propertyName q \<notin> propertyName ` set qs \<Longrightarrow> j < length qs \<Longrightarrow> propertyName (qs ! j) \<noteq> propertyName q"
  by (metis imageI nth_mem)

lemma view_list_update:
  "i < length ps \<Longrightarrow> distinct (map propertyName ps) \<Longrightarrow> propertyName p = propertyName (ps ! i) \<Longrightarrow>
   view_list (ps[i := p]) = (view_list ps)(propertyName p \<mapsto> val_of p)"
proof (induction ps arbitrary: i)
  case (Cons q qs)
  show ?case
  proof (cases i)
    case (Suc j)
    with Cons.prems nth_name_ne [of q qs j] have "propertyName p \<noteq> propertyName q" by auto
    with Suc Cons.prems Cons.IH [of j] show ?thesis by (auto simp: fun_upd_twist)
  qed (use Cons.prems in auto)
qed simp

lemma view_list_remove:
  "i < length ps \<Longrightarrow> distinct (map propertyName ps) \<Longrightarrow>
   view_list (take i ps @ drop (Suc i) ps) = (view_list ps)(propertyName (ps ! i) := None)"
proof (induction ps arbitrary: i)
  case (Cons q qs)
  show ?case
  proof (cases i)
    case 0
    with Cons.prems find_prop_None_view [of "propertyName q" qs] show ?thesis
      by (auto simp: find_prop_None fun_eq_iff)
  next
    case (Suc j)
    with Cons.prems nth_name_ne [of q qs j] have "propertyName (qs ! j) \<noteq> propertyName q" by auto
    with Suc Cons.prems Cons.IH [of j] show ?thesis by (auto simp: fun_upd_twist)
  qed
qed simp

lemma win_wf_update:
  assumes "win_wf w" "i < length (wUserProps w)" "propertyName p = propertyName (wUserProps w ! i)" "prop_wf p"
  shows "win_wf (w\<lparr>optional := Some ((wUserProps w)[i := p])\<rparr>)"
proof -
  have "map propertyName ((wUserProps w)[i := p]) = map propertyName (wUserProps w)"
    using assms(2,3) by (simp add: map_update list_update_same_conv)
  moreover have "q = p \<or> q \<in> set (wUserProps w)" if "q \<in> set ((wUserProps w)[i := p])" for q
    using that set_update_subset_insert [of "wUserProps w" i p] by blast
  ultimately show ?thesis using assms(1,4) by (auto simp: win_wf_def)
qed

subsection \<open>Memory\<close>

lemma xrealloc_length [simp]: "length (xrealloc n b) = n"
  by (simp add: xrealloc_def)

lemma xrealloc_0 [simp]: "xrealloc 0 b = []"
  by (simp add: xrealloc_def)

lemma memmove_all [simp]: "length bs = length b \<Longrightarrow> memmove 0 bs b = bs"
  by (simp add: memmove_def)

lemma append_block:
  "length bs = m \<Longrightarrow> memmove (length b) bs (xrealloc (length b + m) b) = b @ bs"
  by (simp add: memmove_def xrealloc_def)

lemma prepend_block:
  "length bs = m \<Longrightarrow> memmove 0 bs (memmove m b (xrealloc (m + length b) [])) = bs @ b"
  by (simp add: memmove_def xrealloc_def)

subsection \<open>Changing a property\<close>

text \<open>What the protocol says of a change, on the abstract property.\<close>

fun change_spec :: "Atom \<Rightarrow> nat \<Rightarrow> mode \<Rightarrow> byte list \<Rightarrow> (Atom \<times> nat \<times> byte list) option \<Rightarrow>
    xstatus + (Atom \<times> nat \<times> byte list)" where
  "change_spec ty fmt mode bs None = Inr (ty, fmt, bs)"
| "change_spec ty fmt mode bs (Some (ty', fmt', bs')) =
     (if mode = PropModeReplace then Inr (ty, fmt, bs)
      else if ty \<noteq> ty' \<or> fmt \<noteq> fmt' then Inl BadMatch
      else Inr (ty, fmt, if mode = PropModeAppend then bs' @ bs else bs @ bs'))"

lemma change_existing_spec:
  assumes p: "prop_wf p" and f: "fmt \<in> {8, 16, 32}" "length val = len * (fmt div 8)" and ok: "data_ok env"
  shows "case change_spec ty fmt mode val (Some (val_of p)) of
      Inl e \<Rightarrow> change_existing env ty fmt mode len val p = Inl e
    | Inr v \<Rightarrow> \<exists>p'. change_existing env ty fmt mode len val p = Inr p' \<and> prop_wf p' \<and> val_of p' = v \<and>
        propertyName p' = propertyName p"
proof -
  have l: "length (prop_data p) = prop_size p * (format p div 8)" using p by (simp add: prop_wf_def)
  have t: "take (len * (fmt div 8)) val = val" using f(2) by simp
  show ?thesis
  proof (cases mode)
    case PropModeReplace
    let ?b = "if len * (fmt div 8) \<noteq> prop_size p * (format p div 8)
      then xrealloc (len * (fmt div 8)) (prop_data p) else prop_data p"
    have "length ?b = len * (fmt div 8)" using l by simp
    then have d: "(if len \<noteq> 0 then memmove 0 (take (len * (fmt div 8)) val) ?b else ?b) = val"
      using f(2) unfolding t by auto
    have "change_existing env ty fmt mode len val p = Inr (p\<lparr>prop_data :=
        (if len \<noteq> 0 then memmove 0 (take (len * (fmt div 8)) val) ?b else ?b),
        prop_size := len, prop_type := ty, format := fmt\<rparr>)"
      using ok by (simp add: change_existing_def Let_def PropModeReplace)
    then show ?thesis unfolding d
      using PropModeReplace f by (simp add: val_of_def prop_wf_def)
  next
    case PropModePrepend
    have "memmove 0 val (memmove (len * (fmt div 8)) (prop_data p)
        (xrealloc ((fmt div 8) * (len + prop_size p)) [])) = val @ prop_data p" if "fmt = format p"
      using prepend_block [OF f(2), of "prop_data p"] l that by (simp add: algebra_simps)
    then show ?thesis
      using PropModePrepend f ok l p by (auto simp: change_existing_def val_of_def prop_wf_def Let_def t algebra_simps)
  next
    case PropModeAppend
    have "memmove (prop_size p * (fmt div 8)) val
        (xrealloc ((fmt div 8) * (len + prop_size p)) (prop_data p)) = prop_data p @ val" if "fmt = format p"
      using append_block [OF f(2), of "prop_data p"] l that by (simp add: algebra_simps)
    then show ?thesis
      using PropModeAppend f ok l p by (auto simp: change_existing_def val_of_def prop_wf_def Let_def t algebra_simps)
  qed
qed

definition all_ok :: "prop_env \<Rightarrow> bool" where
  "all_ok env \<longleftrightarrow> optional_ok env \<and> record_ok env \<and> data_ok env"

definition announce :: "bool \<Rightarrow> XID \<Rightarrow> PropertyState \<Rightarrow> Atom \<Rightarrow> prop_state \<Rightarrow> sent_item list" where
  "announce ev wid s name st = (if ev then [PropertyNotify wid s name (currentTime st)] else [])"

lemma DeliverEvents_simps [simp]:
  "windows (DeliverEvents wid s a st) = windows st" "atoms (DeliverEvents wid s a st) = atoms st"
  "sent (DeliverEvents wid s a st) = sent st @ [PropertyNotify wid s a (currentTime st)]"
  "currentTime (DeliverEvents wid s a st) = currentTime st"
  "noClientException (DeliverEvents wid s a st) = noClientException st"
  by (simp_all add: DeliverEvents_def)

lemma put_window_simps [simp]:
  "windows (put_window wid w st) = (windows st)(wid \<mapsto> w)" "atoms (put_window wid w st) = atoms st"
  "sent (put_window wid w st) = sent st" "currentTime (put_window wid w st) = currentTime st"
  "noClientException (put_window wid w st) = noClientException st"
  by (simp_all add: put_window_def)

lemma MakeWindowOptional_ok:
  "MakeWindowOptional ok w = Some w' \<Longrightarrow> wUserProps w' = wUserProps w \<and> has_parent w' = has_parent w"
  by (auto simp: MakeWindowOptional_def wUserProps_def split: if_splits option.splits)

text \<open>
  C16. Refinement: when no allocation fails \<open>ChangeWindowProperty\<close> does to the map of a window's properties what
  the protocol asks of replacing, appending and prepending: it reports \<open>BadMatch\<close> and changes
  nothing when type or format do not fit, and otherwise changes exactly the one property, keeps
  the window well-formed, and sends one event.
\<close>

theorem ChangeWindowProperty_refines:
  assumes "win_wf w" "fmt \<in> {8, 16, 32}" "length val = len * (fmt div 8)" "all_ok env"
  shows "case change_spec ty fmt mode val (view w name) of
      Inl e \<Rightarrow> ChangeWindowProperty env wid name ty fmt mode len val ev w st = (e, st)
    | Inr v \<Rightarrow> \<exists>w' st'. ChangeWindowProperty env wid name ty fmt mode len val ev w st = (Success, st') \<and>
        windows st' = (windows st)(wid \<mapsto> w') \<and> win_wf w' \<and> view w' = (view w)(name \<mapsto> v) \<and>
        sent st' = sent st @ announce ev wid PropertyNewValue name st"
proof (cases "find_prop name (wUserProps w)")
  case None
  obtain w1 where w1: "MakeWindowOptional (optional_ok env) w = Some w1"
    using assms(4) by (cases "optional w") (auto simp: MakeWindowOptional_def all_ok_def)
  note w1' = MakeWindowOptional_ok [OF w1]
  let ?p = "\<lparr>propertyName = name, prop_type = ty, format = fmt, prop_size = len, prop_data = val\<rparr>"
  have d: "(if len \<noteq> 0 then memmove 0 (take (len * (fmt div 8)) val) (xrealloc (len * (fmt div 8)) [])
      else xrealloc (len * (fmt div 8)) []) = val"
    using assms(3) by (cases "len = 0") auto
  let ?w = "w1\<lparr>optional := Some (?p # wUserProps w)\<rparr>"
  have v: "view w name = None" using find_prop_None_view [OF None] by (simp add: view_def)
  have "win_wf ?w"
    using assms(1,2,3) None unfolding win_wf_def by (auto simp: find_prop_None prop_wf_def)
  moreover have "view ?w = (view w)(name \<mapsto> (ty, fmt, val))" by (simp add: view_def val_of_def)
  moreover have "ChangeWindowProperty env wid name ty fmt mode len val ev w st =
      (Success, (if ev then DeliverEvents wid PropertyNewValue name else (\<lambda>st. st)) (put_window wid ?w st))"
    unfolding ChangeWindowProperty_def Let_def d
    using None w1 w1' assms(4) by (simp add: all_ok_def)
  ultimately show ?thesis using v by (auto simp: announce_def)
next
  case (Some i)
  note f = find_prop_Some [OF Some]
  let ?p = "wUserProps w ! i"
  have p: "prop_wf ?p" using f assms(1) by (simp add: win_wf_def)
  have v: "view w name = Some (val_of ?p)" using f by (simp add: view_def)
  have ok: "data_ok env" using assms(4) by (simp add: all_ok_def)
  note c = change_existing_spec [OF p assms(2,3) ok, of ty mode]
  show ?thesis
  proof (cases "change_spec ty fmt mode val (view w name)")
    case (Inl e)
    with c v show ?thesis by (simp add: ChangeWindowProperty_def Some)
  next
    case (Inr u)
    with c v obtain p' where p': "change_existing env ty fmt mode len val ?p = Inr p'" "prop_wf p'"
      "val_of p' = u" "propertyName p' = propertyName ?p" by auto
    let ?w = "w\<lparr>optional := Some ((wUserProps w)[i := p'])\<rparr>"
    have "win_wf ?w" using win_wf_update [OF assms(1) _ p'(4,2)] f by simp
    moreover have "view ?w = (view w)(name \<mapsto> u)"
      using view_list_update [of i "wUserProps w" p'] f p' assms(1) by (simp add: view_def win_wf_def)
    moreover have "ChangeWindowProperty env wid name ty fmt mode len val ev w st =
      (Success, (if ev then DeliverEvents wid PropertyNewValue name else (\<lambda>st. st)) (put_window wid ?w st))"
      by (simp add: ChangeWindowProperty_def Some p'(1) Let_def)
    ultimately show ?thesis using Inr by (auto simp: announce_def)
  qed
qed

definition env_example :: prop_env where
  "env_example = \<lparr>SecurityCheckPropertyAccess = (\<lambda>_ _ _. SecurityAllowOperation), otherwise_needed = (\<lambda>_. False),
     clock = 7, optional_ok = True, record_ok = True, data_ok = True\<rparr>"

definition win_example :: WindowRec where
  "win_example = \<lparr>has_parent = True, optional = Some
     [\<lparr>propertyName = 39, prop_type = 31, format = 8, prop_size = 3, prop_data = [72, 105, 33]\<rparr>,
      \<lparr>propertyName = 40, prop_type = 6, format = 16, prop_size = 4, prop_data = [1, 2, 3, 4, 5, 6, 7, 8]\<rparr>]\<rparr>"

definition props_example :: "nat \<Rightarrow> prop_state" where
  "props_example len = \<lparr>windows = [5 \<mapsto> win_example],
     atoms = \<lparr>lastAtom = 68, atomRoot = NullNode, tableLength = 100, nodeTable = []\<rparr>,
     currentTime = 1, req_len = len, noClientException = Success, errorValue = 0, sent = []\<rparr>"

lemma win_example_wf: "win_wf win_example"
  by (simp add: win_wf_def win_example_def wUserProps_def prop_wf_def)

theorem ChangeWindowProperty_refines_witness:
  "\<exists>w' st'. ChangeWindowProperty env_example 5 39 31 8 PropModeAppend 2 [63, 63] True win_example (props_example 0)
      = (Success, st') \<and> windows st' = (windows (props_example 0))(5 \<mapsto> w') \<and> win_wf w' \<and>
    view w' = (view win_example)(39 \<mapsto> (31, 8, [72, 105, 33, 63, 63])) \<and>
    sent st' = [PropertyNotify 5 PropertyNewValue 39 1]"
proof -
  have "change_spec 31 8 PropModeAppend [63, 63] (view win_example 39) = Inr (31, 8, [72, 105, 33, 63, 63])"
    by (simp add: view_def win_example_def wUserProps_def val_of_def)
  with ChangeWindowProperty_refines [OF win_example_wf, where fmt = 8 and val = "[63, 63]" and len = 2
      and env = env_example and ty = 31 and mode = PropModeAppend and name = 39 and wid = 5 and ev = True
      and st = "props_example 0"]
  show ?thesis by (simp add: all_ok_def env_example_def announce_def props_example_def)
qed

subsection \<open>Errors\<close>

definition views :: "prop_state \<Rightarrow> XID \<Rightarrow> (Atom \<rightharpoonup> Atom \<times> nat \<times> byte list) option" where
  "views st wid = map_option view (windows st wid)"

lemma UpdateCurrentTime_simps [simp]:
  "windows (UpdateCurrentTime env st) = windows st" "atoms (UpdateCurrentTime env st) = atoms st"
  "sent (UpdateCurrentTime env st) = sent st" "req_len (UpdateCurrentTime env st) = req_len st"
  "noClientException (UpdateCurrentTime env st) = noClientException st"
  by (simp_all add: UpdateCurrentTime_def)

lemma with_error_simps [simp]:
  "windows (with_error v st) = windows st" "sent (with_error v st) = sent st"
  "noClientException (with_error v st) = noClientException st"
  by (simp_all add: with_error_def)

lemma ChangeWindowProperty_error:
  assumes "ChangeWindowProperty env wid name ty fmt mode len val ev w st = (err, st')" "err \<noteq> Success"
    "windows st wid = Some w"
  shows "views st' = views st \<and> sent st' = sent st"
proof (cases "find_prop name (wUserProps w)")
  case (Some i)
  with assms show ?thesis
    by (auto simp: ChangeWindowProperty_def Let_def split: sum.splits)
next
  case None
  have "views (put_window wid w' st) = views st"
    if "MakeWindowOptional (optional_ok env) w = Some w'" for w'
    using MakeWindowOptional_ok [OF that] assms(3) by (auto simp: views_def view_def fun_eq_iff)
  with assms None show ?thesis
    by (auto simp: ChangeWindowProperty_def Let_def split: option.splits if_splits)
qed

lemma ChangeWindowProperty_success:
  "ChangeWindowProperty env wid name ty fmt mode len val ev w st = (Success, st') \<Longrightarrow>
   noClientException st' = noClientException st"
  by (auto simp: ChangeWindowProperty_def change_existing_def Let_def
      split: option.splits if_splits sum.splits)



subsection \<open>Reading a property\<close>

lemma CheckWindowOptionalNeed_props [simp]:
  "wUserProps (CheckWindowOptionalNeed env wid w) = wUserProps w"
  by (simp add: CheckWindowOptionalNeed_def wUserProps_def)

lemma remove_prop_view:
  assumes "win_wf w" "find_prop name (wUserProps w) = Some i"
  shows "win_wf (remove_prop env wid i w) \<and> view (remove_prop env wid i w) = (view w)(name := None)"
proof -
  note f = find_prop_Some [OF assms(2)]
  let ?ps = "take i (wUserProps w) @ drop (Suc i) (wUserProps w)"
  have u: "wUserProps (remove_prop env wid i w) = ?ps" by (simp add: remove_prop_def Let_def)
  have "distinct (map propertyName ?ps)"
    using assms(1) distinct_take [of "map propertyName (wUserProps w)" i]
      distinct_drop [of "map propertyName (wUserProps w)" "Suc i"]
      set_take_disj_set_drop_if_distinct [of "map propertyName (wUserProps w)" i "Suc i"]
    by (simp add: win_wf_def take_map drop_map)
  moreover have "set ?ps \<subseteq> set (wUserProps w)" by (auto dest: in_set_takeD in_set_dropD)
  ultimately have "win_wf (remove_prop env wid i w)" using assms(1) by (auto simp: win_wf_def u)
  moreover have "view (remove_prop env wid i w) = (view w)(name := None)"
    using view_list_remove [of i "wUserProps w"] f assms(1) by (simp add: view_def u win_wf_def)
  ultimately show ?thesis ..
qed

lemma shifted_offset: "unat (x :: CARD32) < 2 ^ 30 \<Longrightarrow> unat (push_bit 2 x) = 4 * unat x"
proof -
  assume "unat x < 2 ^ 30"
  then have "unat x * 4 < 2 ^ LENGTH(32)" by simp
  then show ?thesis by (simp add: push_bit_eq_mult unat_word_ariths mult.commute)
qed

lemma times_four: "unat (x :: CARD32) < 2 ^ 30 \<Longrightarrow> unat (4 * x) = 4 * unat x"
  using shifted_offset [of x] by (simp add: push_bit_eq_mult mult.commute)

definition get_reply_ok :: "Atom \<Rightarrow> nat \<Rightarrow> nat \<Rightarrow> nat \<Rightarrow> xGetPropertyReply \<Rightarrow> bool" where
  "get_reply_ok ty fmt L A r \<longleftrightarrow> reply_type r = ty \<and> reply_format r = fmt \<and>
     unat (bytesAfter r) = A \<and> unat (nItems r) * (fmt div 8) = L \<and> unat (reply_length r) = (L + 3) div 4"

lemma get_data_slice:
  assumes w: "win_wf w" "find_prop name (wUserProps w) = Some i"
    and small: "unat (longOffset stuff) < 2 ^ 30" "unat (longLength stuff) < 2 ^ 30"
      "length (prop_data (wUserProps w ! i)) < 2 ^ 32"
    and I: "I = 4 * unat (longOffset stuff)" and bs: "bs = prop_data (wUserProps w ! i)"
    and L: "L = min (length bs - I) (4 * unat (longLength stuff))" and le: "I \<le> length bs"
    and A: "A = length bs - (I + L)"
  shows "\<exists>r st'. get_data env stuff i w st = (noClientException st, st') \<and>
    get_reply_ok (prop_type (wUserProps w ! i)) (format (wUserProps w ! i)) L A r \<and>
    sent st' = sent st @ announce (gp_delete stuff \<noteq> 0 \<and> A = 0) (gp_window stuff) PropertyDelete name st @
      [GetPropertyReply r (take L (drop I bs))] \<and>
    windows st' = (if gp_delete stuff \<noteq> 0 \<and> A = 0
      then (windows st)(gp_window stuff \<mapsto> remove_prop env (gp_window stuff) i w) else windows st)"
proof -
  let ?p = "wUserProps w ! i"
  have p: "prop_wf ?p" "propertyName ?p = name" using find_prop_Some [OF w(2)] w(1) by (auto simp: win_wf_def)
  have n: "(format ?p div 8) * prop_size ?p = length bs" using p(1) by (simp add: prop_wf_def bs mult.commute)
  have off: "unat (push_bit 2 (longOffset stuff)) = I" using shifted_offset [OF small(1)] I by simp
  have len: "min (length bs - I) (unat (4 * longLength stuff)) = L" using times_four [OF small(2)] L by simp
  have Lb: "L \<le> length bs" "length bs < 2 ^ 32" using L small(3) bs by auto
  have u: "unat (word_of_nat k :: CARD32) = k" if "k \<le> length bs" for k
    using that Lb(2) by (simp add: unat_of_nat)
  have uA: "unat (word_of_nat A :: CARD32) = A" using A by (intro u) simp
  have A0: "(word_of_nat A :: CARD32) = 0 \<longleftrightarrow> A = 0"
    using uA by (simp only: unat_eq_0 [symmetric])
  have "(format ?p div 8) dvd L"
  proof -
    have "(format ?p div 8) dvd 4" using p(1) by (auto simp: prop_wf_def)
    then have "(format ?p div 8) dvd I" "(format ?p div 8) dvd 4 * unat (longLength stuff)" using I by auto
    moreover have "(format ?p div 8) dvd length bs" unfolding n [symmetric] by simp
    ultimately show ?thesis unfolding L min_def by (simp add: dvd_diff_nat)
  qed
  moreover have "L div (format ?p div 8) \<le> length bs" using Lb(1) div_le_dividend le_trans by blast
  ultimately have items: "unat (word_of_nat (L div (format ?p div 8)) :: CARD32) * (format ?p div 8) = L"
    by (simp add: u)
  have rl: "unat (word_of_nat ((L + 3) div 4) :: CARD32) = (L + 3) div 4"
    using Lb by (simp add: unat_of_nat)
  define r where "r = \<lparr>reply_format = format ?p, reply_length = word_of_nat ((L + 3) div 4),
    reply_type = prop_type ?p, bytesAfter = word_of_nat A, nItems = word_of_nat (L div (format ?p div 8))\<rparr>"
  have ok: "get_reply_ok (prop_type ?p) (format ?p) L A r"
    using items rl uA by (simp add: get_reply_ok_def r_def)
  define del where "del \<longleftrightarrow> gp_delete stuff \<noteq> 0 \<and> A = 0"
  let ?st1 = "if del then DeliverEvents (gp_window stuff) PropertyDelete name st else st"
  let ?st2 = "WriteReply (GetPropertyReply r (take L (drop I bs))) ?st1"
  let ?st3 = "if del then put_window (gp_window stuff) (remove_prop env (gp_window stuff) i w) ?st2 else ?st2"
  have "get_data env stuff i w st = (noClientException ?st3, ?st3)"
    using le unfolding get_data_def Let_def n off bs [symmetric] len A [symmetric] r_def [symmetric] p(2) del_def
    by (simp add: A0 r_def)
  moreover have "noClientException ?st3 = noClientException st" by (simp add: WriteReply_def)
  moreover have "sent ?st3 = sent st @ announce del (gp_window stuff) PropertyDelete name st @
      [GetPropertyReply r (take L (drop I bs))]"
    by (simp add: WriteReply_def announce_def)
  moreover have "windows ?st3 = (if del then (windows st)(gp_window stuff \<mapsto>
      remove_prop env (gp_window stuff) i w) else windows st)"
    by (simp add: WriteReply_def)
  ultimately show ?thesis using ok unfolding del_def by metis
qed

text \<open>A request that passes the checks for its length, its atoms, its flag and its access.\<close>

definition get_allowed :: "prop_env \<Rightarrow> xGetPropertyReq \<Rightarrow> prop_state \<Rightarrow> bool" where
  "get_allowed env stuff st \<longleftrightarrow> REQUEST_SIZE_MATCH 24 st \<and> gp_delete stuff \<in> {0, 1} \<and>
     ValidAtom (atoms st) (gp_property stuff) \<and> (gp_type stuff = 0 \<or> ValidAtom (atoms st) (gp_type stuff)) \<and>
     (\<forall>m. SecurityCheckPropertyAccess env (gp_window stuff) (gp_property stuff) m = SecurityAllowOperation)"

lemma REQUEST_SIZE_MATCH_cong: "req_len st' = req_len st \<Longrightarrow> REQUEST_SIZE_MATCH n st' = REQUEST_SIZE_MATCH n st"
  by (simp add: REQUEST_SIZE_MATCH_def)

lemma ProcGetProperty_found:
  assumes "get_allowed env stuff st" "windows st (gp_window stuff) = Some w"
    "find_prop (gp_property stuff) (wUserProps w) = Some i"
  shows "ProcGetProperty env stuff st =
    (let st1 = (if gp_delete stuff \<noteq> 0 then UpdateCurrentTime env st else st); p = wUserProps w ! i
     in if gp_type stuff \<noteq> prop_type p \<and> gp_type stuff \<noteq> 0
        then (Success, WriteReply (GetPropertyReply
               \<lparr>reply_format = format p, reply_length = 0, reply_type = prop_type p,
                bytesAfter = word_of_nat (prop_size p), nItems = 0\<rparr> []) st1)
        else get_data env stuff i w st1)"
  using assms by (auto simp: ProcGetProperty_def get_allowed_def Let_def)



text \<open>
  When the type asked for is not the type of the property, the reply gives as \<open>bytesAfter\<close> the number of
  units of the property: the length in bytes divided by the bytes of a unit, so half or a
  quarter of the length in bytes for the formats 16 and 32.
\<close>

theorem ProcGetProperty_mismatch_counts_units:
  assumes "get_allowed env stuff st" "windows st (gp_window stuff) = Some w" "win_wf w"
    "view w (gp_property stuff) = Some (ty, fmt, bs)" "gp_type stuff \<noteq> 0" "gp_type stuff \<noteq> ty"
    "length bs < 2 ^ 32"
  shows "\<exists>r st'. ProcGetProperty env stuff st = (Success, st') \<and> sent st' = sent st @ [GetPropertyReply r []] \<and>
    unat (bytesAfter r) * (fmt div 8) = length bs"
proof -
  obtain i where i: "find_prop (gp_property stuff) (wUserProps w) = Some i"
    using assms(4) find_prop_None_view [of "gp_property stuff" "wUserProps w"]
    by (cases "find_prop (gp_property stuff) (wUserProps w)") (auto simp: view_def)
  let ?p = "wUserProps w ! i"
  have p: "prop_type ?p = ty" "format ?p = fmt" "prop_data ?p = bs" "prop_wf ?p"
    using find_prop_Some [OF i] assms(3,4) by (auto simp: view_def val_of_def win_wf_def)
  then have l: "prop_size ?p * (fmt div 8) = length bs" "1 \<le> fmt div 8" by (auto simp: prop_wf_def)
  then have "prop_size ?p \<le> length bs" by (metis le_square mult_le_mono2 nat_mult_1_right)
  then have "unat (word_of_nat (prop_size ?p) :: CARD32) = prop_size ?p"
    using assms(7) by (simp add: unat_of_nat)
  with l(1) show ?thesis
    using ProcGetProperty_found [OF assms(1,2) i] assms(5,6) p(1,2)
    by (auto simp: Let_def WriteReply_def)
qed

theorem ProcGetProperty_mismatch_counts_units_witness:
  "\<exists>r st'. ProcGetProperty env_example \<lparr>gp_delete = 0, gp_window = 5, gp_property = 40, gp_type = 31,
      longOffset = 0, longLength = 2\<rparr> (props_example 6) = (Success, st') \<and> sent st' = [GetPropertyReply r []] \<and>
    unat (bytesAfter r) = 4"
proof -
  let ?r = "\<lparr>gp_delete = 0, gp_window = 5, gp_property = 40, gp_type = 31, longOffset = 0, longLength = 2\<rparr>"
  have a: "get_allowed env_example ?r (props_example 6)"
    by (simp add: get_allowed_def REQUEST_SIZE_MATCH_def props_example_def ValidAtom_def env_example_def)
  have w: "windows (props_example 6) (gp_window ?r) = Some win_example" by (simp add: props_example_def)
  have v: "view win_example (gp_property ?r) = Some (6, 16, [1, 2, 3, 4, 5, 6, 7, 8])"
    by (simp add: view_def win_example_def wUserProps_def val_of_def)
  from ProcGetProperty_mismatch_counts_units [OF a w win_example_wf v]
  show ?thesis by (auto simp: props_example_def)
qed

text \<open>
  The offset is shifted in 32 bits: an offset from 2 to the power 30 on, far past the end of any property,
  is not the \<open>BadValue\<close> the protocol asks for but is answered like the offset reduced by a
  multiple of that power.
\<close>

theorem ProcGetProperty_offset_wraps:
  assumes "ProcGetProperty env stuff st = (Success, st')"
  shows "ProcGetProperty env (stuff\<lparr>longOffset := longOffset stuff + 2 ^ 30 * k\<rparr>) st = (Success, st')"
proof -
  define far where "far = longOffset stuff + 2 ^ 30 * k"
  have sh: "push_bit 2 far = push_bit 2 (longOffset stuff)"
  proof -
    have "(4 :: CARD32) * 2 ^ 30 = 0" by simp
    then have "(2 ^ 30 * k) * 4 = 0" by (metis mult.commute mult.assoc mult_zero_left)
    then show ?thesis unfolding far_def push_bit_eq_mult distrib_right by simp
  qed
  have "get_data env (stuff\<lparr>longOffset := far\<rparr>) i w s = (Success, st')"
    if "get_data env stuff i w s = (Success, st')" for i w s
  proof (cases "format (wUserProps w ! i) div 8 * prop_size (wUserProps w ! i) <
      unat (push_bit 2 (longOffset stuff))")
    case True
    with that show ?thesis by (simp add: get_data_def Let_def)
  next
    case False
    let ?far = "stuff\<lparr>longOffset := far\<rparr>"
    have sel: "longOffset ?far = far" "longLength ?far = longLength stuff" "gp_delete ?far = gp_delete stuff"
      "gp_window ?far = gp_window stuff" by simp_all
    from False have "get_data env ?far i w s = get_data env stuff i w s"
      unfolding get_data_def Let_def by (simp only: sel sh if_False)
    with that show ?thesis by simp
  qed
  then have "ProcGetProperty env (stuff\<lparr>longOffset := far\<rparr>) st = (Success, st')"
    using assms unfolding ProcGetProperty_def Let_def
    by (auto split: if_splits option.splits SecurityAction.splits)
  then show ?thesis by (simp only: far_def)
qed

theorem ProcGetProperty_offset_wraps_witness:
  "\<exists>r. ProcGetProperty env_example \<lparr>gp_delete = 0, gp_window = 5, gp_property = 40, gp_type = 0,
      longOffset = 0x40000001, longLength = 1\<rparr> (props_example 6) =
    (Success, (props_example 6)\<lparr>sent := [GetPropertyReply r [5, 6, 7, 8]]\<rparr>)"
proof -
  let ?r = "\<lparr>gp_delete = 0, gp_window = 5, gp_property = 40, gp_type = 0, longOffset = 1, longLength = 1\<rparr>"
  obtain r where "ProcGetProperty env_example ?r (props_example 6) =
      (Success, (props_example 6)\<lparr>sent := [GetPropertyReply r [5, 6, 7, 8]]\<rparr>)"
    by (simp add: ProcGetProperty_def get_data_def props_example_def REQUEST_SIZE_MATCH_def ValidAtom_def
        env_example_def win_example_def wUserProps_def WriteReply_def Let_def push_bit_eq_mult)
  from ProcGetProperty_offset_wraps [OF this, of 1] show ?thesis by (intro exI [of _ r]) simp
qed

subsection \<open>Rotating properties\<close>

lemma up_to_nonneg:
  "0 < n \<Longrightarrow> 0 \<le> up_to_nonneg n d \<and> up_to_nonneg n d mod int n = d mod int n"
proof (induction n d rule: up_to_nonneg.induct)
  case (1 n d)
  show ?case
    using 1 by (subst (1 2) up_to_nonneg.simps) auto
qed

lemma rotate_find_Inr:
  "rotate_find env st wid w as = Inr idx \<Longrightarrow> distinct as \<and> length idx = length as \<and>
   (\<forall>i < length as. find_prop (as ! i) (wUserProps w) = Some (idx ! i))"
proof (induction as arbitrary: idx)
  case (Cons a as)
  then show ?case
    by (auto simp: Let_def nth_Cons' less_Suc_eq_0_disj split: if_splits option.splits sum.splits)
qed simp

lemma rotate_find_Inl:
  "(\<And>a m. SecurityCheckPropertyAccess env wid a m = SecurityAllowOperation) \<Longrightarrow>
   rotate_find env st wid w as = Inl (err, e) \<Longrightarrow> err \<noteq> Success"
  by (induction as) (auto simp: Let_def split: if_splits option.splits sum.splits)

text \<open>The new name of every old name, and the list after some rounds.\<close>

definition new_names :: "Atom list \<Rightarrow> nat \<Rightarrow> nat \<Rightarrow> (Atom \<times> Atom) list" where
  "new_names names d k = map (\<lambda>i. (names ! i, names ! ((i + d) mod length names))) [0..<k]"

definition rename :: "Atom list \<Rightarrow> nat \<Rightarrow> nat \<Rightarrow> Atom \<Rightarrow> Atom" where
  "rename names d k a = (case map_of (new_names names d k) a of None \<Rightarrow> a | Some b \<Rightarrow> b)"

lemma rename_0 [simp]: "rename names d 0 a = a"
  by (simp add: rename_def new_names_def)

lemma rename_Suc:
  assumes "distinct names" "k < length names"
  shows "rename names d (Suc k) a =
    (if a = names ! k then names ! ((k + d) mod length names) else rename names d k a)"
proof -
  have "map_of (new_names names d k) (names ! k) = None"
    using assms by (auto simp: new_names_def map_of_eq_None_iff nth_eq_iff_index_eq)
  then show ?thesis
    by (auto simp: rename_def new_names_def map_add_def split: option.splits)
qed

lemma rename_nth:
  "distinct names \<Longrightarrow> k \<le> length names \<Longrightarrow> i < k \<Longrightarrow>
   rename names d k (names ! i) = names ! ((i + d) mod length names)"
  by (induction k) (auto simp: rename_Suc nth_eq_iff_index_eq less_Suc_eq)

lemma rename_other: "distinct names \<Longrightarrow> k \<le> length names \<Longrightarrow> (\<And>i. i < k \<Longrightarrow> a \<noteq> names ! i) \<Longrightarrow> rename names d k a = a"
  by (induction k) (auto simp: rename_Suc)

definition renamed :: "(Atom \<Rightarrow> Atom) \<Rightarrow> PropertyRec \<Rightarrow> PropertyRec" where
  "renamed f p = p\<lparr>propertyName := f (propertyName p)\<rparr>"

lemma rotate_fold:
  assumes "distinct (map propertyName ps)" "distinct names"
    "\<forall>i < length names. idx ! i < length ps \<and> propertyName (ps ! (idx ! i)) = names ! i"
  shows "k \<le> length names \<Longrightarrow>
    fst (fold (rotate_step wid names d idx) [0..<k] (ps, st)) = map (renamed (rename names d k)) ps \<and>
    windows (snd (fold (rotate_step wid names d idx) [0..<k] (ps, st))) = windows st"
proof (induction k)
  case 0
  then show ?case by (simp add: renamed_def map_idI)
next
  case (Suc k)
  obtain qs s where f: "fold (rotate_step wid names d idx) [0..<k] (ps, st) = (qs, s)" by fastforce
  with Suc have q: "qs = map (renamed (rename names d k)) ps" "windows s = windows st" by auto
  let ?j = "idx ! k"
  have j: "?j < length ps" "propertyName (ps ! ?j) = names ! k" using assms(3) Suc.prems by auto
  have k: "rename names d k (names ! k) = names ! k"
    using Suc.prems assms(2) by (intro rename_other) (auto simp: nth_eq_iff_index_eq)
  have "qs[?j := (qs ! ?j)\<lparr>propertyName := names ! ((k + d) mod length names)\<rparr>] =
      map (renamed (rename names d (Suc k))) ps"
  proof (rule nth_equalityI)
    fix l assume "l < length (qs[?j := (qs ! ?j)\<lparr>propertyName := names ! ((k + d) mod length names)\<rparr>])"
    then have l: "l < length ps" by (simp add: q)
    have "propertyName (ps ! l) = names ! k \<longleftrightarrow> l = ?j"
      using assms(1) l j by (metis distinct_conv_nth length_map nth_map)
    then show "qs[?j := (qs ! ?j)\<lparr>propertyName := names ! ((k + d) mod length names)\<rparr>] ! l =
        map (renamed (rename names d (Suc k))) ps ! l"
      using l j k Suc.prems assms(2) by (auto simp: q nth_list_update renamed_def rename_Suc)
  qed (simp add: q)
  moreover have "rotate_step wid names d idx k (qs, s) =
      (qs[?j := (qs ! ?j)\<lparr>propertyName := names ! ((k + d) mod length names)\<rparr>],
       DeliverEvents wid PropertyNewValue (propertyName (qs ! ?j)) s)"
    by (simp add: rotate_step_def)
  ultimately show ?case using f q(2) by simp
qed

lemma rename_inj:
  assumes "distinct names"
  shows "inj (rename names d (length names))"
proof -
  let ?n = "length names" and ?r = "rename names d (length names)"
  have in_set: "?r a \<in> set names \<longleftrightarrow> a \<in> set names" for a
  proof (cases "a \<in> set names")
    case True
    then obtain i where "i < ?n" "a = names ! i" by (auto simp: in_set_conv_nth)
    moreover from this have "(i + d) mod ?n < ?n" by (intro mod_less_divisor) auto
    ultimately show ?thesis using rename_nth [OF assms order_refl, of i d] True by simp
  next
    case False
    then have "?r a = a" by (intro rename_other [OF assms]) auto
    with False show ?thesis by simp
  qed
  show ?thesis
  proof (rule injI)
    fix a b assume eq: "?r a = ?r b"
    show "a = b"
    proof (cases "a \<in> set names")
      case True
      then have "b \<in> set names" using in_set eq by metis
      with True obtain i j where ij: "i < ?n" "a = names ! i" "j < ?n" "b = names ! j"
        by (auto simp: in_set_conv_nth)
      have "(i + d) mod ?n < ?n" "(j + d) mod ?n < ?n" using ij by (auto intro!: mod_less_divisor)
      with eq ij have "(i + d) mod ?n = (j + d) mod ?n"
        using assms by (simp add: rename_nth nth_eq_iff_index_eq)
      then have "(int i + int d) mod int ?n = (int j + int d) mod int ?n" by (metis of_nat_add of_nat_mod)
      then have "int i mod int ?n = int j mod int ?n" by (simp add: mod_eq_dvd_iff)
      then have "i = j" using ij by simp
      with ij show ?thesis by simp
    next
      case False
      then have "b \<notin> set names" using in_set eq by metis
      with False eq rename_other [OF assms order_refl, of a d] rename_other [OF assms order_refl, of b d]
      show ?thesis by (metis nth_mem)
    qed
  qed
qed

lemma view_renamed: "inj f \<Longrightarrow> view_list (map (renamed f) ps) (f a) = view_list ps a"
  by (induction ps) (auto simp: renamed_def val_of_def inj_eq)

text \<open>
  C18. Rotation: a successful \<open>RotateProperties\<close> gives the property at place \<open>i\<close> of the list the
  name at place \<open>i + delta\<close> modulo the length of the list, for every delta of either sign, and
  changes no other property and no other window; names stay distinct.
\<close>

theorem ProcRotateProperties_permutes:
  assumes "windows st wid = Some w" "win_wf w" "wid = rp_window stuff"
    "\<forall>a m. SecurityCheckPropertyAccess env wid a m = SecurityAllowOperation"
    "ProcRotateProperties env stuff st = (Success, st')" "names = rp_atoms stuff"
  shows "\<exists>w'. windows st' = (windows st)(wid \<mapsto> w') \<and> win_wf w' \<and>
    (\<forall>i < length names. view w' (names ! nat ((int i + sint (nPositions stuff)) mod int (length names))) =
       view w (names ! i)) \<and>
    (\<forall>a. a \<notin> set names \<longrightarrow> view w' a = view w a)"
proof -
  define s1 where "s1 = UpdateCurrentTime env st"
  have s1: "windows s1 = windows st" by (simp add: s1_def)
  let ?n = "length names" and ?delta = "sint (nPositions stuff)" and ?ps = "wUserProps w"
  show ?thesis
  proof (cases "?n = 0 \<or> ?delta mod int ?n = 0")
    case True
    then have "?n = 0 \<or> \<bar>?delta\<bar> mod int ?n = 0" by (simp add: mod_eq_0_iff_dvd)
    then have "windows st' = windows st"
      using assms(5) unfolding assms(6) ProcRotateProperties_def Let_def
      by (auto simp: abs_if split: if_splits option.splits sum.splits prod.splits)
    moreover have "nat ((int i + ?delta) mod int ?n) = i" if "i < ?n" for i
      using True that by (auto simp: mod_add_eq [symmetric, of "int i" ?delta])
    ultimately show ?thesis using assms(1,2) by (intro exI [of _ w]) (auto simp: fun_upd_idem)
  next
    case False
    then have n0: "0 < ?n" and nd: "\<bar>?delta\<bar> mod int ?n \<noteq> 0" by (auto simp: mod_eq_0_iff_dvd)
    let ?d = "nat (up_to_nonneg ?n ?delta)"
    obtain idx where r: "rotate_find env s1 wid w names = Inr idx"
      and st': "st' = (case fold (rotate_step wid names ?d idx) [0..<?n] (?ps, s1) of
         (qs, s) \<Rightarrow> put_window wid (w\<lparr>optional := Some qs\<rparr>) s)"
    proof (cases "rotate_find env s1 wid w names")
      case (Inl e)
      with rotate_find_Inl [of env wid s1 w names "fst e" "snd e"] assms(4) have "fst e \<noteq> Success" by simp
      with Inl assms n0 nd s1 show ?thesis
        by (cases e; cases "snd e") (auto simp: ProcRotateProperties_def s1_def Let_def split: if_splits)
    next
      case (Inr idx)
      with assms n0 nd s1 that show ?thesis
        by (auto simp: ProcRotateProperties_def s1_def Let_def split: if_splits prod.splits)
    qed
    note f = rotate_find_Inr [OF r]
    have dn: "distinct (map propertyName ?ps)" using assms(2) by (simp add: win_wf_def)
    have "\<forall>i < ?n. idx ! i < length ?ps \<and> propertyName (?ps ! (idx ! i)) = names ! i"
      using f find_prop_Some by blast
    from rotate_fold [OF dn _ this order_refl, of wid ?d s1] f
    obtain s where s: "fold (rotate_step wid names ?d idx) [0..<?n] (?ps, s1) =
        (map (renamed (rename names ?d ?n)) ?ps, s)" "windows s = windows st"
      using s1 by (metis prod.collapse)
    let ?f = "rename names ?d ?n"
    have dist: "distinct names" using f by simp
    note inj = rename_inj [OF dist, of ?d]
    let ?w = "w\<lparr>optional := Some (map (renamed ?f) ?ps)\<rparr>"
    have v: "view ?w (?f a) = view w a" for a using view_renamed [OF inj] by (simp add: view_def)
    have "map propertyName (map (renamed ?f) ?ps) = map ?f (map propertyName ?ps)"
      by (simp add: renamed_def)
    then have "distinct (map propertyName (map (renamed ?f) ?ps))"
      using dn inj by (metis distinct_map inj_on_subset subset_UNIV)
    then have "win_wf ?w" using assms(2) by (auto simp: win_wf_def prop_wf_def renamed_def)
    moreover have "view ?w (names ! nat ((int i + ?delta) mod int ?n)) = view w (names ! i)" if "i < ?n" for i
    proof -
      have "int ((i + ?d) mod ?n) = (int i + up_to_nonneg ?n ?delta) mod int ?n"
        using up_to_nonneg [OF n0, of ?delta] by (simp add: of_nat_mod)
      also have "\<dots> = (int i + ?delta) mod int ?n"
        using up_to_nonneg [OF n0, of ?delta] by (metis mod_add_right_eq)
      finally have "nat ((int i + ?delta) mod int ?n) = (i + ?d) mod ?n" by linarith
      with v [of "names ! i"] rename_nth [OF dist order_refl that, of ?d] show ?thesis by simp
    qed
    moreover have "view ?w a = view w a" if "a \<notin> set names" for a
      using v [of a] rename_other [OF dist order_refl, of a ?d] that by (metis nth_mem)
    moreover have "windows st' = (windows st)(wid \<mapsto> ?w)" by (simp add: st' s)
    ultimately show ?thesis by blast
  qed
qed

theorem ProcRotateProperties_permutes_witness:
  "\<exists>st' w'. ProcRotateProperties env_example \<lparr>rp_window = 5, nPositions = - 1, rp_atoms = [39, 40]\<rparr>
      (props_example 5) = (Success, st') \<and> windows st' = (windows (props_example 5))(5 \<mapsto> w') \<and>
    view w' 40 = view win_example 39 \<and> view w' 39 = view win_example 40"
proof -
  let ?r = "\<lparr>rp_window = 5, nPositions = - 1, rp_atoms = [39, 40]\<rparr>"
  obtain st' where r: "ProcRotateProperties env_example ?r (props_example 5) = (Success, st')"
    by (simp add: ProcRotateProperties_def props_example_def REQUEST_FIXED_SIZE_def UpdateCurrentTime_def
        env_example_def ValidAtom_def win_example_def wUserProps_def Let_def rotate_step_def)
  have w: "windows (props_example 5) 5 = Some win_example" by (simp add: props_example_def)
  have "\<forall>a m. SecurityCheckPropertyAccess env_example 5 a m = SecurityAllowOperation"
    by (simp add: env_example_def)
  from ProcRotateProperties_permutes [OF w win_example_wf _ this r refl] obtain w' where
    "windows st' = (windows (props_example 5))(5 \<mapsto> w')"
    "\<forall>i < 2. view w' ([39, 40] ! nat ((int i + - 1) mod 2)) = view win_example ([39, 40] ! i)"
    by (auto simp: numeral_2_eq_2)
  from this(1) this(2) [rule_format, of 0] this(2) [rule_format, of 1] r show ?thesis by auto
qed

end
