(* ===== verification/RecordSets.thy ===== *)
theory RecordSets
  imports Prelude
begin

text \<open>
  The sets of numbers of the RECORD extension, \<^verbatim>\<open>programs/Xserver/record/set.c\<close>: a bit vector
  and a sorted list of intervals behind one table of operations. A \<open>long\<close> has 64 bits and a
  pointer 8 bytes. An iterator is a number: 0 is \<open>NULL\<close>; of a bit vector it is the next
  member to look at, of an interval list the index of the next interval (a pointer to the first
  interval behaves as \<open>NULL\<close> does).
\<close>

record RecordSetInterval =
  first :: CARD16
  last_member :: CARD16

fun max_member_from :: "int \<Rightarrow> RecordSetInterval list \<Rightarrow> int" where
  "max_member_from m [] = m"
| "max_member_from m (v # vs) =
     max_member_from (if m < uint (last_member v) then uint (last_member v) else m) vs"

definition maxMemberInInterval :: "RecordSetInterval list \<Rightarrow> int" where
  "maxMemberInInterval vs = max_member_from (-1) vs"

subsection \<open>Bit vectors\<close>

record BitVectorSet =
  maxMember :: int
  pbitvec :: "64 word list"

definition BITS_PER_LONG :: nat where "BITS_PER_LONG = 64"

definition BitVectorIsMemberOfSet :: "BitVectorSet \<Rightarrow> nat \<Rightarrow> 64 word" where
  "BitVectorIsMemberOfSet s pm =
     (if int pm > maxMember s then 0
      else pbitvec s ! (pm div BITS_PER_LONG) AND push_bit (pm mod BITS_PER_LONG) 1)"

text \<open>The two loops of \<open>BitVectorFindBit\<close>: over whole longs, and over the bits of one.\<close>

function skip_longs :: "BitVectorSet \<Rightarrow> 64 word \<Rightarrow> nat \<Rightarrow> nat" where
  "skip_longs s skipval i =
     (if int (i * BITS_PER_LONG) \<le> maxMember s \<and> pbitvec s ! i = skipval
      then skip_longs s skipval (i + 1) else i)"
  by auto
termination by (relation "measure (\<lambda>(s, _, i). nat (maxMember s + 1 - int i))")
    (auto simp: BITS_PER_LONG_def)

function walk_bits :: "64 word \<Rightarrow> bool \<Rightarrow> nat \<Rightarrow> nat" where
  "walk_bits bits bitval walkbit =
     (if walkbit < BITS_PER_LONG \<and> ((bits AND push_bit walkbit 1 = 0) = bitval)
      then walk_bits bits bitval (walkbit + 1) else walkbit)"
  by auto
termination by (relation "measure (\<lambda>(_, _, w). BITS_PER_LONG - w)") auto

declare skip_longs.simps [simp del] walk_bits.simps [simp del]

definition BitVectorFindBit :: "BitVectorSet \<Rightarrow> nat \<Rightarrow> bool \<Rightarrow> int" where
  "BitVectorFindBit s iterbit bitval =
     (let startlong = iterbit div BITS_PER_LONG;
          startbit = startlong * BITS_PER_LONG;
          skipval = (if bitval then 0 else NOT 0)
      in if int startbit > maxMember s then -1
         else
           (let bits = pbitvec s ! startlong;
                usefulbits = NOT (push_bit (iterbit - startbit) 1 - 1);
                skip = (bits AND usefulbits = skipval AND usefulbits);
                l = (if skip then skip_longs s skipval (startlong + 1) else startlong)
            in if skip \<and> int (l * BITS_PER_LONG) > maxMember s then -1
               else
                 (let sb = l * BITS_PER_LONG;
                      walkbit = (if sb < iterbit then iterbit - sb else 0)
                  in int (sb + walk_bits (pbitvec s ! l) bitval walkbit))))"

definition BitVectorIterateSet :: "BitVectorSet \<Rightarrow> nat \<Rightarrow> (nat \<times> RecordSetInterval) option" where
  "BitVectorIterateSet s iterbit =
     (let b = BitVectorFindBit s iterbit True
      in if b = -1 then None
         else
           (let e = BitVectorFindBit s (nat b) False;
                last = (if e < 0 then maxMember s else e - 1)
            in Some (nat (last + 1), \<lparr>first = word_of_int b, last_member = word_of_int last\<rparr>)))"

definition BitVectorSetMemoryRequirements :: "int \<Rightarrow> nat" where
  "BitVectorSetMemoryRequirements maxm = 16 + nat ((maxm + int BITS_PER_LONG) div int BITS_PER_LONG) * 8"

definition set_bit_at :: "nat \<Rightarrow> 64 word list \<Rightarrow> 64 word list" where
  "set_bit_at j vec =
     vec[j div BITS_PER_LONG := vec ! (j div BITS_PER_LONG) OR push_bit (j mod BITS_PER_LONG) 1]"

definition BitVectorCreateSet :: "bool \<Rightarrow> RecordSetInterval list \<Rightarrow> nat \<Rightarrow> BitVectorSet option" where
  "BitVectorCreateSet alloc_ok vs memsize =
     (if \<not> alloc_ok then None
      else Some \<lparr>maxMember = maxMemberInInterval vs,
             pbitvec = fold (\<lambda>v. fold set_bit_at [unat (first v) ..< unat (last_member v) + 1]) vs
                         (replicate ((memsize - 16) div 8) 0)\<rparr>)"

subsection \<open>Interval lists\<close>

type_synonym IntervalListSet = "RecordSetInterval list"

function search_intervals :: "IntervalListSet \<Rightarrow> nat \<Rightarrow> int \<Rightarrow> int \<Rightarrow> bool" where
  "search_intervals s pm lo hi =
     (if lo \<le> hi
      then
        (let probe = (hi + lo) div 2; v = s ! nat probe
         in if pm \<ge> unat (first v) \<and> pm \<le> unat (last_member v) then True
            else if pm < unat (first v) then search_intervals s pm lo (probe - 1)
            else search_intervals s pm (probe + 1) hi)
      else False)"
  by auto
termination by (relation "measure (\<lambda>(_, _, lo, hi). nat (hi - lo + 1))") auto

declare search_intervals.simps [simp del]

definition IntervalListIsMemberOfSet :: "IntervalListSet \<Rightarrow> nat \<Rightarrow> 64 word" where
  "IntervalListIsMemberOfSet s pm = (if search_intervals s pm 0 (int (length s) - 1) then 1 else 0)"

definition IntervalListIterateSet :: "IntervalListSet \<Rightarrow> nat \<Rightarrow> (nat \<times> RecordSetInterval) option" where
  "IntervalListIterateSet s i = (if i < length s then Some (i + 1, s ! i) else None)"

definition IntervalListMemoryRequirements :: "nat \<Rightarrow> nat" where
  "IntervalListMemoryRequirements nIntervals = 16 + nIntervals * 4"

text \<open>The insertion sort and the merging loop of \<open>IntervalListCreateSet\<close>.\<close>

fun insert_interval :: "RecordSetInterval \<Rightarrow> RecordSetInterval list \<Rightarrow> RecordSetInterval list" where
  "insert_interval v [] = [v]"
| "insert_interval v (u # us) = (if first v < first u then v # u # us else u # insert_interval v us)"

function (sequential) merge_intervals :: "RecordSetInterval list \<Rightarrow> RecordSetInterval list" where
  "merge_intervals (a # b # vs) =
     (if unat (last_member a) + 1 < unat (first b) then a # merge_intervals (b # vs)
      else merge_intervals (a\<lparr>last_member := max (last_member a) (last_member b)\<rparr> # vs))"
| "merge_intervals vs = vs"
  by pat_completeness auto
termination by (relation "measure length") auto

definition IntervalListCreateSet :: "bool \<Rightarrow> bool \<Rightarrow> RecordSetInterval list \<Rightarrow> IntervalListSet option" where
  "IntervalListCreateSet stack_ok alloc_ok vs =
     (if vs \<noteq> [] \<and> \<not> stack_ok then None
      else if \<not> alloc_ok then None
      else Some (merge_intervals (fold insert_interval vs [])))"

subsection \<open>The interface\<close>

datatype RecordSet = BitVector BitVectorSet | IntervalList IntervalListSet

text \<open>\<open>_RecordSetMemoryRequirements\<close>: the size, and whether bit vectors are chosen.\<close>

definition choose_set :: "RecordSetInterval list \<Rightarrow> nat \<times> bool" where
  "choose_set vs =
     (let maxm = maxMemberInInterval vs;
          bmsize = BitVectorSetMemoryRequirements maxm;
          rlsize = IntervalListMemoryRequirements (length vs)
      in if (length vs > 1 \<and> maxm \<le> 255) \<or> bmsize < rlsize then (bmsize, True) else (rlsize, False))"

definition RecordSetMemoryRequirements :: "RecordSetInterval list \<Rightarrow> nat" where
  "RecordSetMemoryRequirements vs = fst (choose_set vs)"

text \<open>
  \<open>RecordCreateSet\<close>: \<open>mem\<close> is \<open>None\<close> when the set is to be allocated (which may fail), or the
  address and the size of the memory to use.
\<close>

definition RecordCreateSet ::
    "bool \<Rightarrow> bool \<Rightarrow> RecordSetInterval list \<Rightarrow> (nat \<times> nat) option \<Rightarrow> RecordSet option" where
  "RecordCreateSet stack_ok alloc_ok vs mem =
     (let (size, bits) = choose_set vs;
          ok = (case mem of None \<Rightarrow> alloc_ok | Some _ \<Rightarrow> True)
      in case mem of
           Some (pMem, memsize) \<Rightarrow>
             if pMem mod 8 \<noteq> 0 \<or> memsize < size then None
             else if bits then map_option BitVector (BitVectorCreateSet ok vs size)
             else map_option IntervalList (IntervalListCreateSet stack_ok ok vs)
         | None \<Rightarrow>
             if bits then map_option BitVector (BitVectorCreateSet ok vs size)
             else map_option IntervalList (IntervalListCreateSet stack_ok ok vs))"

fun RecordIsMemberOfSet :: "RecordSet \<Rightarrow> nat \<Rightarrow> 64 word" where
  "RecordIsMemberOfSet (BitVector s) pm = BitVectorIsMemberOfSet s pm"
| "RecordIsMemberOfSet (IntervalList s) pm = IntervalListIsMemberOfSet s pm"

fun RecordIterateSet :: "RecordSet \<Rightarrow> nat \<Rightarrow> (nat \<times> RecordSetInterval) option" where
  "RecordIterateSet (BitVector s) it = BitVectorIterateSet s it"
| "RecordIterateSet (IntervalList s) it = IntervalListIterateSet s it"

text \<open>
  The test in \<open>RecordADeliveredEventOrError\<close> (\<^verbatim>\<open>record/record.c\<close>): the answer is stored in an
  \<open>int\<close> before it is looked at.
\<close>

definition recordit :: "RecordSet \<Rightarrow> nat \<Rightarrow> 32 word" where
  "recordit s code = ucast (RecordIsMemberOfSet s code)"

end
