(* ===== verification/RecordSetProofs.thy ===== *)
theory RecordSetProofs
  imports RecordSets
begin

text \<open>
  Both representations of a RECORD set satisfy one interface: membership in an abstract set and
  iteration over its maximal runs. The client of the interface, the iteration loop, is verified
  once in the locale.
\<close>

subsection \<open>The abstract set and its runs\<close>

definition in_interval :: "nat \<Rightarrow> RecordSetInterval \<Rightarrow> bool" where
  "in_interval x v \<longleftrightarrow> unat (first v) \<le> x \<and> x \<le> unat (last_member v)"

definition members :: "RecordSetInterval list \<Rightarrow> nat set" where
  "members vs = {x. \<exists>v \<in> set vs. in_interval x v}"

definition intervals_ok :: "RecordSetInterval list \<Rightarrow> bool" where
  "intervals_ok vs \<longleftrightarrow> (\<forall>v \<in> set vs. first v \<le> last_member v)"

text \<open>The intervals are the maximal runs of the set from a bound on, in order.\<close>

fun runs :: "nat \<Rightarrow> nat set \<Rightarrow> RecordSetInterval list \<Rightarrow> bool" where
  "runs lo A [] \<longleftrightarrow> (\<forall>x \<in> A. x < lo)"
| "runs lo A (v # vs) \<longleftrightarrow> lo \<le> unat (first v) \<and> first v \<le> last_member v \<and>
     {unat (first v)..unat (last_member v)} \<subseteq> A \<and> (\<forall>x \<in> A. lo \<le> x \<longrightarrow> unat (first v) \<le> x) \<and>
     unat (last_member v) + 1 \<notin> A \<and> runs (unat (last_member v) + 1) A vs"

text \<open>The loop a user of the interface runs, with a bound on the number of calls.\<close>

fun collect :: "nat \<Rightarrow> (nat \<Rightarrow> (nat \<times> RecordSetInterval) option) \<Rightarrow> nat \<Rightarrow> RecordSetInterval list option" where
  "collect 0 iterate it = None"
| "collect (Suc n) iterate it =
     (case iterate it of
        None \<Rightarrow> Some []
      | Some (it', v) \<Rightarrow> map_option ((#) v) (collect n iterate it'))"

lemma runs_first: "runs lo A (v # vs) \<Longrightarrow> unat (first v) \<in> A \<and> lo \<le> unat (first v)"
  by (auto simp: word_le_nat_alt)

lemma run_end:
  fixes f l l' :: nat
  assumes "f \<le> l" "{f..l} \<subseteq> A" "l + 1 \<notin> A" "f \<le> l'" "{f..l'} \<subseteq> A" "l' + 1 \<notin> A"
  shows "l = l'"
proof (rule linorder_cases [of l l'])
  assume "l < l'"
  then have "l + 1 \<in> {f..l'}" using assms(1) by simp
  with assms(3,5) show ?thesis by blast
next
  assume "l' < l"
  then have "l' + 1 \<in> {f..l}" using assms(4) by simp
  with assms(2,6) show ?thesis by blast
qed

lemma runs_unique: "runs lo A vs \<Longrightarrow> runs lo A ws \<Longrightarrow> vs = ws"
proof (induction vs arbitrary: lo ws)
  case Nil
  then have "ws = w # ws' \<Longrightarrow> False" for w ws' using runs_first [of lo A w ws'] by auto
  then show ?case by (cases ws) auto
next
  case (Cons v vs)
  have "ws \<noteq> []" using runs_first [OF Cons.prems(1)] Cons.prems(2) by (metis leD runs.simps(1))
  then obtain w ws' where ws: "ws = w # ws'" by (cases ws) auto
  have le: "unat (first v) \<le> unat (last_member v)" "unat (first w) \<le> unat (last_member w)"
    using Cons.prems ws by (auto simp: word_le_nat_alt)
  then have "unat (first v) \<in> A" "unat (first w) \<in> A" using Cons.prems ws by auto
  then have f: "unat (first v) = unat (first w)" using Cons.prems ws by (auto intro: antisym)
  have "unat (last_member v) = unat (last_member w)"
    using run_end [of "unat (first v)" "unat (last_member v)" A "unat (last_member w)"] f le Cons.prems ws
    by simp
  with f have "first v = first w" "last_member v = last_member w" by (simp_all add: word_unat_eq_iff)
  then show ?case using Cons ws by auto
qed

locale record_set =
  fixes inv :: "'s \<Rightarrow> bool"
    and elems :: "'s \<Rightarrow> nat set"
    and member :: "'s \<Rightarrow> nat \<Rightarrow> 64 word"
    and iterate :: "'s \<Rightarrow> nat \<Rightarrow> (nat \<times> RecordSetInterval) option"
    and valid :: "'s \<Rightarrow> nat \<Rightarrow> bool"
    and bound :: "'s \<Rightarrow> nat \<Rightarrow> nat"
  assumes elems_bound: "inv s \<Longrightarrow> x \<in> elems s \<Longrightarrow> x < 65536"
    and member_elems: "inv s \<Longrightarrow> member s x \<noteq> 0 \<longleftrightarrow> x \<in> elems s"
    and start: "inv s \<Longrightarrow> valid s 0 \<and> bound s 0 = 0"
    and iterate_None: "inv s \<Longrightarrow> valid s it \<Longrightarrow> iterate s it = None \<Longrightarrow> x \<in> elems s \<Longrightarrow> x < bound s it"
    and iterate_Some: "inv s \<Longrightarrow> valid s it \<Longrightarrow> iterate s it = Some (it', v) \<Longrightarrow>
      valid s it' \<and> bound s it' = unat (last_member v) + 1 \<and> bound s it \<le> unat (first v) \<and>
      first v \<le> last_member v \<and> {unat (first v)..unat (last_member v)} \<subseteq> elems s \<and>
      (\<forall>x \<in> elems s. bound s it \<le> x \<longrightarrow> unat (first v) \<le> x) \<and> unat (last_member v) + 1 \<notin> elems s"
begin

lemma collect_runs:
  "inv s \<Longrightarrow> valid s it \<Longrightarrow> 65536 - bound s it < n \<Longrightarrow>
   \<exists>vs. collect n (iterate s) it = Some vs \<and> runs (bound s it) (elems s) vs"
proof (induction n arbitrary: it)
  case (Suc n)
  show ?case
  proof (cases "iterate s it")
    case None
    with iterate_None [OF Suc.prems(1,2)] show ?thesis by auto
  next
    case (Some p)
    obtain it' v where p: "p = (it', v)" by (cases p)
    note v = iterate_Some [OF Suc.prems(1,2) Some [unfolded p]]
    have "unat (last_member v) \<in> elems s" using v by (auto simp: word_le_nat_alt)
    then have "unat (last_member v) < 65536" using elems_bound Suc.prems(1) by blast
    then have "65536 - bound s it' < n"
      using v Suc.prems(3) by (auto simp: word_le_nat_alt)
    from Suc.IH [OF Suc.prems(1) _ this] v obtain vs where
      "collect n (iterate s) it' = Some vs" "runs (bound s it') (elems s) vs" by auto
    with Some p v show ?thesis by auto
  qed
qed simp

lemma loop_enumerates:
  "inv s \<Longrightarrow> \<exists>vs. collect 65537 (iterate s) 0 = Some vs \<and> runs 0 (elems s) vs"
  using collect_runs [of s 0 65537] start [of s] by auto

end

subsection \<open>Interval lists\<close>

fun separated :: "RecordSetInterval list \<Rightarrow> bool" where
  "separated (a # b # vs) \<longleftrightarrow> unat (last_member a) + 1 < unat (first b) \<and> separated (b # vs)"
| "separated vs \<longleftrightarrow> True"

definition list_inv :: "IntervalListSet \<Rightarrow> bool" where
  "list_inv s \<longleftrightarrow> intervals_ok s \<and> separated s"

definition list_bound :: "IntervalListSet \<Rightarrow> nat \<Rightarrow> nat" where
  "list_bound s i = (if i = 0 then 0 else unat (last_member (s ! (i - 1))) + 1)"

lemma members_simps [simp]:
  "members [] = {}" "x \<in> members (v # vs) \<longleftrightarrow> in_interval x v \<or> x \<in> members vs"
  by (auto simp: members_def)

lemma intervals_ok_Cons [simp]:
  "intervals_ok (v # vs) \<longleftrightarrow> first v \<le> last_member v \<and> intervals_ok vs"
  by (auto simp: intervals_ok_def)

lemma separated_step:
  "list_inv s \<Longrightarrow> i < j \<Longrightarrow> j < length s \<Longrightarrow> unat (last_member (s ! i)) + 1 < unat (first (s ! j))"
proof (induction s arbitrary: i j rule: separated.induct)
  case (1 a b vs)
  have inv: "list_inv (b # vs)" using "1.prems"(1) by (simp add: list_inv_def)
  show ?case
  proof (cases i)
    case 0
    show ?thesis
    proof (cases "j = 1")
      case True
      with 0 "1.prems" show ?thesis by (simp add: list_inv_def)
    next
      case False
      then have "unat (last_member ((b # vs) ! 0)) + 1 < unat (first ((b # vs) ! (j - 1)))"
        using "1.prems" 0 by (intro "1.IH" [OF inv]) auto
      moreover have "unat (last_member a) + 1 < unat (first b)" "unat (first b) \<le> unat (last_member b)"
        using "1.prems"(1) by (auto simp: list_inv_def word_le_nat_alt)
      ultimately show ?thesis using 0 "1.prems" by (cases j) auto
    qed
  next
    case (Suc k)
    with "1.prems" "1.IH" [OF inv, of k "j - 1"] show ?thesis by (cases j) auto
  qed
qed auto

lemma interval_mono:
  assumes "list_inv s" "i \<le> j" "j < length s"
  shows "unat (first (s ! i)) \<le> unat (first (s ! j)) \<and> unat (last_member (s ! i)) \<le> unat (last_member (s ! j))"
proof (cases "i = j")
  case False
  have "first (s ! i) \<le> last_member (s ! i)" "first (s ! j) \<le> last_member (s ! j)"
    using assms by (auto simp: list_inv_def intervals_ok_def)
  with separated_step [of s i j] assms False show ?thesis by (auto simp: word_le_nat_alt)
qed simp

lemma members_nth: "x \<in> members s \<longleftrightarrow> (\<exists>i < length s. in_interval x (s ! i))"
  by (simp add: members_def Bex_def in_set_conv_nth) metis

lemma search_intervals_correct:
  "list_inv s \<Longrightarrow> 0 \<le> lo \<Longrightarrow> hi < int (length s) \<Longrightarrow>
   search_intervals s pm lo hi \<longleftrightarrow> (\<exists>i. lo \<le> int i \<and> int i \<le> hi \<and> in_interval pm (s ! i))"
proof (induction s pm lo hi rule: search_intervals.induct)
  case (1 s pm lo hi)
  show ?case
  proof (cases "lo \<le> hi")
    case False
    then show ?thesis by (subst search_intervals.simps) auto
  next
    case True
    define probe where "probe = (hi + lo) div 2"
    have pr: "lo \<le> probe" "probe \<le> hi" using True by (auto simp: probe_def)
    let ?v = "s ! nat probe"
    have pi: "int (nat probe) = probe" "nat probe < length s" using pr "1.prems" by auto
    consider (found) "in_interval pm ?v" | (left) "pm < unat (first ?v)" | (right) "unat (last_member ?v) < pm"
      unfolding in_interval_def by linarith
    then show ?thesis
    proof cases
      case found
      then have "search_intervals s pm lo hi"
        using True by (subst search_intervals.simps) (auto simp: Let_def probe_def in_interval_def)
      with found pr pi show ?thesis by metis
    next
      case left
      have out: "\<not> in_interval pm (s ! i)" if "probe \<le> int i" "int i \<le> hi" for i
      proof -
        have "nat probe \<le> i" "i < length s" using that "1.prems"(3) by auto
        with interval_mono [OF "1.prems"(1), of "nat probe" i] left show ?thesis
          by (simp add: in_interval_def)
      qed
      have "search_intervals s pm lo hi = search_intervals s pm lo (probe - 1)"
        using True left by (subst search_intervals.simps) (auto simp: Let_def probe_def)
      also have "\<dots> \<longleftrightarrow> (\<exists>i. lo \<le> int i \<and> int i \<le> probe - 1 \<and> in_interval pm (s ! i))"
        using "1.IH"(1) [OF True probe_def refl] left pr "1.prems" by auto
      also have "\<dots> \<longleftrightarrow> (\<exists>i. lo \<le> int i \<and> int i \<le> hi \<and> in_interval pm (s ! i))"
        using out pr(2) by (smt (verit))
      finally show ?thesis .
    next
      case right
      have out: "\<not> in_interval pm (s ! i)" if "int i \<le> probe" for i
      proof -
        have "i \<le> nat probe" using that by auto
        with interval_mono [OF "1.prems"(1), of i "nat probe"] right pi show ?thesis
          by (simp add: in_interval_def)
      qed
      have f: "unat (first ?v) \<le> unat (last_member ?v)"
        using "1.prems"(1) pi(2) by (auto simp: list_inv_def intervals_ok_def word_le_nat_alt)
      have "search_intervals s pm lo hi = search_intervals s pm (probe + 1) hi"
        using True right f by (subst search_intervals.simps) (auto simp: Let_def probe_def)
      also have "\<dots> \<longleftrightarrow> (\<exists>i. probe + 1 \<le> int i \<and> int i \<le> hi \<and> in_interval pm (s ! i))"
        using "1.IH"(2) [OF True probe_def refl] right f pr "1.prems" by auto
      also have "\<dots> \<longleftrightarrow> (\<exists>i. lo \<le> int i \<and> int i \<le> hi \<and> in_interval pm (s ! i))"
        using out pr(1) by (smt (verit))
      finally show ?thesis .
    qed
  qed
qed

lemma list_member_correct:
  "list_inv s \<Longrightarrow> IntervalListIsMemberOfSet s x \<noteq> 0 \<longleftrightarrow> x \<in> members s"
  using search_intervals_correct [of s 0 "int (length s) - 1" x]
  by (auto simp: IntervalListIsMemberOfSet_def members_nth)

interpretation list_set: record_set list_inv members IntervalListIsMemberOfSet IntervalListIterateSet
  "\<lambda>s i. i \<le> length s" list_bound
proof unfold_locales
  fix s x assume "list_inv s" "x \<in> members s"
  then obtain v :: RecordSetInterval where "x \<le> unat (last_member v)"
    by (auto simp: members_def in_interval_def)
  also have "unat (last_member v) < 65536" using unsigned_less [of "last_member v"] by simp
  finally show "x < 65536" .
next
  fix s :: IntervalListSet and x
  assume "list_inv s"
  then show "IntervalListIsMemberOfSet s x \<noteq> 0 \<longleftrightarrow> x \<in> members s" by (rule list_member_correct)
next
  fix s :: IntervalListSet
  show "0 \<le> length s \<and> list_bound s 0 = 0" by (simp add: list_bound_def)
next
  fix s x it
  assume a: "list_inv s" "it \<le> length s" "IntervalListIterateSet s it = None" "x \<in> members s"
  then have it: "it = length s" by (auto simp: IntervalListIterateSet_def split: if_splits)
  from a(4) obtain i where i: "i < length s" "in_interval x (s ! i)" by (auto simp: members_nth)
  have "i \<le> length s - 1" "length s - 1 < length s" using i(1) by auto
  with interval_mono [OF a(1), of i "length s - 1"] i show "x < list_bound s it"
    by (auto simp: list_bound_def it in_interval_def)
next
  fix s it it' v
  assume a: "list_inv s" "it \<le> length s" "IntervalListIterateSet s it = Some (it', v)"
  then have it: "it < length s" "it' = it + 1" "v = s ! it"
    by (auto simp: IntervalListIterateSet_def split: if_splits)
  have v: "first v \<le> last_member v" using a(1) it by (auto simp: list_inv_def intervals_ok_def)
  have b: "list_bound s it \<le> unat (first v)"
    using separated_step [OF a(1), of "it - 1" it] it by (auto simp: list_bound_def)
  have sub: "{unat (first v)..unat (last_member v)} \<subseteq> members s"
    using it by (auto simp: members_nth in_interval_def)
  have least: "unat (first v) \<le> x" if "x \<in> members s" "list_bound s it \<le> x" for x
  proof -
    from that(1) obtain i where i: "i < length s" "in_interval x (s ! i)" by (auto simp: members_nth)
    have "\<not> i < it"
    proof
      assume lt: "i < it"
      then have "i \<le> it - 1" "it - 1 < length s" using it(1) by auto
      with lt interval_mono [OF a(1), of i "it - 1"] it i that(2) show False
        by (auto simp: list_bound_def in_interval_def)
    qed
    with interval_mono [OF a(1), of it i] i it show ?thesis by (auto simp: in_interval_def)
  qed
  have gap: "unat (last_member v) + 1 \<notin> members s"
  proof
    assume "unat (last_member v) + 1 \<in> members s"
    then obtain i where i: "i < length s" "in_interval (unat (last_member v) + 1) (s ! i)"
      by (auto simp: members_nth)
    show False
    proof (cases "i \<le> it")
      case True
      with interval_mono [OF a(1) True it(1)] i it show False by (simp add: in_interval_def)
    next
      case False
      with separated_step [OF a(1), of it i] i it show False by (simp add: in_interval_def)
    qed
  qed
  show "it' \<le> length s \<and> list_bound s it' = unat (last_member v) + 1 \<and> list_bound s it \<le> unat (first v) \<and>
      first v \<le> last_member v \<and> {unat (first v)..unat (last_member v)} \<subseteq> members s \<and>
      (\<forall>x \<in> members s. list_bound s it \<le> x \<longrightarrow> unat (first v) \<le> x) \<and> unat (last_member v) + 1 \<notin> members s"
    using it v b sub least gap by (auto simp: list_bound_def)
qed

text \<open>The construction of the list.\<close>

lemma insert_interval:
  "set (insert_interval v us) = insert v (set us)"
  "sorted (map first us) \<Longrightarrow> sorted (map first (insert_interval v us))"
  by (induction us) auto

lemma sorted_intervals:
  "set (fold insert_interval vs us) = set vs \<union> set us"
  "sorted (map first us) \<Longrightarrow> sorted (map first (fold insert_interval vs us))"
  by (induction vs arbitrary: us) (auto simp: insert_interval)

lemma merge_first: "merge_intervals (a # vs) \<noteq> [] \<and> first (hd (merge_intervals (a # vs))) = first a"
  by (induction "a # vs" arbitrary: a vs rule: merge_intervals.induct) auto

lemma separated_Cons:
  "separated (a # vs) \<longleftrightarrow> (vs = [] \<or> unat (last_member a) + 1 < unat (first (hd vs)) \<and> separated vs)"
  by (cases vs) auto

lemma merge_intervals_correct:
  "sorted (map first vs) \<Longrightarrow> intervals_ok vs \<Longrightarrow>
   members (merge_intervals vs) = members vs \<and> list_inv (merge_intervals vs)"
proof (induction vs rule: merge_intervals.induct)
  case (1 a b vs)
  have ab: "first a \<le> first b" "first a \<le> last_member a" "first b \<le> last_member b"
    using "1.prems" by (auto simp: intervals_ok_def)
  show ?case
  proof (cases "unat (last_member a) + 1 < unat (first b)")
    case True
    have "members (merge_intervals (b # vs)) = members (b # vs) \<and> list_inv (merge_intervals (b # vs))"
      using "1.IH"(1) [OF True] "1.prems" by (auto simp: intervals_ok_def)
    with True merge_first [of b vs] ab show ?thesis
      by (auto simp: list_inv_def separated_Cons simp del: merge_intervals.simps(1) members_simps(1)
          simp add: merge_intervals.simps(1) [of a b vs])
  next
    case False
    let ?c = "a\<lparr>last_member := max (last_member a) (last_member b)\<rparr>"
    have "sorted (map first (?c # vs))" "intervals_ok (?c # vs)"
      using "1.prems" ab by (auto simp: intervals_ok_def max_def)
    note IH = "1.IH"(2) [OF False this]
    have "in_interval x ?c \<longleftrightarrow> in_interval x a \<or> in_interval x b" for x
      using False ab by (auto simp: in_interval_def max_def word_le_nat_alt)
    with IH False show ?thesis by (auto simp: set_eq_iff)
  qed
qed (auto simp: list_inv_def intervals_ok_def)

lemma IntervalListCreateSet_correct:
  assumes "intervals_ok vs" "IntervalListCreateSet stack_ok alloc_ok vs = Some s"
  shows "list_inv s \<and> members s = members vs"
proof -
  let ?us = "fold insert_interval vs []"
  have s: "s = merge_intervals ?us" using assms(2) by (auto simp: IntervalListCreateSet_def split: if_splits)
  have us: "set ?us = set vs" "sorted (map first ?us)" using sorted_intervals [of vs "[]"] sorted_intervals(2) [of "[]" vs] by auto
  then have "intervals_ok ?us" "members ?us = members vs" using assms(1) by (auto simp: intervals_ok_def members_def)
  with merge_intervals_correct [OF us(2)] s show ?thesis by simp
qed

subsection \<open>Bit vectors\<close>

definition bv_bit :: "BitVectorSet \<Rightarrow> nat \<Rightarrow> bool" where
  "bv_bit s x \<longleftrightarrow> bit (pbitvec s ! (x div 64)) (x mod 64)"

definition bv_elems :: "BitVectorSet \<Rightarrow> nat set" where
  "bv_elems s = {x. x < 64 * length (pbitvec s) \<and> bv_bit s x}"

definition bv_inv :: "BitVectorSet \<Rightarrow> bool" where
  "bv_inv s \<longleftrightarrow> - 1 \<le> maxMember s \<and> maxMember s < 65536 \<and>
     length (pbitvec s) = nat ((maxMember s + 64) div 64) \<and> (\<forall>x \<in> bv_elems s. int x \<le> maxMember s)"

lemma and_bit_zero: "(w AND 2 ^ n = (0 :: 64 word)) \<longleftrightarrow> \<not> (n < 64 \<and> bit w n)"
proof -
  have "bit (w AND 2 ^ n) m \<longleftrightarrow> m = n \<and> n < 64 \<and> bit w n" for m
    by (auto simp: bit_and_iff bit_exp_iff)
  then show ?thesis by (metis bit_0_eq bot_apply bot_bool_def bit_eqI)
qed

lemma walk_bits_spec:
  "w \<le> 64 \<Longrightarrow> w \<le> walk_bits bits b w \<and> walk_bits bits b w \<le> 64 \<and>
   (\<forall>v. w \<le> v \<longrightarrow> v < walk_bits bits b w \<longrightarrow> bit bits v \<noteq> b) \<and>
   (walk_bits bits b w < 64 \<longrightarrow> bit bits (walk_bits bits b w) = b)"
proof (induction bits b w rule: walk_bits.induct)
  case (1 bits b w)
  show ?case
  proof (cases "w < 64 \<and> bit bits w \<noteq> b")
    case True
    then have c: "w < BITS_PER_LONG \<and> ((bits AND push_bit w 1 = 0) = b)"
      by (auto simp: BITS_PER_LONG_def and_bit_zero)
    have w: "walk_bits bits b w = walk_bits bits b (w + 1)" by (subst walk_bits.simps) (simp only: c if_True simp_thms)
    have IH: "w + 1 \<le> walk_bits bits b (w + 1) \<and> walk_bits bits b (w + 1) \<le> 64 \<and>
        (\<forall>v. w + 1 \<le> v \<longrightarrow> v < walk_bits bits b (w + 1) \<longrightarrow> bit bits v \<noteq> b) \<and>
        (walk_bits bits b (w + 1) < 64 \<longrightarrow> bit bits (walk_bits bits b (w + 1)) = b)"
      using "1.IH" [OF c] True by simp
    have "bit bits v \<noteq> b" if "w \<le> v" "v < walk_bits bits b (w + 1)" for v
      using IH True that by (cases "v = w") auto
    with IH show ?thesis unfolding w by simp
  next
    case False
    then have c: "\<not> (w < BITS_PER_LONG \<and> ((bits AND push_bit w 1 = 0) = b))"
      by (auto simp: BITS_PER_LONG_def and_bit_zero)
    have "walk_bits bits b w = w" by (subst walk_bits.simps) (simp only: c if_False)
    with False "1.prems" show ?thesis by auto
  qed
qed

lemma long_in_range:
  assumes "bv_inv s" shows "int (i * 64) \<le> maxMember s \<longleftrightarrow> i < length (pbitvec s)"
proof -
  have "length (pbitvec s) = nat ((maxMember s + 64) div 64)" "- 1 \<le> maxMember s"
    using assms by (simp_all add: bv_inv_def)
  then show ?thesis by linarith
qed

lemma skip_longs_spec:
  "bv_inv s \<Longrightarrow> i \<le> skip_longs s sk i \<and>
   (\<forall>k. i \<le> k \<longrightarrow> k < skip_longs s sk i \<longrightarrow> k < length (pbitvec s) \<and> pbitvec s ! k = sk) \<and>
   (skip_longs s sk i < length (pbitvec s) \<longrightarrow> pbitvec s ! skip_longs s sk i \<noteq> sk)"
proof (induction s sk i rule: skip_longs.induct)
  case (1 s sk i)
  note range = long_in_range [OF "1.prems"]
  show ?case
  proof (cases "i < length (pbitvec s) \<and> pbitvec s ! i = sk")
    case True
    then have c: "int (i * BITS_PER_LONG) \<le> maxMember s \<and> pbitvec s ! i = sk"
      by (simp only: BITS_PER_LONG_def range simp_thms)
    have w: "skip_longs s sk i = skip_longs s sk (i + 1)" by (subst skip_longs.simps) (simp only: c if_True simp_thms)
    note IH = "1.IH" [OF c "1.prems"]
    have "k < length (pbitvec s) \<and> pbitvec s ! k = sk" if "i \<le> k" "k < skip_longs s sk (i + 1)" for k
      using IH True that by (cases "k = i") auto
    with IH show ?thesis unfolding w by simp
  next
    case False
    then have c: "\<not> (int (i * BITS_PER_LONG) \<le> maxMember s \<and> pbitvec s ! i = sk)"
      by (simp only: BITS_PER_LONG_def range simp_thms)
    have "skip_longs s sk i = i" by (subst skip_longs.simps) (simp only: c if_False)
    with False show ?thesis by auto
  qed
qed

lemma useful_bits:
  assumes "st < 64"
  shows "(bits AND NOT (push_bit st 1 - 1) = (if b then 0 else NOT 0) AND NOT (push_bit st (1 :: 64 word) - 1)) \<longleftrightarrow>
    (\<forall>w. st \<le> w \<longrightarrow> w < 64 \<longrightarrow> bit bits w \<noteq> b)"
proof -
  have m: "push_bit st (1 :: 64 word) - 1 = mask st" by (simp add: mask_eq_exp_minus_1)
  have l: "bit (bits AND NOT (mask st)) w \<longleftrightarrow> w < 64 \<and> bit bits w \<and> st \<le> w" for w
    by (auto simp: bit_and_iff bit_not_iff bit_mask_iff dest: bit_imp_le_length)
  have r: "bit ((if b then 0 else NOT 0) AND NOT (mask st) :: 64 word) w \<longleftrightarrow> w < 64 \<and> \<not> b \<and> st \<le> w" for w
    by (auto simp: bit_and_iff bit_not_iff bit_mask_iff)
  have "(bits AND NOT (mask st) = (if b then 0 else NOT 0) AND NOT (mask st)) \<longleftrightarrow>
      (\<forall>w. (w < 64 \<and> bit bits w \<and> st \<le> w) \<longleftrightarrow> (w < 64 \<and> \<not> b \<and> st \<le> w))"
    unfolding bit_eq_iff l r by (auto simp: possible_bit_def)
  also have "\<dots> \<longleftrightarrow> (\<forall>w. st \<le> w \<longrightarrow> w < 64 \<longrightarrow> bit bits w \<noteq> b)" by blast
  finally show ?thesis unfolding m .
qed

lemma bv_bit_in_long: "x div 64 = k \<Longrightarrow> bv_bit s x \<longleftrightarrow> bit (pbitvec s ! k) (x - 64 * k)"
  by (auto simp: bv_bit_def minus_mult_div_eq_mod [symmetric])

lemma BitVectorFindBit_spec:
  assumes "bv_inv s"
  defines "N \<equiv> 64 * length (pbitvec s)"
  shows "(BitVectorFindBit s it b = - 1 \<and> (\<forall>x. it \<le> x \<longrightarrow> x < N \<longrightarrow> bv_bit s x \<noteq> b)) \<or>
    (\<exists>k. BitVectorFindBit s it b = int k \<and> it \<le> k \<and> k < N \<and> bv_bit s k = b \<and>
       (\<forall>x. it \<le> x \<longrightarrow> x < k \<longrightarrow> bv_bit s x \<noteq> b))"
proof -
  let ?sl = "it div 64" and ?o = "it - it div 64 * 64"
  let ?sk = "if b then 0 else NOT (0 :: 64 word)"
  note range = long_in_range [OF assms(1)]
  have off: "?o < 64" by (simp add: minus_div_mult_eq_mod)
  have it: "it = ?sl * 64 + ?o" by simp
  have long: "x div 64 = k \<Longrightarrow> 64 * k \<le> x \<and> x < 64 * k + 64" for x k :: nat by auto
  define skip where "skip \<longleftrightarrow> pbitvec s ! ?sl AND NOT (push_bit ?o 1 - 1) = ?sk AND NOT (push_bit ?o 1 - 1)"
  define l where "l = (if skip then skip_longs s ?sk (?sl + 1) else ?sl)"
  define w where "w = (if l * 64 < it then it - l * 64 else 0)"
  have F: "BitVectorFindBit s it b =
      (if \<not> ?sl < length (pbitvec s) \<or> skip \<and> \<not> l < length (pbitvec s) then - 1
       else int (l * 64 + walk_bits (pbitvec s ! l) b w))"
    unfolding BitVectorFindBit_def Let_def BITS_PER_LONG_def skip_def [symmetric] l_def [symmetric] w_def [symmetric]
      range [symmetric] by auto
  have skipped: "bv_bit s x \<noteq> b" if "skip" "it \<le> x" "x < l * 64" "x < N" for x
  proof (cases "x div 64 = ?sl")
    case True
    with useful_bits [OF off, of "pbitvec s ! ?sl" b] \<open>skip\<close> that(2) off long [OF True] show ?thesis
      unfolding skip_def by (auto simp: bv_bit_in_long [OF True])
  next
    case False
    with that(2) have "?sl + 1 \<le> x div 64" using div_le_mono [of it x 64] by auto
    moreover have "x div 64 < skip_longs s ?sk (?sl + 1)" using that(1,3) by (simp add: l_def)
    ultimately have "pbitvec s ! (x div 64) = ?sk" using skip_longs_spec [OF assms(1)] by blast
    then show ?thesis by (auto simp: bv_bit_def bit_not_iff)
  qed
  show ?thesis
  proof (cases "\<not> ?sl < length (pbitvec s) \<or> skip \<and> \<not> l < length (pbitvec s)")
    case True
    have "bv_bit s x \<noteq> b" if "it \<le> x" "x < N" for x
    proof -
      have "?sl \<le> x div 64" "x div 64 < length (pbitvec s)"
        using that div_le_mono [of it x 64] by (auto simp: N_def)
      with True have "skip" "x < l * 64" using long [of x "x div 64"] by auto
      with skipped that show ?thesis by blast
    qed
    with True F show ?thesis by simp
  next
    case False
    have ll: "l < length (pbitvec s)" using False by (auto simp: l_def)
    have sl: "?sl \<le> l" using skip_longs_spec [OF assms(1), of "?sl + 1" ?sk] by (auto simp: l_def)
    have w64: "w < 64" using sl off it by (auto simp: w_def)
    have ex: "\<exists>v. w \<le> v \<and> v < 64 \<and> bit (pbitvec s ! l) v = b"
    proof (cases skip)
      case True
      then have "l \<noteq> ?sl" using skip_longs_spec [OF assms(1), of "?sl + 1" ?sk] by (auto simp: l_def)
      with sl off it have "w = 0" by (auto simp: w_def)
      have "pbitvec s ! l \<noteq> ?sk" using skip_longs_spec [OF assms(1), of "?sl + 1" ?sk] ll True by (simp add: l_def)
      moreover have "pbitvec s ! l = ?sk" if "\<forall>v < 64. bit (pbitvec s ! l) v = bit ?sk v"
        by (rule bit_word_eqI) (use that in simp)
      ultimately obtain v where "v < 64" "bit (pbitvec s ! l) v \<noteq> bit ?sk v" by blast
      with \<open>w = 0\<close> show ?thesis by (auto simp: bit_not_iff split: if_splits)
    next
      case no: False
      then have "l = ?sl" by (simp add: l_def)
      then have "w = ?o" using off it by (auto simp: w_def)
      with no useful_bits [OF off, of "pbitvec s ! ?sl" b] \<open>l = ?sl\<close> show ?thesis
        unfolding skip_def by auto
    qed
    let ?r = "walk_bits (pbitvec s ! l) b w"
    note W = walk_bits_spec [OF less_imp_le [OF w64], of "pbitvec s ! l" b]
    have "?r < 64"
    proof (rule ccontr)
      assume no: "\<not> ?r < 64"
      obtain v where "w \<le> v" "v < 64" "bit (pbitvec s ! l) v = b" using ex by blast
      with no W show False by auto
    qed
    with W have r: "w \<le> ?r" "\<forall>v. w \<le> v \<longrightarrow> v < ?r \<longrightarrow> bit (pbitvec s ! l) v \<noteq> b" "?r < 64" "bit (pbitvec s ! l) ?r = b"
      by blast+
    let ?k = "l * 64 + ?r"
    have kd: "?k div 64 = l" using r(3) by simp
    have "bv_bit s ?k = b" using r(4) bv_bit_in_long [OF kd] by simp
    moreover have "it \<le> ?k" using r(1) by (auto simp: w_def split: if_splits)
    moreover have "?k < N" using ll r(3) by (simp add: N_def)
    moreover have "bv_bit s x \<noteq> b" if "it \<le> x" "x < ?k" for x
    proof (cases "x < l * 64")
      case True
      then have "x < N" using ll by (simp add: N_def)
      moreover have skip using True that(1) it sl by (cases skip) (auto simp: l_def)
      ultimately show ?thesis using skipped True that(1) by blast
    next
      case False
      then have d: "x div 64 = l" using that(2) r(3) by auto
      have "w \<le> x - 64 * l" using that(1) by (auto simp: w_def)
      moreover have "x - 64 * l < ?r" using that(2) False by simp
      ultimately show ?thesis using r(2) bv_bit_in_long [OF d] by blast
    qed
    moreover have "BitVectorFindBit s it b = int ?k" using F False by simp
    ultimately show ?thesis by blast
  qed
qed

interpretation bit_set: record_set bv_inv bv_elems BitVectorIsMemberOfSet BitVectorIterateSet "\<lambda>_ _. True" "\<lambda>_ it. it"
proof unfold_locales
  fix s x assume "bv_inv s" "x \<in> bv_elems s"
  then show "x < 65536" by (force simp: bv_inv_def)
next
  fix s x assume inv: "bv_inv s"
  show "BitVectorIsMemberOfSet s x \<noteq> 0 \<longleftrightarrow> x \<in> bv_elems s"
  proof (cases "int x > maxMember s")
    case True
    with inv show ?thesis by (auto simp: BitVectorIsMemberOfSet_def bv_inv_def)
  next
    case False
    then have "int (x div 64 * 64) \<le> maxMember s" using div_times_less_eq_dividend [of x 64] by linarith
    then have "x div 64 < length (pbitvec s)" using long_in_range [OF inv] by simp
    then have "x < 64 * length (pbitvec s)" by linarith
    with False show ?thesis
      by (auto simp: BitVectorIsMemberOfSet_def bv_elems_def bv_bit_def BITS_PER_LONG_def and_bit_zero)
  qed
next
  fix s x it
  assume a: "bv_inv s" "BitVectorIterateSet s it = None" "x \<in> bv_elems s"
  then have "BitVectorFindBit s it True = - 1"
    by (auto simp: BitVectorIterateSet_def Let_def split: if_splits)
  with BitVectorFindBit_spec [OF a(1), of it True]
  have "\<forall>x. it \<le> x \<longrightarrow> x < 64 * length (pbitvec s) \<longrightarrow> \<not> bv_bit s x" by auto
  with a(3) show "x < it" by (auto simp: bv_elems_def not_le [symmetric])
next
  fix s it it' v
  assume a: "bv_inv s" "BitVectorIterateSet s it = Some (it', v)"
  let ?N = "64 * length (pbitvec s)"
  from a(2) have "BitVectorFindBit s it True \<noteq> - 1" by (auto simp: BitVectorIterateSet_def Let_def)
  with BitVectorFindBit_spec [OF a(1), of it True] obtain f where f: "BitVectorFindBit s it True = int f"
    "it \<le> f" "f < ?N" "bv_bit s f" "\<forall>x. it \<le> x \<longrightarrow> x < f \<longrightarrow> \<not> bv_bit s x" by auto
  have elem: "x \<in> bv_elems s \<Longrightarrow> int x \<le> maxMember s" for x using a(1) by (simp add: bv_inv_def)
  have fm: "int f \<le> maxMember s" using elem f(3,4) by (simp add: bv_elems_def)
  define e where "e = BitVectorFindBit s f False"
  define l where "l = nat (if e < 0 then maxMember s else e - 1)"
  have l: "f \<le> l" "int l = (if e < 0 then maxMember s else e - 1)" "{f..l} \<subseteq> bv_elems s" "l + 1 \<notin> bv_elems s"
    "int l \<le> maxMember s"
  proof -
    consider "e = - 1" "\<forall>x. f \<le> x \<longrightarrow> x < ?N \<longrightarrow> bv_bit s x"
      | k where "e = int k" "f \<le> k" "k < ?N" "\<not> bv_bit s k" "\<forall>x. f \<le> x \<longrightarrow> x < k \<longrightarrow> bv_bit s x"
      using BitVectorFindBit_spec [OF a(1), of f False] by (auto simp: e_def)
    then have "f \<le> l \<and> int l = (if e < 0 then maxMember s else e - 1) \<and> {f..l} \<subseteq> bv_elems s \<and>
        l + 1 \<notin> bv_elems s \<and> int l \<le> maxMember s"
    proof cases
      case 1
      have l: "int l = maxMember s" using 1(1) fm by (simp add: l_def)
      have "x < ?N" if "x \<le> l" for x
      proof -
        have "int (x div 64 * 64) \<le> maxMember s"
          using that l div_times_less_eq_dividend [of x 64] by linarith
        then have "x div 64 < length (pbitvec s)" using long_in_range [OF a(1)] by simp
        then show ?thesis by linarith
      qed
      with 1 l fm elem [of "l + 1"] show ?thesis by (force simp: bv_elems_def)
    next
      case (2 k)
      then have k: "f < k" using f(4) by (metis le_neq_implies_less)
      then have l: "l + 1 = k" using 2(1) by (simp add: l_def)
      have "{f..l} \<subseteq> bv_elems s" using 2 l by (auto simp: bv_elems_def)
      moreover from this have "l \<in> bv_elems s" using k l by auto
      ultimately show ?thesis using 2 l k elem [of l] by (auto simp: bv_elems_def)
    qed
    then show "f \<le> l" "int l = (if e < 0 then maxMember s else e - 1)" "{f..l} \<subseteq> bv_elems s"
      "l + 1 \<notin> bv_elems s" "int l \<le> maxMember s" by auto
  qed
  have small: "l < 65536" "f < 65536" using l(1,5) a(1) by (auto simp: bv_inv_def)
  have v: "it' = l + 1" "v = \<lparr>first = word_of_nat f, last_member = word_of_nat l\<rparr>"
    using a(2) unfolding BitVectorIterateSet_def Let_def f(1) nat_int e_def [symmetric] l(2) [symmetric]
    by (auto split: if_splits)
  have u: "unat (first v) = f" "unat (last_member v) = l" using small by (simp_all add: v unat_of_nat)
  have "\<forall>x \<in> bv_elems s. it \<le> x \<longrightarrow> f \<le> x" using f(5) by (force simp: bv_elems_def)
  with l f(2) show "True \<and> it' = unat (last_member v) + 1 \<and> it \<le> unat (first v) \<and>
      first v \<le> last_member v \<and> {unat (first v)..unat (last_member v)} \<subseteq> bv_elems s \<and>
      (\<forall>x \<in> bv_elems s. it \<le> x \<longrightarrow> unat (first v) \<le> x) \<and> unat (last_member v) + 1 \<notin> bv_elems s"
    by (simp add: u v(1) word_le_nat_alt [of "first v"])
qed simp

text \<open>The construction of the vector.\<close>

lemma max_member_from:
  "m \<le> max_member_from m vs \<and> (\<forall>v \<in> set vs. uint (last_member v) \<le> max_member_from m vs) \<and>
   (max_member_from m vs = m \<or> (\<exists>v \<in> set vs. max_member_from m vs = uint (last_member v)))"
proof (induction vs arbitrary: m)
  case (Cons v vs)
  from Cons.IH [of "if m < uint (last_member v) then uint (last_member v) else m"] show ?case
    by (auto split: if_splits)
qed simp

lemma set_bit_at:
  assumes "j < 64 * length vec"
  shows "length (set_bit_at j vec) = length vec \<and>
    (\<forall>x < 64 * length vec. bit (set_bit_at j vec ! (x div 64)) (x mod 64) \<longleftrightarrow>
       x = j \<or> bit (vec ! (x div 64)) (x mod 64))"
proof -
  have jl: "j div 64 < length vec" using assms by auto
  have "bit (set_bit_at j vec ! (x div 64)) (x mod 64) \<longleftrightarrow> x = j \<or> bit (vec ! (x div 64)) (x mod 64)" for x
  proof (cases "x div 64 = j div 64")
    case True
    then have "x mod 64 = j mod 64 \<longleftrightarrow> x = j" by (metis div_mult_mod_eq)
    moreover have "bit ((2 :: 64 word) ^ (j mod 64)) (x mod 64) \<longleftrightarrow> x mod 64 = j mod 64"
      by (auto simp: bit_exp_iff)
    ultimately show ?thesis using jl True by (auto simp: set_bit_at_def BITS_PER_LONG_def bit_or_iff)
  next
    case False
    then show ?thesis by (auto simp: set_bit_at_def BITS_PER_LONG_def)
  qed
  then show ?thesis by (simp add: set_bit_at_def)
qed

lemma fold_set_bit_at:
  "\<forall>j \<in> set js. j < 64 * length vec \<Longrightarrow> length (fold set_bit_at js vec) = length vec \<and>
   (\<forall>x < 64 * length vec. bit (fold set_bit_at js vec ! (x div 64)) (x mod 64) \<longleftrightarrow>
      x \<in> set js \<or> bit (vec ! (x div 64)) (x mod 64))"
proof (induction js arbitrary: vec)
  case (Cons j js)
  note one = set_bit_at [of j vec]
  have "\<forall>i \<in> set js. i < 64 * length (set_bit_at j vec)" using Cons.prems one by simp
  from Cons.IH [OF this] one Cons.prems show ?case by auto
qed simp

lemma fold_intervals:
  "\<forall>v \<in> set vs. unat (last_member v) < 64 * length vec \<Longrightarrow>
   length (fold (\<lambda>v. fold set_bit_at [unat (first v) ..< unat (last_member v) + 1]) vs vec) = length vec \<and>
   (\<forall>x < 64 * length vec.
      bit (fold (\<lambda>v. fold set_bit_at [unat (first v) ..< unat (last_member v) + 1]) vs vec ! (x div 64)) (x mod 64) \<longleftrightarrow>
      x \<in> members vs \<or> bit (vec ! (x div 64)) (x mod 64))"
proof (induction vs arbitrary: vec)
  case (Cons v vs)
  let ?js = "[unat (first v) ..< unat (last_member v) + 1]"
  have js: "\<forall>j \<in> set ?js. j < 64 * length vec" using Cons.prems by auto
  note one = fold_set_bit_at [OF js]
  have "\<forall>u \<in> set vs. unat (last_member u) < 64 * length (fold set_bit_at ?js vec)"
    using Cons.prems one by simp
  from Cons.IH [OF this] one show ?case by (auto simp: in_interval_def simp del: upt_Suc)
qed simp

lemma BitVectorCreateSet_correct:
  assumes "BitVectorCreateSet ok vs (BitVectorSetMemoryRequirements (maxMemberInInterval vs)) = Some s"
  shows "bv_inv s \<and> bv_elems s = members vs"
proof -
  let ?m = "maxMemberInInterval vs" and ?n = "nat ((maxMemberInInterval vs + 64) div 64)"
  let ?vec = "fold (\<lambda>v. fold set_bit_at [unat (first v) ..< unat (last_member v) + 1]) vs (replicate ?n 0)"
  have s: "s = \<lparr>maxMember = ?m, pbitvec = ?vec\<rparr>"
    using assms by (auto simp: BitVectorCreateSet_def BitVectorSetMemoryRequirements_def BITS_PER_LONG_def
        simp del: upt_Suc split: if_splits)
  have m: "- 1 \<le> ?m" "\<forall>v \<in> set vs. uint (last_member v) \<le> ?m" "?m < 65536"
    using max_member_from [of "- 1" vs] uint_bounded [of "last_member _"]
    by (auto simp: maxMemberInInterval_def)
  have "\<forall>v \<in> set vs. unat (last_member v) < 64 * length (replicate ?n (0 :: 64 word))"
  proof
    fix v assume "v \<in> set vs"
    then have "int (unat (last_member v)) \<le> ?m" using m(2) by simp
    then show "unat (last_member v) < 64 * length (replicate ?n (0 :: 64 word))"
      unfolding length_replicate by linarith
  qed
  note F = fold_intervals [OF this]
  have le: "int x \<le> ?m" if "x \<in> members vs" for x
  proof -
    from that obtain v where "v \<in> set vs" "x \<le> unat (last_member v)"
      by (auto simp: members_def in_interval_def)
    moreover from this m(2) have "int (unat (last_member v)) \<le> ?m" by simp
    ultimately show ?thesis by linarith
  qed
  have "x < 64 * ?n" if "x \<in> members vs" for x using le [OF that] by linarith
  then have e: "bv_elems s = members vs"
    using F by (auto simp: bv_elems_def bv_bit_def s simp del: upt_Suc)
  then show ?thesis using F m le by (simp add: bv_inv_def s del: upt_Suc)
qed

subsection \<open>The table of operations\<close>

fun set_inv :: "RecordSet \<Rightarrow> bool" where
  "set_inv (BitVector s) = bv_inv s"
| "set_inv (IntervalList s) = list_inv s"

fun set_elems :: "RecordSet \<Rightarrow> nat set" where
  "set_elems (BitVector s) = bv_elems s"
| "set_elems (IntervalList s) = members s"

fun set_valid :: "RecordSet \<Rightarrow> nat \<Rightarrow> bool" where
  "set_valid (BitVector s) it = True"
| "set_valid (IntervalList s) it = (it \<le> length s)"

fun set_bound :: "RecordSet \<Rightarrow> nat \<Rightarrow> nat" where
  "set_bound (BitVector s) it = it"
| "set_bound (IntervalList s) it = list_bound s it"

interpretation any_set: record_set set_inv set_elems RecordIsMemberOfSet RecordIterateSet set_valid set_bound
proof unfold_locales
  fix s x assume "set_inv s" "x \<in> set_elems s"
  then show "x < 65536" using bit_set.elems_bound list_set.elems_bound by (cases s) auto
next
  fix s x assume "set_inv s"
  then show "RecordIsMemberOfSet s x \<noteq> 0 \<longleftrightarrow> x \<in> set_elems s"
    using bit_set.member_elems list_set.member_elems by (cases s) auto
next
  fix s assume "set_inv s"
  then show "set_valid s 0 \<and> set_bound s 0 = 0"
    using bit_set.start list_set.start by (cases s) auto
next
  fix s x it assume "set_inv s" "set_valid s it" "RecordIterateSet s it = None" "x \<in> set_elems s"
  then show "x < set_bound s it"
    using bit_set.iterate_None list_set.iterate_None by (cases s) auto
next
  fix s it it' v assume "set_inv s" "set_valid s it" "RecordIterateSet s it = Some (it', v)"
  then show "set_valid s it' \<and> set_bound s it' = unat (last_member v) + 1 \<and> set_bound s it \<le> unat (first v) \<and>
      first v \<le> last_member v \<and> {unat (first v)..unat (last_member v)} \<subseteq> set_elems s \<and>
      (\<forall>x \<in> set_elems s. set_bound s it \<le> x \<longrightarrow> unat (first v) \<le> x) \<and>
      unat (last_member v) + 1 \<notin> set_elems s"
  proof (cases s)
    case (BitVector t)
    with \<open>set_inv s\<close> \<open>RecordIterateSet s it = Some (it', v)\<close> bit_set.iterate_Some [of t it it' v]
    show ?thesis by simp
  next
    case (IntervalList t)
    with \<open>set_inv s\<close> \<open>set_valid s it\<close> \<open>RecordIterateSet s it = Some (it', v)\<close> list_set.iterate_Some [of t it it' v]
    show ?thesis by simp
  qed
qed

lemma RecordCreateSet_inv:
  assumes "intervals_ok vs" "RecordCreateSet stack_ok alloc_ok vs mem = Some s"
  shows "set_inv s \<and> set_elems s = members vs"
proof -
  obtain sz bits where c: "choose_set vs = (sz, bits)" by fastforce
  have sz: "bits \<Longrightarrow> sz = BitVectorSetMemoryRequirements (maxMemberInInterval vs)"
    using c by (auto simp: choose_set_def Let_def split: if_splits)
  from assms(2) consider ok t where "bits" "BitVectorCreateSet ok vs sz = Some t" "s = BitVector t"
    | ok t where "IntervalListCreateSet stack_ok ok vs = Some t" "s = IntervalList t"
    by (auto simp: RecordCreateSet_def c Let_def split: if_splits option.splits)
  then show ?thesis
    using BitVectorCreateSet_correct IntervalListCreateSet_correct [OF assms(1)] sz by cases auto
qed

text \<open>
  C24. Whatever representation is chosen and whoever provides the memory, a set created from
  intervals has exactly their numbers as members, and the loop over \<open>RecordIterateSet\<close> ends and
  delivers exactly the maximal runs of the set in increasing order.
\<close>

theorem RecordCreateSet_correct:
  assumes "intervals_ok vs" "RecordCreateSet stack_ok alloc_ok vs mem = Some s"
  shows "(\<forall>x. RecordIsMemberOfSet s x \<noteq> 0 \<longleftrightarrow> x \<in> members vs) \<and>
    (\<exists>ws. collect 65537 (RecordIterateSet s) 0 = Some ws \<and> runs 0 (members vs) ws)"
  using RecordCreateSet_inv [OF assms] any_set.member_elems [of s] any_set.loop_enumerates [of s] by auto

definition intervals_example :: "RecordSetInterval list" where
  "intervals_example = [\<lparr>first = 33, last_member = 34\<rparr>, \<lparr>first = 2, last_member = 5\<rparr>, \<lparr>first = 4, last_member = 6\<rparr>]"

lemma intervals_example_ok: "intervals_ok intervals_example"
  by (simp add: intervals_example_def intervals_ok_def)

theorem RecordCreateSet_correct_witness:
  "\<exists>s ws. RecordCreateSet True True intervals_example None = Some s \<and>
    RecordIsMemberOfSet s 5 \<noteq> 0 \<and> RecordIsMemberOfSet s 7 = 0 \<and>
    collect 65537 (RecordIterateSet s) 0 = Some ws \<and> runs 0 (members intervals_example) ws"
proof -
  obtain s where s: "RecordCreateSet True True intervals_example None = Some s"
    by (cases "snd (choose_set intervals_example)")
      (auto simp: RecordCreateSet_def BitVectorCreateSet_def IntervalListCreateSet_def case_prod_beta Let_def)
  have "5 \<in> members intervals_example" "7 \<notin> members intervals_example"
    by (simp_all add: intervals_example_def in_interval_def)
  with RecordCreateSet_correct [OF intervals_example_ok s] s show ?thesis by metis
qed

text \<open>
  The two representations are interchangeable: built from the same intervals they answer every membership
  question alike and the loop over either delivers the same intervals.
\<close>

theorem representations_agree:
  assumes "intervals_ok vs" "IntervalListCreateSet True True vs = Some l"
    "BitVectorCreateSet True vs (BitVectorSetMemoryRequirements (maxMemberInInterval vs)) = Some b"
  shows "(\<forall>x. BitVectorIsMemberOfSet b x \<noteq> 0 \<longleftrightarrow> IntervalListIsMemberOfSet l x \<noteq> 0) \<and>
    (\<exists>ws. collect 65537 (BitVectorIterateSet b) 0 = Some ws \<and> collect 65537 (IntervalListIterateSet l) 0 = Some ws)"
proof -
  note b = BitVectorCreateSet_correct [OF assms(3)] and l = IntervalListCreateSet_correct [OF assms(1,2)]
  obtain ws where "collect 65537 (BitVectorIterateSet b) 0 = Some ws" "runs 0 (members vs) ws"
    using bit_set.loop_enumerates [of b] b by auto
  moreover obtain us where "collect 65537 (IntervalListIterateSet l) 0 = Some us" "runs 0 (members vs) us"
    using list_set.loop_enumerates [of l] l by auto
  ultimately show ?thesis
    using runs_unique [of 0 "members vs" ws us] bit_set.member_elems [of b] list_set.member_elems [of l] b l by auto
qed

theorem representations_agree_witness:
  "\<exists>l b ws. IntervalListCreateSet True True intervals_example = Some l \<and>
    collect 65537 (BitVectorIterateSet b) 0 = Some ws \<and> collect 65537 (IntervalListIterateSet l) 0 = Some ws"
proof -
  obtain l b where "IntervalListCreateSet True True intervals_example = Some l"
    "BitVectorCreateSet True intervals_example
      (BitVectorSetMemoryRequirements (maxMemberInInterval intervals_example)) = Some b"
    by (simp add: IntervalListCreateSet_def BitVectorCreateSet_def)
  with representations_agree [OF intervals_example_ok this] show ?thesis by blast
qed

text \<open>
  \<open>RecordADeliveredEventOrError\<close> keeps the answer of the membership test in an \<open>int\<close>. For a bit vector of 64-bit longs
  the answer is the bit of the member in its long, so every member in the upper half of a long
  is lost and is not recorded.
\<close>

theorem recordit_loses_members:
  assumes "32 \<le> x mod 64"
  shows "recordit (BitVector s) x = 0"
proof (cases "int x > maxMember s")
  case True
  then show ?thesis by (simp add: recordit_def BitVectorIsMemberOfSet_def)
next
  case False
  have "\<not> bit (ucast (pbitvec s ! (x div 64) AND 2 ^ (x mod 64)) :: 32 word) n" if "n < 32" for n
    using that assms by (auto simp: bit_ucast_iff bit_and_iff bit_exp_iff)
  then have "(ucast (pbitvec s ! (x div 64) AND 2 ^ (x mod 64)) :: 32 word) = 0"
    by (intro bit_word_eqI) simp
  with False show ?thesis by (simp add: recordit_def BitVectorIsMemberOfSet_def BITS_PER_LONG_def)
qed

theorem recordit_loses_members_witness:
  "\<exists>s. RecordCreateSet True True intervals_example None = Some (BitVector s) \<and>
    34 \<in> members intervals_example \<and> recordit (BitVector s) 34 = 0"
proof -
  have "snd (choose_set intervals_example)"
    by (simp add: choose_set_def intervals_example_def maxMemberInInterval_def)
  then obtain s where "RecordCreateSet True True intervals_example None = Some (BitVector s)"
    by (cases "choose_set intervals_example") (auto simp: RecordCreateSet_def BitVectorCreateSet_def)
  moreover have "34 \<in> members intervals_example"
    by (simp add: intervals_example_def in_interval_def)
  moreover have "recordit (BitVector s) 34 = 0" by (rule recordit_loses_members) simp
  ultimately show ?thesis by blast
qed

end
