(* ===== verification/EventQueue.thy ===== *)
theory EventQueue
  imports Prelude "HOL-Library.Sublist"
begin

text \<open>
  The input event queue, \<^verbatim>\<open>programs/Xserver/mi/mieq.c\<close>: a ring buffer that signal handlers fill
  (\<open>mieqEnqueue\<close>) while the main loop empties it (\<open>mieqProcessInputEvents\<close>). The consumer is a
  machine of small steps, one for the test of the loop, one for looking at an event, one for
  advancing the head and one for the call; the producer may run between any two of them.
\<close>

subsection \<open>State\<close>

datatype event_type = KeyPress | KeyRelease | ButtonPress | ButtonRelease | MotionNotify | OtherEvent

record xEvent =
  etype :: event_type
  detail :: nat
  event_time :: CARD32
  rootX :: int
  rootY :: int

record EventRec =
  event :: xEvent
  pScreen :: nat

definition QUEUE_SIZE :: nat where "QUEUE_SIZE = 256"

text \<open>What the consumer does to the rest of the server, and where in the loop it is.\<close>

datatype action =
    SaveScreensOff
  | NewCurrentScreen nat int int
  | KeyboardInput xEvent
  | PointerInput xEvent

datatype position =
    Outside
  | Test
  | Examine
  | AdvanceSwitch int int
  | AdvanceDispatch xEvent
  | Switch int int
  | Dispatch xEvent

record EventQueueRec =
  head :: nat
  tail :: nat
  lastEventTime :: CARD32
  lastMotion :: bool
  events :: "EventRec list"
  pEnqueueScreen :: nat
  pDequeueScreen :: nat
  screenIsSaved :: bool
  position :: position
  actions :: "action list"

subsection \<open>The producer\<close>

definition mieqInit :: "CARD32 \<Rightarrow> nat \<Rightarrow> EventQueueRec \<Rightarrow> EventQueueRec" where
  "mieqInit now screen0 q =
     q\<lparr>head := 0, tail := 0, lastEventTime := now, lastMotion := False,
       pEnqueueScreen := screen0, pDequeueScreen := screen0\<rparr>"

text \<open>The time of an event a little earlier than the reference time is replaced by it.\<close>

definition stamp :: "EventQueueRec \<Rightarrow> xEvent \<Rightarrow> xEvent" where
  "stamp q e =
     (if event_time e < lastEventTime q \<and> lastEventTime q - event_time e < 10000
      then e\<lparr>event_time := lastEventTime q\<rparr> else e)"

definition store_event :: "nat \<Rightarrow> xEvent \<Rightarrow> EventQueueRec \<Rightarrow> EventQueueRec" where
  "store_event i e q =
     q\<lparr>lastMotion := (etype e = MotionNotify),
       events := (events q)[i := \<lparr>event = stamp q e, pScreen = pEnqueueScreen q\<rparr>]\<rparr>"

definition mieqEnqueue :: "xEvent \<Rightarrow> EventQueueRec \<Rightarrow> EventQueueRec" where
  "mieqEnqueue e q =
     (let oldtail = tail q; isMotion = (etype e = MotionNotify)
      in if isMotion \<and> lastMotion q \<and> oldtail \<noteq> head q
         then store_event ((if oldtail = 0 then QUEUE_SIZE else oldtail) - 1) e q
         else
           (let newtail = (if oldtail + 1 = QUEUE_SIZE then 0 else oldtail + 1)
            in if newtail = head q then q
               else store_event oldtail e (q\<lparr>tail := newtail\<rparr>)))"

definition mieqSwitchScreen :: "nat \<Rightarrow> bool \<Rightarrow> EventQueueRec \<Rightarrow> EventQueueRec" where
  "mieqSwitchScreen screen fromDIX q =
     (let q' = q\<lparr>pEnqueueScreen := screen\<rparr>
      in if fromDIX then q'\<lparr>pDequeueScreen := screen\<rparr> else q')"

subsection \<open>The consumer\<close>

definition act :: "action \<Rightarrow> EventQueueRec \<Rightarrow> EventQueueRec" where
  "act a q = q\<lparr>actions := actions q @ [a]\<rparr>"

definition advance :: "EventQueueRec \<Rightarrow> EventQueueRec" where
  "advance q = q\<lparr>head := (if head q = QUEUE_SIZE - 1 then 0 else head q + 1)\<rparr>"

definition input :: "xEvent \<Rightarrow> action" where
  "input xe = (if etype xe = KeyPress \<or> etype xe = KeyRelease then KeyboardInput xe else PointerInput xe)"

text \<open>
  One step of \<open>mieqProcessInputEvents\<close>. \<open>SaveScreens\<close> (\<^verbatim>\<open>dix/window.c\<close>) clears the flag it is
  guarded by.
\<close>

definition process_step :: "EventQueueRec \<Rightarrow> EventQueueRec" where
  "process_step q =
     (case position q of
        Outside \<Rightarrow> q
      | Test \<Rightarrow>
          if head q \<noteq> tail q
          then (if screenIsSaved q then act SaveScreensOff (q\<lparr>screenIsSaved := False\<rparr>) else q)
                 \<lparr>position := Examine\<rparr>
          else q\<lparr>position := Outside\<rparr>
      | Examine \<Rightarrow>
          (let e = events q ! head q
           in if pScreen e \<noteq> pDequeueScreen q
              then q\<lparr>pDequeueScreen := pScreen e, position := AdvanceSwitch (rootX (event e)) (rootY (event e))\<rparr>
              else q\<lparr>position := AdvanceDispatch (event e)\<rparr>)
      | AdvanceSwitch x y \<Rightarrow> (advance q)\<lparr>position := Switch x y\<rparr>
      | AdvanceDispatch xe \<Rightarrow> (advance q)\<lparr>position := Dispatch xe\<rparr>
      | Switch x y \<Rightarrow> (act (NewCurrentScreen (pDequeueScreen q) x y) q)\<lparr>position := Test\<rparr>
      | Dispatch xe \<Rightarrow> (act (input xe) q)\<lparr>position := Test\<rparr>)"

definition mieqProcessInputEvents :: "nat \<Rightarrow> EventQueueRec \<Rightarrow> EventQueueRec" where
  "mieqProcessInputEvents n q = (process_step ^^ n) (q\<lparr>position := Test\<rparr>)"

text \<open>
  The interleavings. Besides the queue the runs carry the events that were handed to
  \<open>mieqEnqueue\<close>, with the times it gave them.
\<close>

inductive mieq_run :: "EventQueueRec \<Rightarrow> xEvent list \<Rightarrow> EventQueueRec \<Rightarrow> bool" where
  start: "mieq_run q [] q"
| enqueue: "mieq_run q0 es q \<Longrightarrow> mieq_run q0 (es @ [stamp q e]) (mieqEnqueue e q)"
| switch: "mieq_run q0 es q \<Longrightarrow> mieq_run q0 es (mieqSwitchScreen s d q)"
| enter: "mieq_run q0 es q \<Longrightarrow> position q = Outside \<Longrightarrow> mieq_run q0 es (q\<lparr>position := Test\<rparr>)"
| process: "mieq_run q0 es q \<Longrightarrow> position q \<noteq> Outside \<Longrightarrow> mieq_run q0 es (process_step q)"

subsection \<open>The queue as a list\<close>

definition queue_wf :: "EventQueueRec \<Rightarrow> bool" where
  "queue_wf q \<longleftrightarrow> head q < 256 \<and> tail q < 256 \<and> length (events q) = 256"

definition queue_length :: "EventQueueRec \<Rightarrow> nat" where
  "queue_length q = (if head q \<le> tail q then tail q - head q else tail q + 256 - head q)"

definition contents :: "EventQueueRec \<Rightarrow> EventRec list" where
  "contents q = map (\<lambda>i. events q ! ((head q + i) mod 256)) [0..<queue_length q]"

lemma queue_length_bound: "queue_wf q \<Longrightarrow> queue_length q \<le> 255"
  by (auto simp: queue_length_def queue_wf_def)

lemma contents_empty: "queue_wf q \<Longrightarrow> contents q = [] \<longleftrightarrow> head q = tail q"
  by (auto simp: contents_def queue_length_def queue_wf_def)

lemma slot_end: "queue_wf q \<Longrightarrow> (head q + queue_length q) mod 256 = tail q"
  by (auto simp: queue_length_def queue_wf_def)

lemma slot_inj:
  "queue_wf q \<Longrightarrow> i < 256 \<Longrightarrow> j < 256 \<Longrightarrow> (head q + i) mod 256 = (head q + j) mod 256 \<longleftrightarrow> i = j"
  by (auto simp: queue_wf_def mod_if split: if_splits)

text \<open>Storing at the slot with an index, counted from the head.\<close>

lemma contents_store:
  assumes "queue_wf q" "k < 256" "n \<le> 256"
  shows "map (\<lambda>i. (events q)[(head q + k) mod 256 := r] ! ((head q + i) mod 256)) [0..<n] =
    (map (\<lambda>i. events q ! ((head q + i) mod 256)) [0..<n])[k := r]"
proof (rule nth_equalityI)
  fix i assume "i < length (map (\<lambda>i. (events q)[(head q + k) mod 256 := r] ! ((head q + i) mod 256)) [0..<n])"
  then have i: "i < n" by simp
  have "(head q + k) mod 256 < length (events q)" using assms(1) by (simp add: queue_wf_def)
  with i assms slot_inj [OF assms(1), of k i] show
    "map (\<lambda>i. (events q)[(head q + k) mod 256 := r] ! ((head q + i) mod 256)) [0..<n] ! i =
     (map (\<lambda>i. events q ! ((head q + i) mod 256)) [0..<n])[k := r] ! i"
    by (auto simp: nth_list_update)
qed simp

lemma store_event_simps [simp]:
  "head (store_event i e q) = head q" "tail (store_event i e q) = tail q"
  "events (store_event i e q) = (events q)[i := \<lparr>event = stamp q e, pScreen = pEnqueueScreen q\<rparr>]"
  "position (store_event i e q) = position q" "actions (store_event i e q) = actions q"
  by (simp_all add: store_event_def)

lemma queue_length_cong: "head p = head q \<Longrightarrow> tail p = tail q \<Longrightarrow> queue_length p = queue_length q"
  by (simp add: queue_length_def)

lemma queue_length_store [simp]: "queue_length (store_event i e q) = queue_length q"
  by (rule queue_length_cong) simp_all

lemma contents_store_last:
  assumes "queue_wf q" "queue_length q \<noteq> 0"
  shows "contents (store_event ((if tail q = 0 then QUEUE_SIZE else tail q) - 1) e q) =
    butlast (contents q) @ [\<lparr>event = stamp q e, pScreen = pEnqueueScreen q\<rparr>]"
proof -
  let ?r = "\<lparr>event = stamp q e, pScreen = pEnqueueScreen q\<rparr>" and ?n = "queue_length q"
  have slot: "(if tail q = 0 then QUEUE_SIZE else tail q) - 1 = (head q + (?n - 1)) mod 256"
    using assms by (auto simp: queue_length_def queue_wf_def QUEUE_SIZE_def mod_if)
  have n: "?n - 1 < 256" "?n \<le> 256" using queue_length_bound [OF assms(1)] by auto
  have "contents (store_event ((if tail q = 0 then QUEUE_SIZE else tail q) - 1) e q) = (contents q)[?n - 1 := ?r]"
    unfolding slot contents_def using contents_store [OF assms(1) n, of ?r] by simp
  moreover have "length (contents q) = ?n" by (simp add: contents_def)
  ultimately show ?thesis
    using assms(2) by (cases "contents q" rule: rev_cases) (auto simp: list_update_append)
qed

lemma contents_store_next:
  assumes "queue_wf q" "queue_length q < 255" "nt = (if tail q + 1 = QUEUE_SIZE then 0 else tail q + 1)"
  shows "contents (store_event (tail q) e (q\<lparr>tail := nt\<rparr>)) =
    contents q @ [\<lparr>event = stamp q e, pScreen = pEnqueueScreen q\<rparr>]"
proof -
  let ?r = "\<lparr>event = stamp q e, pScreen = pEnqueueScreen q\<rparr>" and ?n = "queue_length q"
  have len: "queue_length (q\<lparr>tail := nt\<rparr>) = ?n + 1"
    using assms by (auto simp: queue_length_def queue_wf_def QUEUE_SIZE_def split: if_splits)
  have slot: "(head q + ?n) mod 256 = tail q" by (rule slot_end [OF assms(1)])
  have st: "stamp (q\<lparr>tail := nt\<rparr>) e = stamp q e" by (simp add: stamp_def)
  have "map (\<lambda>i. (events q)[tail q := ?r] ! ((head q + i) mod 256)) [0..<?n + 1] =
      (map (\<lambda>i. events q ! ((head q + i) mod 256)) [0..<?n + 1])[?n := ?r]"
    using contents_store [OF assms(1), of ?n "?n + 1" ?r] assms(2) unfolding slot by simp
  also have "\<dots> = contents q @ [?r]" by (simp add: contents_def list_update_append)
  finally show ?thesis
    unfolding contents_def [of "store_event _ _ _"] store_event_simps queue_length_store len st by simp
qed

text \<open>What \<open>mieqEnqueue\<close> does to the list of waiting events.\<close>

lemma mieqEnqueue_contents:
  assumes "queue_wf q"
  shows "contents (mieqEnqueue e q) =
    (let r = \<lparr>event = stamp q e, pScreen = pEnqueueScreen q\<rparr>
     in if etype e = MotionNotify \<and> lastMotion q \<and> contents q \<noteq> [] then butlast (contents q) @ [r]
        else if length (contents q) = 255 then contents q
        else contents q @ [r])"
proof -
  have len: "length (contents q) = queue_length q" by (simp add: contents_def)
  have ne: "tail q \<noteq> head q \<longleftrightarrow> contents q \<noteq> []" using contents_empty [OF assms] by auto
  have full: "(if tail q + 1 = QUEUE_SIZE then 0 else tail q + 1) = head q \<longleftrightarrow> length (contents q) = 255"
    using assms unfolding len by (auto simp: queue_length_def queue_wf_def QUEUE_SIZE_def split: if_splits)
  show ?thesis
  proof (cases "etype e = MotionNotify \<and> lastMotion q \<and> contents q \<noteq> []")
    case True
    then have "mieqEnqueue e q = store_event ((if tail q = 0 then QUEUE_SIZE else tail q) - 1) e q"
      by (simp add: mieqEnqueue_def ne Let_def)
    moreover have "queue_length q \<noteq> 0" using True len by (metis length_0_conv)
    ultimately have "contents (mieqEnqueue e q) =
        butlast (contents q) @ [\<lparr>event = stamp q e, pScreen = pEnqueueScreen q\<rparr>]"
      using contents_store_last [OF assms, of e] by simp
    with True show ?thesis by simp
  next
    case False
    show ?thesis
    proof (cases "length (contents q) = 255")
      case True
      then have "mieqEnqueue e q = q" using False full unfolding mieqEnqueue_def ne Let_def by auto
      with True False show ?thesis by auto
    next
      case n: False
      then have "queue_length q < 255" using queue_length_bound [OF assms] len by simp
      from contents_store_next [OF assms this refl, of e]
      have "contents (mieqEnqueue e q) = contents q @ [\<lparr>event = stamp q e, pScreen = pEnqueueScreen q\<rparr>]"
        using False n full unfolding mieqEnqueue_def ne Let_def by auto
      with n False show ?thesis by auto
    qed
  qed
qed

lemma mieqEnqueue_frame:
  assumes "queue_wf q"
  shows "queue_wf (mieqEnqueue e q)" "head (mieqEnqueue e q) = head q"
    "position (mieqEnqueue e q) = position q" "actions (mieqEnqueue e q) = actions q"
  using assms by (auto simp: mieqEnqueue_def Let_def store_event_def queue_wf_def QUEUE_SIZE_def)

text \<open>
  C23. Refinement: on the list of waiting events \<open>mieqEnqueue\<close> replaces the last event when both it and the new one are
  motions, drops the new event when 255 are waiting, and otherwise appends it; the ring buffer
  stays well-formed and the consumer's part of the state is untouched.
\<close>

theorem mieqEnqueue_refines:
  assumes "queue_wf q"
  shows "contents (mieqEnqueue e q) =
    (let r = \<lparr>event = stamp q e, pScreen = pEnqueueScreen q\<rparr>
     in if etype e = MotionNotify \<and> lastMotion q \<and> contents q \<noteq> [] then butlast (contents q) @ [r]
        else if length (contents q) = 255 then contents q
        else contents q @ [r]) \<and>
    queue_wf (mieqEnqueue e q) \<and> head (mieqEnqueue e q) = head q \<and>
    position (mieqEnqueue e q) = position q \<and> actions (mieqEnqueue e q) = actions q"
  using mieqEnqueue_contents [OF assms] mieqEnqueue_frame [OF assms] by simp

definition motion :: "nat \<Rightarrow> CARD32 \<Rightarrow> xEvent" where
  "motion d t = \<lparr>etype = MotionNotify, detail = d, event_time = t, rootX = 0, rootY = 0\<rparr>"

definition queue_example :: EventQueueRec where
  "queue_example = mieqInit 10 0 \<lparr>head = 0, tail = 0, lastEventTime = 0, lastMotion = False,
     events = replicate 256 \<lparr>event = motion 0 0, pScreen = 0\<rparr>, pEnqueueScreen = 0, pDequeueScreen = 0,
     screenIsSaved = False, position = Outside, actions = []\<rparr>"

lemma queue_example_wf: "queue_wf queue_example"
  by (simp add: queue_example_def mieqInit_def queue_wf_def)

theorem mieqEnqueue_refines_witness:
  "contents (mieqEnqueue (motion 1 20) queue_example) = [\<lparr>event = motion 1 20, pScreen = 0\<rparr>]"
proof -
  have "contents queue_example = []"
    using contents_empty [OF queue_example_wf] by (simp add: queue_example_def mieqInit_def)
  with mieqEnqueue_refines [OF queue_example_wf, of "motion 1 20"] show ?thesis
    by (simp add: Let_def queue_example_def mieqInit_def stamp_def motion_def)
qed

subsection \<open>Emptying the queue\<close>

lemma contents_Cons:
  assumes "queue_wf q" "contents q = r # rs"
  shows "events q ! head q = r" "contents (advance q) = rs" "queue_wf (advance q)"
proof -
  have ne: "head q \<noteq> tail q" using assms contents_empty by force
  then obtain n where n: "queue_length q = Suc n"
    using assms(1) by (cases "queue_length q") (auto simp: queue_length_def queue_wf_def split: if_splits)
  have h: "head q < 256" using assms(1) by (simp add: queue_wf_def)
  have split: "contents q = events q ! head q # map (\<lambda>i. events q ! ((head q + Suc i) mod 256)) [0..<n]"
    using h unfolding contents_def n by (simp add: map_upt_Suc del: upt_Suc)
  then show "events q ! head q = r" using assms(2) by simp
  have adv: "head (advance q) = (head q + 1) mod 256" "events (advance q) = events q" "tail (advance q) = tail q"
    using h by (auto simp: advance_def QUEUE_SIZE_def)
  have "queue_length (advance q) = n"
    using n ne assms(1) unfolding queue_length_def adv queue_wf_def by (auto simp: mod_if split: if_splits)
  moreover have "((head q + 1) mod 256 + i) mod 256 = (head q + Suc i) mod 256" for i
    by (simp add: mod_simps)
  ultimately show "contents (advance q) = rs"
    using split assms(2) by (simp add: contents_def adv)
  show "queue_wf (advance q)" using assms(1) by (simp add: queue_wf_def adv)
qed

lemma contents_cong:
  "head p = head q \<Longrightarrow> tail p = tail q \<Longrightarrow> events p = events q \<Longrightarrow> contents p = contents q"
  by (simp add: contents_def queue_length_def)

lemma queue_wf_cong:
  "head p = head q \<Longrightarrow> tail p = tail q \<Longrightarrow> events p = events q \<Longrightarrow> queue_wf p = queue_wf q"
  by (simp add: queue_wf_def)

text \<open>What is done with one event, and with a list of them.\<close>

definition handle :: "nat \<Rightarrow> EventRec \<Rightarrow> action" where
  "handle screen r =
     (if pScreen r \<noteq> screen then NewCurrentScreen (pScreen r) (rootX (event r)) (rootY (event r))
      else input (event r))"

fun consume :: "bool \<Rightarrow> nat \<Rightarrow> EventRec list \<Rightarrow> action list" where
  "consume saved screen [] = []"
| "consume saved screen (r # rs) =
     (if saved then [SaveScreensOff] else []) @ handle screen r # consume False (pScreen r) rs"

lemma process_cycle:
  assumes "queue_wf q" "position q = Test" "contents q = r # rs"
  shows "\<exists>q'. (process_step ^^ 4) q = q' \<and> queue_wf q' \<and> position q' = Test \<and> contents q' = rs \<and>
    pDequeueScreen q' = pScreen r \<and> screenIsSaved q' = False \<and>
    actions q' = actions q @ (if screenIsSaved q then [SaveScreensOff] else []) @ [handle (pDequeueScreen q) r]"
proof -
  have ne: "head q \<noteq> tail q" using assms(1,3) contents_empty by force
  note c = contents_Cons [OF assms(1,3)]
  define q1 where "q1 = (if screenIsSaved q then act SaveScreensOff (q\<lparr>screenIsSaved := False\<rparr>) else q)
    \<lparr>position := Examine\<rparr>"
  have s1: "process_step q = q1" using assms(2) ne by (simp add: process_step_def q1_def)
  have q1: "head q1 = head q" "tail q1 = tail q" "events q1 = events q" "position q1 = Examine"
    "pDequeueScreen q1 = pDequeueScreen q" "screenIsSaved q1 = False"
    "actions q1 = actions q @ (if screenIsSaved q then [SaveScreensOff] else [])"
    by (simp_all add: q1_def act_def)
  have four: "(process_step ^^ 4) q = process_step (process_step (process_step q1))"
    by (simp add: eval_nat_numeral s1 [symmetric])
  let ?x = "rootX (event r)" and ?y = "rootY (event r)"
  have adv: "head (advance q1) = head (advance q)" by (simp add: advance_def q1)
  show ?thesis
  proof (cases "pScreen r = pDequeueScreen q")
    case True
    let ?q' = "(act (input (event r)) (advance q1\<lparr>position := Dispatch (event r)\<rparr>))\<lparr>position := Test\<rparr>"
    have "(process_step ^^ 4) q = ?q'"
      unfolding four using True c(1) q1 by (simp add: process_step_def Let_def advance_def)
    moreover have "contents ?q' = contents (advance q)" "queue_wf ?q' = queue_wf (advance q)"
      by (rule contents_cong queue_wf_cong; simp add: act_def advance_def q1)+
    ultimately show ?thesis using c(2,3) True q1 by (simp add: act_def advance_def handle_def)
  next
    case False
    let ?q' = "(act (NewCurrentScreen (pScreen r) ?x ?y)
      (advance (q1\<lparr>pDequeueScreen := pScreen r\<rparr>)\<lparr>position := Switch ?x ?y\<rparr>))\<lparr>position := Test\<rparr>"
    have "(process_step ^^ 4) q = ?q'"
      unfolding four using False c(1) q1 by (simp add: process_step_def Let_def advance_def)
    moreover have "contents ?q' = contents (advance q)" "queue_wf ?q' = queue_wf (advance q)"
      by (rule contents_cong queue_wf_cong; simp add: act_def advance_def q1)+
    ultimately show ?thesis using c(2,3) False q1 by (simp add: act_def advance_def handle_def)
  qed
qed

lemma process_all:
  "queue_wf q \<Longrightarrow> position q = Test \<Longrightarrow> contents q = rs \<Longrightarrow>
   \<exists>q'. (process_step ^^ (4 * length rs + 1)) q = q' \<and> queue_wf q' \<and> position q' = Outside \<and> contents q' = [] \<and>
     actions q' = actions q @ consume (screenIsSaved q) (pDequeueScreen q) rs"
proof (induction rs arbitrary: q)
  case Nil
  then have "head q = tail q" using contents_empty by blast
  then have "process_step q = q\<lparr>position := Outside\<rparr>" using Nil by (simp add: process_step_def)
  with Nil show ?case
    using contents_cong [of "q\<lparr>position := Outside\<rparr>" q] queue_wf_cong [of "q\<lparr>position := Outside\<rparr>" q] by simp
next
  case (Cons r rs)
  from process_cycle [OF Cons.prems] obtain q1 where q1: "(process_step ^^ 4) q = q1" "queue_wf q1"
    "position q1 = Test" "contents q1 = rs" "pDequeueScreen q1 = pScreen r" "screenIsSaved q1 = False"
    "actions q1 = actions q @ (if screenIsSaved q then [SaveScreensOff] else []) @ [handle (pDequeueScreen q) r]"
    by blast
  have "4 * length (r # rs) + 1 = (4 * length rs + 1) + 4" by simp
  then have "(process_step ^^ (4 * length (r # rs) + 1)) q = (process_step ^^ (4 * length rs + 1)) q1"
    by (simp only: funpow_add comp_apply q1(1))
  with Cons.IH [OF q1(2-4)] q1(5-7) show ?case by auto
qed

text \<open>
  Left alone, \<open>mieqProcessInputEvents\<close> ends after at most four steps for each waiting event
  and one more test, with the queue empty, and has handled the events in the order in which they
  waited: each goes to the keyboard or to the pointer, or, when its screen is not the current one,
  is turned into a change of screen.
\<close>

theorem mieqProcessInputEvents_drains:
  assumes "queue_wf q"
  shows "position (mieqProcessInputEvents (4 * length (contents q) + 1) q) = Outside \<and>
    contents (mieqProcessInputEvents (4 * length (contents q) + 1) q) = [] \<and>
    queue_wf (mieqProcessInputEvents (4 * length (contents q) + 1) q) \<and>
    actions (mieqProcessInputEvents (4 * length (contents q) + 1) q) =
      actions q @ consume (screenIsSaved q) (pDequeueScreen q) (contents q)"
proof -
  let ?q = "q\<lparr>position := Test\<rparr>"
  have "queue_wf ?q" "contents ?q = contents q"
    using assms queue_wf_cong [of ?q q] contents_cong [of ?q q] by simp_all
  from process_all [OF this(1) _ this(2)] show ?thesis by (auto simp: mieqProcessInputEvents_def)
qed

theorem mieqProcessInputEvents_drains_witness:
  "actions (mieqProcessInputEvents 5 (mieqEnqueue (motion 1 20) queue_example)) = [PointerInput (motion 1 20)]"
proof -
  let ?q = "mieqEnqueue (motion 1 20) queue_example"
  have "contents queue_example = []"
    using contents_empty [OF queue_example_wf] by (simp add: queue_example_def mieqInit_def)
  then have q: "contents ?q = [\<lparr>event = motion 1 20, pScreen = 0\<rparr>]" "queue_wf ?q"
    using contents_store_next [OF queue_example_wf _ refl, of "motion 1 20"] queue_example_wf
    by (simp_all add: mieqEnqueue_def queue_example_def mieqInit_def motion_def QUEUE_SIZE_def stamp_def
        queue_length_def store_event_def queue_wf_def)
  with mieqProcessInputEvents_drains [OF q(2)] show ?thesis
    by (simp add: mieqEnqueue_def queue_example_def mieqInit_def motion_def QUEUE_SIZE_def store_event_def
        handle_def input_def eval_nat_numeral)
qed

subsection \<open>Interleavings\<close>

text \<open>
  The events that have been handed on, the one the consumer holds, and those it has still to look
  at: between looking at an event and advancing the head the first slot is not one of them.
\<close>

definition dispatched :: "action \<Rightarrow> xEvent list" where
  "dispatched a = (case a of KeyboardInput xe \<Rightarrow> [xe] | PointerInput xe \<Rightarrow> [xe] | _ \<Rightarrow> [])"

definition held :: "position \<Rightarrow> xEvent list" where
  "held p = (case p of AdvanceDispatch xe \<Rightarrow> [xe] | Dispatch xe \<Rightarrow> [xe] | _ \<Rightarrow> [])"

definition looked :: "position \<Rightarrow> nat" where
  "looked p = (case p of AdvanceSwitch x y \<Rightarrow> 1 | AdvanceDispatch xe \<Rightarrow> 1 | _ \<Rightarrow> 0)"

definition reading :: "position \<Rightarrow> bool" where
  "reading p \<longleftrightarrow> p = Examine \<or> looked p = 1"

definition outcome :: "EventQueueRec \<Rightarrow> xEvent list" where
  "outcome q = concat (map dispatched (actions q)) @ held (position q) @
     map event (drop (looked (position q)) (contents q))"

definition queue_inv :: "xEvent list \<Rightarrow> EventQueueRec \<Rightarrow> bool" where
  "queue_inv es q \<longleftrightarrow> queue_wf q \<and> (reading (position q) \<longrightarrow> contents q \<noteq> []) \<and> subseq (outcome q) es"

lemmas position_defs = held_def looked_def reading_def

lemma dispatched_input [simp]: "dispatched (input xe) = [xe]"
  by (simp add: dispatched_def input_def)

lemma dispatched_other [simp]: "dispatched SaveScreensOff = []" "dispatched (NewCurrentScreen s x y) = []"
  by (simp_all add: dispatched_def)

text \<open>Both ways of adding an event keep the order.\<close>

lemma subseq_append_new:
  assumes "subseq (xs @ drop d cs) es" "d \<le> length cs"
  shows "subseq (xs @ drop d (cs @ [c])) (es @ [c])"
  using assms by (simp add: list_emb_append_mono flip: append_assoc)

lemma subseq_replace_last:
  assumes "subseq (xs @ drop d cs) es" "d \<le> 1"
  shows "subseq (xs @ drop d (butlast cs @ [c])) (es @ [c])"
proof (cases "d \<le> length (butlast cs)")
  case True
  have "subseq (drop d (butlast cs)) (drop d cs)"
    by (cases cs rule: rev_cases) (simp_all add: list_emb_prefix)
  then have "subseq (xs @ drop d (butlast cs)) es"
    using assms(1) by (meson list_emb_append_mono subseq_order.order_refl subseq_order.order_trans)
  with True show ?thesis by (simp add: list_emb_append_mono flip: append_assoc)
next
  case False
  then have "drop d (butlast cs @ [c]) = []" using assms(2) by simp
  then show ?thesis using assms(1) subseq_order.order_trans [of xs "xs @ drop d cs" es]
    by (auto intro: subseq_order.order_trans [of xs es])
qed

lemma queue_inv_enqueue:
  assumes "queue_inv es q"
  shows "queue_inv (es @ [stamp q e]) (mieqEnqueue e q)"
proof -
  have wf: "queue_wf q" and ne: "reading (position q) \<Longrightarrow> contents q \<noteq> []" and sub: "subseq (outcome q) es"
    using assms by (auto simp: queue_inv_def)
  have d: "looked (position q) \<le> 1" "looked (position q) \<le> length (contents q)"
    using ne by (auto simp: position_defs Suc_le_eq split: position.splits)
  let ?r = "\<lparr>event = stamp q e, pScreen = pEnqueueScreen q\<rparr>"
  note f = mieqEnqueue_frame [OF wf, of e]
  have out: "outcome (mieqEnqueue e q) = (concat (map dispatched (actions q)) @ held (position q)) @
      drop (looked (position q)) (map event (contents (mieqEnqueue e q)))"
    by (simp add: outcome_def f drop_map)
  have sub': "subseq ((concat (map dispatched (actions q)) @ held (position q)) @
      drop (looked (position q)) (map event (contents q))) es"
    using sub by (simp add: outcome_def drop_map)
  consider "contents (mieqEnqueue e q) = butlast (contents q) @ [?r]"
    | "contents (mieqEnqueue e q) = contents q" | "contents (mieqEnqueue e q) = contents q @ [?r]"
    using mieqEnqueue_contents [OF wf, of e] by (auto simp: Let_def split: if_splits)
  then show ?thesis
  proof cases
    case 1
    then show ?thesis
      using f subseq_replace_last [OF sub' d(1), of "stamp q e"] by (simp add: queue_inv_def out map_butlast)
  next
    case 2
    then have "subseq (outcome (mieqEnqueue e q)) es" using sub' out by simp
    with 2 show ?thesis using f ne by (simp add: queue_inv_def subseq_rev_drop_many)
  next
    case 3
    then show ?thesis
      using f d(2) subseq_append_new [OF sub', of "stamp q e"] by (simp add: queue_inv_def out)
  qed
qed

lemma queue_inv_cong:
  assumes "queue_inv es q" "head p = head q" "tail p = tail q" "events p = events q"
    "actions p = actions q" "position p = position q"
  shows "queue_inv es p"
  using assms contents_cong [of p q] queue_wf_cong [of p q] by (simp add: queue_inv_def outcome_def)

lemma queue_inv_process:
  assumes "queue_inv es q" "position q \<noteq> Outside"
  shows "queue_inv es (process_step q)"
proof -
  have wf: "queue_wf q" and ne: "reading (position q) \<Longrightarrow> contents q \<noteq> []" and sub: "subseq (outcome q) es"
    using assms by (auto simp: queue_inv_def)
  let ?p = "process_step q"
  have same: "contents ?p = contents q \<and> queue_wf ?p"
    if "head ?p = head q" "tail ?p = tail q" "events ?p = events q"
    using contents_cong [OF that] queue_wf_cong [OF that] wf by simp
  show ?thesis
  proof (cases "position q")
    case Test
    have p: "head ?p = head q" "tail ?p = tail q" "events ?p = events q"
      "position ?p = (if head q \<noteq> tail q then Examine else Outside)"
      "concat (map dispatched (actions ?p)) = concat (map dispatched (actions q))"
      using Test by (simp_all add: process_step_def act_def)
    with same [OF p(1-3)] sub contents_empty [OF wf] show ?thesis
      by (auto simp: queue_inv_def outcome_def position_defs Test)
  next
    case Examine
    then obtain r rs where c: "contents q = r # rs" using ne by (cases "contents q") (auto simp: reading_def)
    have r: "events q ! head q = r" by (rule contents_Cons(1) [OF wf c])
    have p: "head ?p = head q" "tail ?p = tail q" "events ?p = events q" "actions ?p = actions q"
      "position ?p = (if pScreen r \<noteq> pDequeueScreen q then AdvanceSwitch (rootX (event r)) (rootY (event r))
                      else AdvanceDispatch (event r))"
      using Examine by (simp_all add: process_step_def Let_def r)
    have "subseq (concat (map dispatched (actions q)) @ map event rs) es"
      using subseq_order.order_trans [OF _ sub] c Examine
      by (auto simp: outcome_def position_defs intro!: list_emb_append_mono)
    with same [OF p(1-3)] p sub c show ?thesis
      by (simp add: queue_inv_def outcome_def position_defs Examine)
  next
    case (AdvanceSwitch x y)
    then obtain r rs where c: "contents q = r # rs" using ne by (cases "contents q") (auto simp: position_defs)
    have p: "head ?p = head (advance q)" "tail ?p = tail (advance q)" "events ?p = events (advance q)"
      "actions ?p = actions q" "position ?p = Switch x y"
      using AdvanceSwitch by (simp_all add: process_step_def advance_def)
    with contents_cong [OF p(1-3)] queue_wf_cong [OF p(1-3)] contents_Cons [OF wf c] sub c show ?thesis
      by (simp add: queue_inv_def outcome_def position_defs AdvanceSwitch)
  next
    case (AdvanceDispatch xe)
    then obtain r rs where c: "contents q = r # rs" using ne by (cases "contents q") (auto simp: position_defs)
    have p: "head ?p = head (advance q)" "tail ?p = tail (advance q)" "events ?p = events (advance q)"
      "actions ?p = actions q" "position ?p = Dispatch xe"
      using AdvanceDispatch by (simp_all add: process_step_def advance_def)
    with contents_cong [OF p(1-3)] queue_wf_cong [OF p(1-3)] contents_Cons [OF wf c] sub c show ?thesis
      by (simp add: queue_inv_def outcome_def position_defs AdvanceDispatch)
  next
    case (Switch x y)
    have p: "head ?p = head q" "tail ?p = tail q" "events ?p = events q" "position ?p = Test"
      "concat (map dispatched (actions ?p)) = concat (map dispatched (actions q))"
      using Switch by (simp_all add: process_step_def act_def)
    with same [OF p(1-3)] sub show ?thesis
      by (simp add: queue_inv_def outcome_def position_defs Switch)
  next
    case (Dispatch xe)
    have p: "head ?p = head q" "tail ?p = tail q" "events ?p = events q" "position ?p = Test"
      "concat (map dispatched (actions ?p)) = concat (map dispatched (actions q)) @ [xe]"
      using Dispatch by (simp_all add: process_step_def act_def)
    with same [OF p(1-3)] sub show ?thesis
      by (simp add: queue_inv_def outcome_def position_defs Dispatch)
  qed (use assms in simp)
qed

lemma queue_inv_run:
  assumes "mieq_run q0 es q" "queue_inv [] q0"
  shows "queue_inv es q"
  using assms
proof (induction rule: mieq_run.induct)
  case (switch q0 es q s d)
  then show ?case
    using queue_inv_cong [of es q "mieqSwitchScreen s d q"] by (simp add: mieqSwitchScreen_def Let_def)
next
  case (enter q0 es q)
  then show ?case
    using contents_cong [of "q\<lparr>position := Test\<rparr>" q] queue_wf_cong [of "q\<lparr>position := Test\<rparr>" q]
    by (simp add: queue_inv_def outcome_def position_defs)
qed (simp_all add: queue_inv_enqueue queue_inv_process)

lemma queue_inv_init:
  assumes "length (events q) = 256"
  shows "queue_inv [] (mieqInit now screen0 q\<lparr>position := Outside, actions := []\<rparr>)"
  using assms contents_empty [of "mieqInit now screen0 q\<lparr>position := Outside, actions := []\<rparr>"]
  by (simp add: queue_inv_def outcome_def position_defs queue_wf_def mieqInit_def)


text \<open>Runs of the model on concrete events, for the examples.\<close>

lemma mieq_enqueue': "mieq_run q0 es q \<Longrightarrow> es' = es @ [stamp q e] \<Longrightarrow> q' = mieqEnqueue e q \<Longrightarrow> mieq_run q0 es' q'"
  by (simp add: mieq_run.enqueue)

lemma mieq_process':
  "mieq_run q0 es q \<Longrightarrow> position q \<noteq> Outside \<Longrightarrow> q' = process_step q \<Longrightarrow> mieq_run q0 es q'"
  by (simp add: mieq_run.process)

definition ring :: "nat \<Rightarrow> nat \<Rightarrow> bool \<Rightarrow> xEvent list \<Rightarrow> position \<Rightarrow> action list \<Rightarrow> EventQueueRec" where
  "ring h t m es p as = \<lparr>head = h, tail = t, lastEventTime = 10, lastMotion = m,
     events = map (\<lambda>e. \<lparr>event = e, pScreen = 0\<rparr>) es @ replicate (256 - length es) \<lparr>event = motion 0 0, pScreen = 0\<rparr>,
     pEnqueueScreen = 0, pDequeueScreen = 0, screenIsSaved = False, position = p, actions = as\<rparr>"

lemmas ring_defs = ring_def motion_def QUEUE_SIZE_def

lemma ring_init:
  "mieqInit 10 0 (ring 0 0 False [] Outside [])\<lparr>position := Outside, actions := []\<rparr> = ring 0 0 False [] Outside []"
  by (simp add: mieqInit_def ring_def)

lemma ring_slots: "replicate 256 x = x # replicate 255 x"
  by (simp add: eval_nat_numeral)

lemma ring_motion:
  "mieqEnqueue (motion 5 20) (ring 0 0 False [] Outside []) = ring 0 (Suc 0) True [motion 5 20] Outside []"
  "mieqEnqueue (motion 6 30) (ring 0 (Suc 0) True [motion 5 20] (AdvanceDispatch (motion 5 20)) []) =
     ring 0 (Suc 0) True [motion 6 30] (AdvanceDispatch (motion 5 20)) []"
  by (simp_all add: mieqEnqueue_def store_event_def stamp_def ring_slots ring_defs Let_def)

lemma ring_stamp:
  "stamp (ring h t m es p as) (motion 5 20) = motion 5 20" "stamp (ring h t m es p as) (motion 6 30) = motion 6 30"
  by (simp_all add: stamp_def ring_defs)

lemma lost_motion_run:
  "mieq_run (mieqInit 10 0 (ring 0 0 False [] Outside [])\<lparr>position := Outside, actions := []\<rparr>)
     [motion 5 20, motion 6 30] (ring (Suc 0) (Suc 0) True [motion 6 30] Outside [PointerInput (motion 5 20)])"
proof -
  let ?q0 = "ring 0 0 False [] Outside []" and ?a = "motion 5 20" and ?b = "motion 6 30"
  have "mieq_run ?q0 [?a] (ring 0 (Suc 0) True [?a] Outside [])"
    by (rule mieq_enqueue' [OF mieq_run.start, of _ _ ?a]) (simp_all add: ring_stamp ring_motion)
  from mieq_run.enter [OF this] have "mieq_run ?q0 [?a] (ring 0 (Suc 0) True [?a] Test [])"
    by (simp add: ring_def)
  then have "mieq_run ?q0 [?a] (ring 0 (Suc 0) True [?a] Examine [])"
    by (rule mieq_process') (simp_all add: ring_def process_step_def)
  then have "mieq_run ?q0 [?a] (ring 0 (Suc 0) True [?a] (AdvanceDispatch ?a) [])"
    by (rule mieq_process') (simp_all add: ring_def process_step_def)
  then have "mieq_run ?q0 [?a, ?b] (ring 0 (Suc 0) True [?b] (AdvanceDispatch ?a) [])"
    by (rule mieq_enqueue' [of _ _ _ _ ?b]) (simp_all add: ring_stamp ring_motion)
  then have "mieq_run ?q0 [?a, ?b] (ring (Suc 0) (Suc 0) True [?b] (Dispatch ?a) [])"
    by (rule mieq_process') (simp_all add: ring_defs process_step_def advance_def)
  then have "mieq_run ?q0 [?a, ?b] (ring (Suc 0) (Suc 0) True [?b] Test [PointerInput ?a])"
    by (rule mieq_process') (simp_all add: ring_defs process_step_def act_def input_def)
  then have "mieq_run ?q0 [?a, ?b] (ring (Suc 0) (Suc 0) True [?b] Outside [PointerInput ?a])"
    by (rule mieq_process') (simp_all add: ring_defs process_step_def)
  then show ?thesis by (simp only: ring_init)
qed


text \<open>
  A motion can be lost without the queue being full: when it arrives after the consumer has
  copied the only waiting event, a motion too, and before the head is advanced, it replaces the
  copied event in its slot and is skipped with it.
\<close>

theorem mieq_motion_lost:
  "\<exists>q. mieq_run (mieqInit 10 0 (ring 0 0 False [] Outside [])\<lparr>position := Outside, actions := []\<rparr>)
       [motion 5 20, motion 6 30] q \<and>
     position q = Outside \<and> contents q = [] \<and> actions q = [PointerInput (motion 5 20)]"
  using lost_motion_run by (auto simp: ring_def contents_def queue_length_def)

lemma lastEventTime_run: "mieq_run q0 es q \<Longrightarrow> lastEventTime q = lastEventTime q0"
proof (induction rule: mieq_run.induct)
  case (process q0 es q)
  then show ?case
    by (auto simp: process_step_def act_def advance_def Let_def split: position.splits)
qed (auto simp: mieqEnqueue_def mieqSwitchScreen_def store_event_def Let_def)

text \<open>
  The reference time is set by \<open>mieqInit\<close> only. An event that is not earlier than the start of
  the server keeps its own time whatever was enqueued before it.
\<close>

theorem mieq_times_unordered:
  assumes "mieq_run (mieqInit now screen0 q) es q'" "now \<le> event_time e"
  shows "lastEventTime q' = now \<and> stamp q' e = e"
  using lastEventTime_run [OF assms(1)] assms(2) by (simp add: mieqInit_def stamp_def leD)

theorem mieq_times_unordered_witness:
  "stamp (mieqEnqueue (motion 2 30) queue_example) (motion 1 20) = motion 1 20"
proof -
  have "mieq_run queue_example [motion 2 30] (mieqEnqueue (motion 2 30) queue_example)"
    by (rule mieq_enqueue' [OF mieq_run.start, of _ _ "motion 2 30"])
      (simp_all add: stamp_def queue_example_def mieqInit_def motion_def)
  then show ?thesis
    using mieq_times_unordered [of 10 0 _ "[motion 2 30]" _ "motion 1 20"]
    unfolding queue_example_def by (auto simp: motion_def)
qed

end
