(* ===== verification/OsBuffers.thy ===== *)
theory OsBuffers
  imports Prelude
begin

text \<open>
  The input and output buffers of the client connections, \<^verbatim>\<open>programs/Xserver/os/io.c\<close> with the
  structures of \<^verbatim>\<open>os/osdep.h\<close>: the records, the state they share, allocation and release. A block
  of memory is the list of its bytes, a pointer into it is an offset, and an \<open>fd_set\<close> is a set of
  descriptors. What the C library and the kernel answer (allocation, \<open>read\<close>, \<open>writev\<close>) is the record
  \<open>os_env\<close>, an argument of the operations.
\<close>

type_synonym byte = "8 word"

definition BUFSIZE :: nat where "BUFSIZE = 4096"
definition BUFWATERMARK :: nat where "BUFWATERMARK = 8192"
definition MAXBUFSIZE :: nat where "MAXBUFSIZE = 4194304"
definition MAX_TIMES_PER :: nat where "MAX_TIMES_PER = 10"

subsection \<open>The records\<close>

text \<open>\<open>sent\<close> are the bytes a connection has been given so far.\<close>

record ConnectionInput =
  buffer :: "byte list"
  bufptr :: nat
  bufcnt :: nat
  lenLastReq :: nat
  oci_size :: nat

record ConnectionOutput =
  oco_size :: nat
  oco_buf :: "byte list"
  oco_count :: nat

record OsComm =
  oc_fd :: nat
  oc_input :: "ConnectionInput option"
  oc_output :: "ConnectionOutput option"
  trans_conn :: bool
  sent :: "byte list"

text \<open>
  The part of a client's record that belongs to the transport of requests and replies. An
  \<open>unsigned long\<close> has 64 bits.
\<close>

record io_client =
  client_swapped :: bool
  big_requests :: bool
  client_req_len :: CARD32
  requestBuffer :: nat
  client_sequence :: nat
  clientGone :: bool
  noClientException :: int
  clientRunning :: bool
  replyBytesRemaining :: "64 word"

text \<open>What a call of the reply callback is told.\<close>

record ReplyInfoRec =
  reply_client :: nat
  replyData :: "byte list"
  dataLenBytes :: nat
  startOfReply :: bool
  bytesRemaining :: "64 word"

text \<open>
  The state: the connection and the record of each client, by client number, and the variables
  of the file. \<open>host_msb\<close> is the byte order of the machine; \<open>ReplyCallback\<close> says whether any
  callback is registered, and \<open>reply_calls\<close> records what these were told.
\<close>

record io_state =
  osPrivate :: "nat \<Rightarrow> OsComm"
  io_clients :: "nat \<Rightarrow> io_client"
  host_msb :: bool
  AvailableInput :: "nat option"
  FreeInputs :: "ConnectionInput list"
  FreeOutputs :: "ConnectionOutput list"
  ClientsWithInput :: "nat set"
  IgnoredClientsWithInput :: "nat set"
  AllClients :: "nat set"
  OutputPending :: "nat set"
  ClientsWriteBlocked :: "nat set"
  AnyClientsWriteBlocked :: bool
  NewOutputPending :: bool
  CriticalOutputPending :: bool
  ConnectionTranslation :: "nat \<Rightarrow> nat"
  ReplyCallback :: bool
  reply_calls :: "ReplyInfoRec list"
  isItTimeToYield :: bool
  timesThisConnection :: nat
  SmartScheduleDisable :: bool

text \<open>
  What a system call on a connection returns. The answer to a \<open>read\<close> depends on the bytes asked
  for, that to a \<open>writev\<close> on the client, the number of the call and the bytes offered.
\<close>

datatype read_result = Read_bytes "byte list" | Read_again | Read_error
datatype write_result = Written nat | Write_again | Write_too_long | Write_error

record os_env =
  malloc_ok :: bool
  grow_ok :: bool
  shrink_ok :: bool
  fresh :: "nat \<Rightarrow> byte"
  trans_read :: "nat \<Rightarrow> read_result"
  trans_writev :: "nat \<Rightarrow> nat \<Rightarrow> nat \<Rightarrow> write_result"

definition put_comm :: "nat \<Rightarrow> (OsComm \<Rightarrow> OsComm) \<Rightarrow> io_state \<Rightarrow> io_state" where
  "put_comm c f s = s\<lparr>osPrivate := (osPrivate s)(c := f (osPrivate s c))\<rparr>"

definition put_input :: "nat \<Rightarrow> ConnectionInput option \<Rightarrow> io_state \<Rightarrow> io_state" where
  "put_input c oci = put_comm c (\<lambda>oc. oc\<lparr>oc_input := oci\<rparr>)"

definition put_output :: "nat \<Rightarrow> ConnectionOutput option \<Rightarrow> io_state \<Rightarrow> io_state" where
  "put_output c oco = put_comm c (\<lambda>oc. oc\<lparr>oc_output := oco\<rparr>)"

definition put_client :: "nat \<Rightarrow> (io_client \<Rightarrow> io_client) \<Rightarrow> io_state \<Rightarrow> io_state" where
  "put_client c f s = s\<lparr>io_clients := (io_clients s)(c := f (io_clients s c))\<rparr>"

subsection \<open>Memory\<close>

text \<open>\<open>memmove\<close> of the bytes \<open>xs\<close> to an offset, and \<open>xrealloc\<close>, whose new bytes are arbitrary.\<close>

definition write_at :: "'a list \<Rightarrow> nat \<Rightarrow> 'a list \<Rightarrow> 'a list" where
  "write_at b p xs = take p b @ xs @ drop (p + length xs) b"

definition realloc_block :: "os_env \<Rightarrow> byte list \<Rightarrow> nat \<Rightarrow> byte list" where
  "realloc_block E b n = take n b @ map (fresh E) [length b..<n]"

definition AllocateInputBuffer :: "os_env \<Rightarrow> ConnectionInput option" where
  "AllocateInputBuffer E = (if malloc_ok E
     then Some \<lparr>buffer = map (fresh E) [0..<BUFSIZE], bufptr = 0, bufcnt = 0, lenLastReq = 0, oci_size = BUFSIZE\<rparr>
     else None)"

definition AllocateOutputBuffer :: "os_env \<Rightarrow> ConnectionOutput option" where
  "AllocateOutputBuffer E = (if malloc_ok E
     then Some \<lparr>oco_size = BUFSIZE, oco_buf = map (fresh E) [0..<BUFSIZE], oco_count = 0\<rparr>
     else None)"

text \<open>Both buffers of a connection that closes go to the free lists when these are empty.\<close>

definition FreeOsBuffers :: "nat \<Rightarrow> io_state \<Rightarrow> io_state" where
  "FreeOsBuffers c s0 =
     (let s = (if AvailableInput s0 = Some c then s0\<lparr>AvailableInput := None\<rparr> else s0);
          s1 = (case oc_input (osPrivate s c) of None \<Rightarrow> s
                | Some oci \<Rightarrow> if FreeInputs s \<noteq> [] then s
                    else s\<lparr>FreeInputs := [oci\<lparr>bufptr := 0, bufcnt := 0, lenLastReq := 0\<rparr>]\<rparr>)
      in (case oc_output (osPrivate s1 c) of None \<Rightarrow> s1
          | Some oco \<Rightarrow> if FreeOutputs s1 \<noteq> [] then s1
              else s1\<lparr>FreeOutputs := [oco\<lparr>oco_count := 0\<rparr>]\<rparr>))"

definition ResetOsBuffers :: "io_state \<Rightarrow> io_state" where
  "ResetOsBuffers s = s\<lparr>FreeInputs := [], FreeOutputs := []\<rparr>"

subsection \<open>Scheduling\<close>

definition YieldControl :: "io_state \<Rightarrow> io_state" where
  "YieldControl s = s\<lparr>isItTimeToYield := True, timesThisConnection := 0\<rparr>"

definition YieldControlNoInput :: "nat \<Rightarrow> io_state \<Rightarrow> io_state" where
  "YieldControlNoInput fd s =
     (YieldControl s)\<lparr>ClientsWithInput := ClientsWithInput s - {fd}\<rparr>"

definition YieldControlDeath :: "io_state \<Rightarrow> io_state" where
  "YieldControlDeath s = s\<lparr>timesThisConnection := 0\<rparr>"

subsection \<open>Lengths of requests\<close>

text \<open>
  A number is read in the byte order of the machine and swapped for a client of the other order.
\<close>

definition card16 :: "bool \<Rightarrow> byte list \<Rightarrow> nat \<Rightarrow> CARD16" where
  "card16 msb b i = (if msb then word_cat (b ! i) (b ! (i + 1)) else word_cat (b ! (i + 1)) (b ! i))"

definition card32 :: "bool \<Rightarrow> byte list \<Rightarrow> nat \<Rightarrow> CARD32" where
  "card32 msb b i = (if msb then word_cat (card16 msb b i) (card16 msb b (i + 2))
                     else word_cat (card16 msb b (i + 2)) (card16 msb b i))"

definition lswaps :: "CARD32 \<Rightarrow> CARD32" where
  "lswaps x = (push_bit 8 (x AND 0xff)) OR ((drop_bit 8 x) AND 0xff)"

definition lswapl :: "CARD32 \<Rightarrow> CARD32" where
  "lswapl x = push_bit 24 (x AND 0xff) OR push_bit 8 (x AND 0xff00) OR
              drop_bit 8 (x AND 0xff0000) OR (drop_bit 24 x AND 0xff)"

definition sz_xReq :: nat where "sz_xReq = 4"
definition sz_xBigReq :: nat where "sz_xBigReq = 8"

definition get_req_len :: "io_state \<Rightarrow> nat \<Rightarrow> byte list \<Rightarrow> nat \<Rightarrow> CARD32" where
  "get_req_len s c b p = (if client_swapped (io_clients s c)
     then lswaps (ucast (card16 (host_msb s) b (p + 2))) else ucast (card16 (host_msb s) b (p + 2)))"

definition get_big_req_len :: "io_state \<Rightarrow> nat \<Rightarrow> byte list \<Rightarrow> nat \<Rightarrow> CARD32" where
  "get_big_req_len s c b p = (if client_swapped (io_clients s c)
     then lswapl (card32 (host_msb s) b (p + 4)) else card32 (host_msb s) b (p + 4))"

text \<open>Swapping once more gives the number in the client's own byte order.\<close>

lemma byte_masks:
  "(0xff :: 32 word) = mask 8"
  "(0xff00 :: 32 word) = push_bit 8 (mask 8)"
  "(0xff0000 :: 32 word) = push_bit 16 (mask 8)"
  by (simp_all add: mask_eq_exp_minus_1 push_bit_eq_mult)

lemma lswaps_card16: "lswaps (ucast (card16 msb b i)) = ucast (card16 (\<not> msb) b i)"
  by (rule bit_word_eqI)
     (auto simp: lswaps_def card16_def byte_masks bit_simps)

lemma lswapl_card32: "lswapl (card32 msb b i) = card32 (\<not> msb) b i"
proof (rule bit_word_eqI)
  fix n assume "n < LENGTH(32)"
  then consider "n < 8" | "8 \<le> n" "n < 16" | "16 \<le> n" "n < 24" | "24 \<le> n" "n < 32"
    by (simp, linarith)
  then show "bit (lswapl (card32 msb b i)) n \<longleftrightarrow> bit (card32 (\<not> msb) b i) n"
    by cases (auto simp: lswapl_def card32_def card16_def byte_masks bit_simps
        intro: arg_cong [where f = "bit _"] elim: back_subst [of "bit _"])
qed

end
