(* ===== verification/RequestInput.thy ===== *)
theory RequestInput
  imports OsBuffers
begin

text \<open>
  The reading of requests, \<^verbatim>\<open>programs/Xserver/os/io.c\<close>: \<open>ReadRequestFromClient\<close>,
  \<open>InsertFakeRequest\<close>, \<open>ResetCurrentRequest\<close>, \<open>PeekNextRequest\<close> and \<open>SkipRequests\<close>, for the build
  with big requests and the smart scheduler and without LBX. Where the code would follow a null
  input buffer (of \<open>AvailableInput\<close>, or of the client in the last two) the model leaves the state
  alone; the invariant of \<open>RequestStream\<close> excludes the first, and a request being executed the second.
\<close>

subsection \<open>Sharing of buffers\<close>

text \<open>The buffer of the client that was last left with nothing to read is taken from it.\<close>

definition release_available :: "nat \<Rightarrow> io_state \<Rightarrow> io_state" where
  "release_available c s = (case AvailableInput s of None \<Rightarrow> s
     | Some a \<Rightarrow>
         if a = c then s\<lparr>AvailableInput := None\<rparr>
         else (case oc_input (osPrivate s a) of
             None \<Rightarrow> s\<lparr>AvailableInput := None\<rparr>
           | Some aci \<Rightarrow>
               (put_input a None
                 (if oci_size aci > BUFWATERMARK then s else s\<lparr>FreeInputs := aci # FreeInputs s\<rparr>))
               \<lparr>AvailableInput := None\<rparr>))"

definition obtain_input :: "os_env \<Rightarrow> nat \<Rightarrow> io_state \<Rightarrow> (ConnectionInput \<times> io_state) option" where
  "obtain_input E c s = (case oc_input (osPrivate s c) of Some oci \<Rightarrow> Some (oci, s)
     | None \<Rightarrow> (case FreeInputs s of
           oci # rest \<Rightarrow> Some (oci, put_input c (Some oci) (s\<lparr>FreeInputs := rest\<rparr>))
         | [] \<Rightarrow> (case AllocateInputBuffer E of None \<Rightarrow> None
             | Some oci \<Rightarrow> Some (oci, put_input c (Some oci) s))))"

definition advance_request :: "ConnectionInput \<Rightarrow> ConnectionInput" where
  "advance_request oci = oci\<lparr>bufptr := bufptr oci + lenLastReq oci\<rparr>"

definition in_buffer :: "ConnectionInput \<Rightarrow> nat" where
  "in_buffer oci = bufcnt oci - bufptr oci"

subsection \<open>ReadRequestFromClient\<close>

text \<open>
  The length in words of the request at \<open>bufptr\<close>, and whether it is a big request and whether
  the header is still incomplete.
\<close>

definition request_words :: "io_state \<Rightarrow> nat \<Rightarrow> ConnectionInput \<Rightarrow> nat \<Rightarrow> CARD32 \<times> bool \<times> bool" where
  "request_words s c oci gotnow =
     (let n = get_req_len s c (buffer oci) (bufptr oci)
      in if n = 0 \<and> big_requests (io_clients s c)
         then (if gotnow < sz_xBigReq then (of_nat (sz_xBigReq div 4), True, True)
               else (get_big_req_len s c (buffer oci) (bufptr oci), True, False))
         else (n, False, False))"

definition set_req_len :: "nat \<Rightarrow> CARD32 \<Rightarrow> io_state \<Rightarrow> io_state" where
  "set_req_len c n = put_client c (\<lambda>cl. cl\<lparr>client_req_len := n\<rparr>)"

text \<open>The bytes needed, the flags \<open>need_header\<close> and \<open>move_header\<close>, and the state.\<close>

definition first_look :: "nat \<Rightarrow> ConnectionInput \<Rightarrow> nat \<Rightarrow> io_state \<Rightarrow> CARD32 \<times> bool \<times> bool \<times> io_state" where
  "first_look c oci gotnow s =
     (if gotnow < sz_xReq then (of_nat sz_xReq, True, False, s)
      else (case request_words s c oci gotnow of
              (n, move, need) \<Rightarrow> (push_bit 2 n, need, move, set_req_len c n s)))"

text \<open>Room for the rest: the bytes that are there move to the front, and the block grows.\<close>

definition make_room :: "os_env \<Rightarrow> CARD32 \<Rightarrow> nat \<Rightarrow> ConnectionInput \<Rightarrow> ConnectionInput option" where
  "make_room E needed gotnow oci =
     (if gotnow = 0 \<or> bufptr oci + unat needed > oci_size oci then
        (let b = (if gotnow > 0 \<and> bufptr oci \<noteq> 0
                  then write_at (buffer oci) 0 (take gotnow (drop (bufptr oci) (buffer oci)))
                  else buffer oci)
         in if unat needed > oci_size oci
            then (if grow_ok E
                  then Some (oci\<lparr>buffer := realloc_block E b (unat needed), oci_size := unat needed,
                                 bufptr := 0, bufcnt := gotnow\<rparr>)
                  else None)
            else Some (oci\<lparr>buffer := b, bufptr := 0, bufcnt := gotnow\<rparr>))
      else Some oci)"

text \<open>After a huge request the block shrinks again.\<close>

definition shrink_buffer :: "os_env \<Rightarrow> CARD32 \<Rightarrow> nat \<Rightarrow> ConnectionInput \<Rightarrow> ConnectionInput" where
  "shrink_buffer E needed gotnow oci =
     (if oci_size oci > BUFWATERMARK \<and> bufcnt oci < BUFSIZE \<and> unat needed < BUFSIZE \<and> shrink_ok E
      then oci\<lparr>oci_size := BUFSIZE, buffer := realloc_block E (buffer oci) BUFSIZE,
               bufptr := bufcnt oci - gotnow\<rparr>
      else oci)"

text \<open>
  The branch that reads. An early return is \<open>Inl\<close>; otherwise the request is complete and the
  buffer, the bytes of it from \<open>bufptr\<close> on, the bytes needed and \<open>move_header\<close> are handed on.
\<close>

definition read_more ::
  "os_env \<Rightarrow> nat \<Rightarrow> ConnectionInput \<Rightarrow> nat \<Rightarrow> CARD32 \<Rightarrow> bool \<Rightarrow> bool \<Rightarrow> io_state \<Rightarrow>
   (int \<times> io_state) + (ConnectionInput \<times> nat \<times> CARD32 \<times> bool \<times> io_state)" where
  "read_more E c oci0 gotnow needed need_header move_header s =
     (let oci = oci0\<lparr>lenLastReq := 0\<rparr>;
          stop = (\<lambda>oci. Inl (- 1, YieldControlDeath (put_input c (Some oci) s)))
      in if unat needed > MAXBUFSIZE then stop oci
         else case make_room E needed gotnow oci of
           None \<Rightarrow> stop oci
         | Some oci1 \<Rightarrow>
             if \<not> trans_conn (osPrivate s c) then stop oci1
             else (case trans_read E (oci_size oci1 - bufcnt oci1) of
               Read_error \<Rightarrow> stop oci1
             | Read_again \<Rightarrow> Inl (0, YieldControlNoInput (oc_fd (osPrivate s c)) (put_input c (Some oci1) s))
             | Read_bytes d \<Rightarrow>
                 if d = [] then stop oci1
                 else
                   let oci2 = oci1\<lparr>buffer := write_at (buffer oci1) (bufcnt oci1) d,
                                   bufcnt := bufcnt oci1 + length d\<rparr>;
                       got = gotnow + length d;
                       oci3 = shrink_buffer E needed got oci2;
                       (needed', move, s') =
                         (if need_header \<and> got \<ge> unat needed
                          then (case request_words s c oci3 got of
                                  (n, m, _) \<Rightarrow> (push_bit 2 n, move_header \<or> m, set_req_len c n s))
                          else (needed, move_header, s))
                   in if got < unat needed'
                      then Inl (0, YieldControlNoInput (oc_fd (osPrivate s c)) (put_input c (Some oci3) s'))
                      else Inr (oci3, got, needed', move, s')))"

text \<open>
  The client keeps its place in \<open>ClientsWithInput\<close> only when a whole request follows the current
  one; a buffer with nothing left is offered to the others.
\<close>

definition whole_request_follows :: "io_state \<Rightarrow> nat \<Rightarrow> byte list \<Rightarrow> nat \<Rightarrow> nat \<Rightarrow> bool" where
  "whole_request_follows s c b p gotnow =
     (let r = push_bit 2 (get_req_len s c b p)
      in gotnow \<ge> unat r \<and>
         (r \<noteq> 0 \<or> big_requests (io_clients s c) \<and> gotnow \<ge> sz_xBigReq \<and>
                  gotnow \<ge> unat (push_bit 2 (get_big_req_len s c b p))))"

definition no_whole_request :: "nat \<Rightarrow> io_state \<Rightarrow> io_state" where
  "no_whole_request fd s =
     (if \<not> SmartScheduleDisable s then s\<lparr>ClientsWithInput := ClientsWithInput s - {fd}\<rparr>
      else YieldControlNoInput fd s)"

definition lookahead :: "nat \<Rightarrow> ConnectionInput \<Rightarrow> nat \<Rightarrow> nat \<Rightarrow> io_state \<Rightarrow> io_state" where
  "lookahead c oci needed gotnow s =
     (let fd = oc_fd (osPrivate s c)
      in if gotnow \<ge> sz_xReq then
           (if whole_request_follows s c (buffer oci) (bufptr oci + needed) gotnow
            then s\<lparr>ClientsWithInput := insert fd (ClientsWithInput s)\<rparr>
            else no_whole_request fd s)
         else no_whole_request fd (if gotnow = 0 then s\<lparr>AvailableInput := Some c\<rparr> else s))"

definition count_request :: "io_state \<Rightarrow> io_state" where
  "count_request s =
     (if SmartScheduleDisable s then
        (let s' = s\<lparr>timesThisConnection := timesThisConnection s + 1\<rparr>
         in if timesThisConnection s' \<ge> MAX_TIMES_PER then YieldControl s' else s')
      else s)"

text \<open>The header of a big request moves over its length, so that the request is contiguous.\<close>

definition move_request :: "ConnectionInput \<Rightarrow> ConnectionInput" where
  "move_request oci =
     (let d = sz_xBigReq - sz_xReq; p = bufptr oci
      in oci\<lparr>bufptr := p + d, buffer := write_at (buffer oci) (p + d) (take sz_xReq (drop p (buffer oci))),
             lenLastReq := lenLastReq oci - d\<rparr>)"

definition shorten :: "io_client \<Rightarrow> io_client" where
  "shorten cl = cl\<lparr>client_req_len :=
     (if client_req_len cl > of_nat ((sz_xBigReq - sz_xReq) div 4)
      then client_req_len cl - of_nat ((sz_xBigReq - sz_xReq) div 4) else 0)\<rparr>"

definition finish_request ::
  "nat \<Rightarrow> ConnectionInput \<Rightarrow> nat \<Rightarrow> CARD32 \<Rightarrow> bool \<Rightarrow> io_state \<Rightarrow> int \<times> io_state" where
  "finish_request c oci gotnow needed0 move s =
     (let needed = (if needed0 = 0
                    then (if big_requests (io_clients s c) then sz_xBigReq else sz_xReq)
                    else unat needed0);
          oci1 = oci\<lparr>lenLastReq := needed\<rparr>;
          s1 = count_request (lookahead c oci1 needed (gotnow - needed) s);
          (oci2, s2) = (if move then (move_request oci1, put_client c shorten s1) else (oci1, s1))
      in (int needed, put_client c (\<lambda>cl. cl\<lparr>requestBuffer := bufptr oci2\<rparr>) (put_input c (Some oci2) s2)))"

definition ReadRequestFromClient :: "os_env \<Rightarrow> nat \<Rightarrow> io_state \<Rightarrow> int \<times> io_state" where
  "ReadRequestFromClient E c s0 =
     (let s = release_available c s0
      in case obtain_input E c s of
           None \<Rightarrow> (- 1, YieldControlDeath s)
         | Some (oci0, s1) \<Rightarrow>
             let oci = advance_request oci0; gotnow = in_buffer oci;
                 (needed, need_header, move_header, s2) = first_look c oci gotnow s1
             in if gotnow < unat needed
                then (case read_more E c oci gotnow needed need_header move_header s2 of
                        Inl r \<Rightarrow> r
                      | Inr (oci', got, needed', move, s3) \<Rightarrow> finish_request c oci' got needed' move s3)
                else finish_request c oci gotnow needed move_header s2)"

subsection \<open>InsertFakeRequest\<close>

definition grow_for :: "os_env \<Rightarrow> nat \<Rightarrow> nat \<Rightarrow> ConnectionInput \<Rightarrow> ConnectionInput option" where
  "grow_for E gotnow count oci =
     (if gotnow + count > oci_size oci
      then (if grow_ok E
            then Some (oci\<lparr>oci_size := gotnow + count, buffer := realloc_block E (buffer oci) (gotnow + count),
                           bufptr := bufcnt oci - gotnow\<rparr>)
            else None)
      else Some oci)"

definition splice :: "byte list \<Rightarrow> nat \<Rightarrow> ConnectionInput \<Rightarrow> ConnectionInput" where
  "splice data gotnow oci =
     (let count = length data;
          oci1 = (if count > bufptr oci then
                    (let moveup = count - bufptr oci
                     in oci\<lparr>buffer := (if gotnow > 0 then write_at (buffer oci) (bufptr oci + moveup)
                                         (take gotnow (drop (bufptr oci) (buffer oci))) else buffer oci),
                            bufptr := bufptr oci + moveup, bufcnt := bufcnt oci + moveup\<rparr>)
                  else oci)
      in oci1\<lparr>buffer := write_at (buffer oci1) (bufptr oci1 - count) data, bufptr := bufptr oci1 - count\<rparr>)"

definition InsertFakeRequest :: "os_env \<Rightarrow> nat \<Rightarrow> byte list \<Rightarrow> io_state \<Rightarrow> bool \<times> io_state" where
  "InsertFakeRequest E c data s0 =
     (let s = release_available c s0; fd = oc_fd (osPrivate s c)
      in case obtain_input E c s of
           None \<Rightarrow> (False, s)
         | Some (oci0, s1) \<Rightarrow>
             let oci = (advance_request oci0)\<lparr>lenLastReq := 0\<rparr>; gotnow = in_buffer oci
             in (case grow_for E gotnow (length data) oci of
                  None \<Rightarrow> (False, put_input c (Some oci) s1)
                | Some oci1 \<Rightarrow>
                    let oci2 = splice data gotnow oci1; got = gotnow + length data;
                        s2 = put_input c (Some oci2) s1
                    in (True, if got \<ge> sz_xReq \<and>
                                 got \<ge> unat (push_bit 2 (get_req_len s2 c (buffer oci2) (bufptr oci2)))
                              then s2\<lparr>ClientsWithInput := insert fd (ClientsWithInput s2)\<rparr>
                              else YieldControlNoInput fd s2)))"

subsection \<open>ResetCurrentRequest\<close>

text \<open>The four bytes of a number in the byte order of the machine.\<close>

definition card32_bytes :: "bool \<Rightarrow> CARD32 \<Rightarrow> byte list" where
  "card32_bytes msb x =
     (let l = [ucast x, ucast (drop_bit 8 x), ucast (drop_bit 16 x), ucast (drop_bit 24 x)]
      in if msb then rev l else l)"

text \<open>
  The header moves back in front of a big request and its length is stored again; \<open>swapl\<close>
  reverses the four bytes.
\<close>

definition restore_big :: "nat \<Rightarrow> io_state \<Rightarrow> ConnectionInput \<Rightarrow> ConnectionInput" where
  "restore_big c s oci =
     (let p = bufptr oci - (sz_xBigReq - sz_xReq);
          b = write_at (buffer oci) p (take sz_xReq (drop (bufptr oci) (buffer oci)));
          l = card32_bytes (host_msb s) (client_req_len (io_clients s c))
      in oci\<lparr>bufptr := p, buffer := write_at b (p + 4) (if client_swapped (io_clients s c) then rev l else l)\<rparr>)"

definition ResetCurrentRequest :: "nat \<Rightarrow> io_state \<Rightarrow> io_state" where
  "ResetCurrentRequest c s0 = (case oc_input (osPrivate s0 c) of None \<Rightarrow> s0
     | Some oci0 \<Rightarrow>
         let fd = oc_fd (osPrivate s0 c);
             s = (if AvailableInput s0 = Some c then s0\<lparr>AvailableInput := None\<rparr> else s0);
             oci = oci0\<lparr>lenLastReq := 0\<rparr>; gotnow = in_buffer oci
         in if gotnow < sz_xReq then YieldControlNoInput fd (put_input c (Some oci) s)
            else
              let needed = get_req_len s c (buffer oci) (bufptr oci);
                  oci1 = (if needed = 0 \<and> big_requests (io_clients s c) then restore_big c s oci else oci);
                  s1 = put_input c (Some oci1) s
              in if gotnow \<ge> 4 * unat needed
                 then YieldControl
                        (if fd \<in> AllClients s1
                         then s1\<lparr>ClientsWithInput := insert fd (ClientsWithInput s1)\<rparr>
                         else s1\<lparr>IgnoredClientsWithInput := insert fd (IgnoredClientsWithInput s1)\<rparr>)
                 else YieldControlNoInput fd s1)"

subsection \<open>PeekNextRequest and SkipRequests\<close>

text \<open>
  Offsets into the buffer stand for the pointers. The length of a request in bytes, with the
  big length whenever the short one is zero. The tests against the sizes of the headers are
  unsigned, so a negative \<open>gotnow\<close> passes them.
\<close>

definition peek_length :: "io_state \<Rightarrow> nat \<Rightarrow> byte list \<Rightarrow> nat \<Rightarrow> CARD32" where
  "peek_length s c b p =
     (let n = get_req_len s c b p in push_bit 2 (if n = 0 then get_big_req_len s c b p else n))"

definition PeekNextRequest :: "nat option \<Rightarrow> nat \<Rightarrow> io_state \<Rightarrow> nat option" where
  "PeekNextRequest req c s = (case oc_input (osPrivate s c) of None \<Rightarrow> None
     | Some oci \<Rightarrow>
         let pnextreq = (case req of
               None \<Rightarrow> requestBuffer (io_clients s c) + 4 * unat (client_req_len (io_clients s c))
             | Some r \<Rightarrow> r + unat (peek_length s c (buffer oci) r));
             gotnow = int (bufcnt oci) - int pnextreq;
             n = get_req_len s c (buffer oci) pnextreq
         in if 0 \<le> gotnow \<and> gotnow < int sz_xReq then None
            else if n = 0 \<and> 0 \<le> gotnow \<and> gotnow < int sz_xBigReq then None
            else if gotnow < sint (peek_length s c (buffer oci) pnextreq) then None
            else Some pnextreq)"

definition SkipRequests :: "nat \<Rightarrow> nat \<Rightarrow> nat \<Rightarrow> io_state \<Rightarrow> io_state" where
  "SkipRequests req c numskipped s0 = (case oc_input (osPrivate s0 c) of None \<Rightarrow> s0
     | Some oci \<Rightarrow>
         let s = put_client c (\<lambda>cl. cl\<lparr>client_sequence := client_sequence cl + numskipped\<rparr>) s0;
             reqlen = unat (peek_length s c (buffer oci) req);
             s1 = put_input c (Some (oci\<lparr>bufptr := req, lenLastReq := reqlen\<rparr>)) s
         in if req + reqlen = bufcnt oci
            then YieldControlNoInput (oc_fd (osPrivate s c)) (s1\<lparr>AvailableInput := Some c\<rparr>)
            else s1)"

end
