(* ===== verification/RequestStream.thy ===== *)
theory RequestStream
  imports RequestInput
begin

text \<open>
  The stream of requests. The bytes of a client that have been read and not handed out are its
  \<open>pending\<close> bytes; \<open>framing\<close> says how many bytes the protocol gives to the request at the start
  of a stream. \<open>io_wf\<close> is the invariant of the
  buffers. The lemmas relate the buffers to these streams.
\<close>

subsection \<open>Pending bytes and the invariant\<close>

definition unread :: "ConnectionInput \<Rightarrow> byte list" where
  "unread oci = take (in_buffer oci) (drop (bufptr oci) (buffer oci))"

definition pending :: "io_state \<Rightarrow> nat \<Rightarrow> byte list" where
  "pending s c = (case oc_input (osPrivate s c) of None \<Rightarrow> [] | Some oci \<Rightarrow> unread (advance_request oci))"

definition input_ok :: "ConnectionInput \<Rightarrow> bool" where
  "input_ok oci \<longleftrightarrow> bufptr oci + lenLastReq oci \<le> bufcnt oci \<and> bufcnt oci \<le> oci_size oci \<and>
     oci_size oci = length (buffer oci)"

definition io_wf :: "io_state \<Rightarrow> bool" where
  "io_wf s \<longleftrightarrow>
     (\<forall>c oci. oc_input (osPrivate s c) = Some oci \<longrightarrow> input_ok oci) \<and>
     (\<forall>c. AvailableInput s = Some c \<longrightarrow> oc_input (osPrivate s c) \<noteq> None \<and> pending s c = []) \<and>
     (\<forall>oci \<in> set (FreeInputs s). input_ok oci \<and> unread (advance_request oci) = [])"

text \<open>\<open>read\<close> never returns more bytes than it was asked for.\<close>

definition read_bounded :: "os_env \<Rightarrow> bool" where
  "read_bounded E \<longleftrightarrow> (\<forall>n d. trans_read E n = Read_bytes d \<longrightarrow> length d \<le> n)"

lemma in_buffer_simps [simp]:
  "in_buffer (advance_request oci) = bufcnt oci - (bufptr oci + lenLastReq oci)"
  "in_buffer (oci\<lparr>lenLastReq := n\<rparr>) = in_buffer oci"
  by (simp_all add: in_buffer_def advance_request_def)

lemma advance_sel [simp]:
  "bufptr (advance_request oci) = bufptr oci + lenLastReq oci"
  "buffer (advance_request oci) = buffer oci"
  "bufcnt (advance_request oci) = bufcnt oci"
  "oci_size (advance_request oci) = oci_size oci"
  by (simp_all add: advance_request_def)

lemma length_unread: "bufcnt oci \<le> length (buffer oci) \<Longrightarrow> length (unread oci) = in_buffer oci"
  by (simp add: unread_def in_buffer_def)

lemma input_okI:
  "bufptr oci + lenLastReq oci \<le> bufcnt oci \<Longrightarrow> bufcnt oci \<le> oci_size oci \<Longrightarrow>
   oci_size oci = length (buffer oci) \<Longrightarrow> input_ok oci"
  by (simp add: input_ok_def)

lemma unread_advance_Nil: "input_ok oci \<Longrightarrow> unread (advance_request oci) = [] \<longleftrightarrow> bufptr oci + lenLastReq oci = bufcnt oci"
  by (auto simp: unread_def input_ok_def)

lemma put_simps [simp]:
  "osPrivate (put_input c i s) = (osPrivate s)(c := (osPrivate s c)\<lparr>oc_input := i\<rparr>)"
  "osPrivate (put_client c f s) = osPrivate s"
  "io_clients (put_input c i s) = io_clients s"
  "io_clients (put_client c f s) = (io_clients s)(c := f (io_clients s c))"
  "AvailableInput (put_input c i s) = AvailableInput s"
  "AvailableInput (put_client c f s) = AvailableInput s"
  "FreeInputs (put_input c i s) = FreeInputs s"
  "FreeInputs (put_client c f s) = FreeInputs s"
  "host_msb (put_input c i s) = host_msb s"
  "host_msb (put_client c f s) = host_msb s"
  "ClientsWithInput (put_input c i s) = ClientsWithInput s"
  "ClientsWithInput (put_client c f s) = ClientsWithInput s"
  "AllClients (put_input c i s) = AllClients s"
  "AllClients (put_client c f s) = AllClients s"
  "SmartScheduleDisable (put_input c i s) = SmartScheduleDisable s"
  "SmartScheduleDisable (put_client c f s) = SmartScheduleDisable s"
  by (simp_all add: put_input_def put_comm_def put_client_def)

text \<open>
  What the other components of the state may do without touching the buffers: a state with the
  same connections, spare buffers and available buffer is as good.
\<close>

definition same_input :: "io_state \<Rightarrow> io_state \<Rightarrow> bool" where
  "same_input s s' \<longleftrightarrow> osPrivate s' = osPrivate s \<and> AvailableInput s' = AvailableInput s \<and>
     FreeInputs s' = FreeInputs s"

lemma same_input_wf: "same_input s s' \<Longrightarrow> io_wf s' = io_wf s"
  by (simp add: same_input_def io_wf_def pending_def)

lemma same_input_pending: "same_input s s' \<Longrightarrow> pending s' c = pending s c"
  by (simp add: same_input_def pending_def)

lemma same_input_intros:
  "same_input s s"
  "same_input s (YieldControl s)" "same_input s (YieldControlNoInput fd s)"
  "same_input s (YieldControlDeath s)" "same_input s (no_whole_request fd s)"
  "same_input s (count_request s)" "same_input s (put_client c f s)" "same_input s (set_req_len c n s)"
  by (simp_all add: same_input_def YieldControl_def YieldControlNoInput_def YieldControlDeath_def
      no_whole_request_def count_request_def set_req_len_def Let_def)

lemma yield_sel [simp]:
  "osPrivate (YieldControl s) = osPrivate s" "osPrivate (YieldControlNoInput fd s) = osPrivate s"
  "osPrivate (YieldControlDeath s) = osPrivate s" "osPrivate (no_whole_request fd s) = osPrivate s"
  "osPrivate (count_request s) = osPrivate s" "osPrivate (set_req_len c n s) = osPrivate s"
  "io_clients (YieldControl s) = io_clients s" "io_clients (YieldControlNoInput fd s) = io_clients s"
  "io_clients (YieldControlDeath s) = io_clients s" "io_clients (no_whole_request fd s) = io_clients s"
  "io_clients (count_request s) = io_clients s"
  "io_clients (set_req_len c n s) = (io_clients s)(c := (io_clients s c)\<lparr>client_req_len := n\<rparr>)"
  "host_msb (YieldControl s) = host_msb s" "host_msb (YieldControlNoInput fd s) = host_msb s"
  "host_msb (YieldControlDeath s) = host_msb s" "host_msb (no_whole_request fd s) = host_msb s"
  "host_msb (count_request s) = host_msb s" "host_msb (set_req_len c n s) = host_msb s"
  "AvailableInput (YieldControl s) = AvailableInput s"
  "AvailableInput (YieldControlNoInput fd s) = AvailableInput s"
  "AvailableInput (YieldControlDeath s) = AvailableInput s"
  "AvailableInput (no_whole_request fd s) = AvailableInput s"
  "AvailableInput (count_request s) = AvailableInput s"
  "AvailableInput (set_req_len c n s) = AvailableInput s"
  "FreeInputs (YieldControl s) = FreeInputs s" "FreeInputs (YieldControlNoInput fd s) = FreeInputs s"
  "FreeInputs (YieldControlDeath s) = FreeInputs s" "FreeInputs (no_whole_request fd s) = FreeInputs s"
  "FreeInputs (count_request s) = FreeInputs s" "FreeInputs (set_req_len c n s) = FreeInputs s"
  by (simp_all add: YieldControl_def YieldControlNoInput_def YieldControlDeath_def
      no_whole_request_def count_request_def set_req_len_def Let_def)

lemma pending_put_input:
  "pending (put_input c (Some oci) s) c' =
     (if c' = c then unread (advance_request oci) else pending s c')"
  by (simp add: pending_def)

lemma io_wf_put_input:
  "io_wf s \<Longrightarrow> input_ok oci \<Longrightarrow>
   AvailableInput s = Some c \<longrightarrow> unread (advance_request oci) = [] \<Longrightarrow>
   io_wf (put_input c (Some oci) s)"
  unfolding io_wf_def pending_put_input by auto

subsection \<open>Sharing of buffers\<close>

lemma release_available_facts:
  assumes "io_wf s"
  shows "io_wf (release_available c s)" "pending (release_available c s) c' = pending s c'"
    "AvailableInput (release_available c s) = None"
    "io_clients (release_available c s) = io_clients s" "host_msb (release_available c s) = host_msb s"
    "trans_conn (osPrivate (release_available c s) c') = trans_conn (osPrivate s c')"
    "oc_fd (osPrivate (release_available c s) c') = oc_fd (osPrivate s c')"
    "oc_input (osPrivate (release_available c s) c) = oc_input (osPrivate s c)"
  using assms
  by (auto simp: release_available_def io_wf_def pending_def split: option.splits)

lemma AllocateInputBuffer_ok:
  "AllocateInputBuffer E = Some oci \<Longrightarrow> input_ok oci \<and> unread (advance_request oci) = []"
  by (auto simp: AllocateInputBuffer_def input_ok_def unread_def split: if_splits)

lemma obtain_input_facts:
  assumes "io_wf s" "AvailableInput s = None" "obtain_input E c s = Some (oci, s1)"
  shows "io_wf s1" "pending s1 c' = pending s c'" "AvailableInput s1 = None"
    "oc_input (osPrivate s1 c) = Some oci" "input_ok oci" "unread (advance_request oci) = pending s c"
    "io_clients s1 = io_clients s" "host_msb s1 = host_msb s"
    "trans_conn (osPrivate s1 c') = trans_conn (osPrivate s c')"
    "oc_fd (osPrivate s1 c') = oc_fd (osPrivate s c')"
  using assms AllocateInputBuffer_ok [of E]
  by (auto simp: obtain_input_def io_wf_def pending_def split: option.splits list.splits if_splits)

lemma obtain_input_total: "malloc_ok E \<Longrightarrow> obtain_input E c s \<noteq> None"
  by (auto simp: obtain_input_def AllocateInputBuffer_def split: option.splits list.splits)

subsection \<open>Where the protocol cuts the stream\<close>

text \<open>
  The request at the start of a stream, in the byte order \<open>msb\<close> of the client. A length of zero
  words is the header alone, or announces a big request when these are enabled; its length of
  zero is the longer header alone. \<open>Incomplete k\<close>: the next \<open>k\<close> bytes are needed. A big request of
  one word, or whose bytes cannot be counted in 32 bits, is \<open>Malformed\<close>.
\<close>

datatype framing = Incomplete nat | Request nat | Malformed

definition upto :: "nat \<Rightarrow> byte list \<Rightarrow> framing" where
  "upto k bs = (if k \<le> length bs then Request k else Incomplete k)"

definition is_big :: "bool \<Rightarrow> bool \<Rightarrow> byte list \<Rightarrow> bool" where
  "is_big msb big bs \<longleftrightarrow> big \<and> card16 msb bs 2 = 0"

definition framing :: "bool \<Rightarrow> bool \<Rightarrow> byte list \<Rightarrow> framing" where
  "framing msb big bs =
     (if length bs < 4 then Incomplete 4
      else if is_big msb big bs then
        (if length bs < 8 then Incomplete 8
         else let k = unat (card32 msb bs 4)
              in if k = 0 then Request 8 else if k = 1 \<or> k \<ge> 2 ^ 30 then Malformed else upto (4 * k) bs)
      else if card16 msb bs 2 = 0 then Request 4
      else upto (4 * unat (card16 msb bs 2)) bs)"

text \<open>What the handler of the request sees: a big request without its length.\<close>

definition contents :: "bool \<Rightarrow> bool \<Rightarrow> byte list \<Rightarrow> nat \<Rightarrow> byte list" where
  "contents msb big bs k = (if is_big msb big bs then take 4 bs @ take (k - 8) (drop 8 bs) else take k bs)"

text \<open>What it may read of the buffer: \<open>req_len\<close> words, and the header in any case.\<close>

definition request_bytes :: "io_state \<Rightarrow> nat \<Rightarrow> nat" where
  "request_bytes s c = max 4 (4 * unat (client_req_len (io_clients s c)))"

definition current_request :: "io_state \<Rightarrow> nat \<Rightarrow> byte list option" where
  "current_request s c = (case oc_input (osPrivate s c) of None \<Rightarrow> None
     | Some oci \<Rightarrow>
         if requestBuffer (io_clients s c) + request_bytes s c \<le> bufcnt oci
         then Some (take (request_bytes s c) (drop (requestBuffer (io_clients s c)) (buffer oci)))
         else None)"

definition msb_client :: "io_state \<Rightarrow> nat \<Rightarrow> bool" where
  "msb_client s c \<longleftrightarrow> host_msb s \<noteq> client_swapped (io_clients s c)"

definition big_client :: "io_state \<Rightarrow> nat \<Rightarrow> bool" where
  "big_client s c = big_requests (io_clients s c)"

text \<open>Numbers in the buffer are numbers in the stream.\<close>

lemma card16_cong: "b ! i = b' ! j \<Longrightarrow> b ! Suc i = b' ! Suc j \<Longrightarrow> card16 m b i = card16 m b' j"
  by (simp add: card16_def)

lemma card32_cong:
  assumes "\<And>k. k < 4 \<Longrightarrow> b ! (i + k) = b' ! (j + k)"
  shows "card32 m b i = card32 m b' j"
proof -
  have "card16 m' b i = card16 m' b' j" "card16 m' b (i + 2) = card16 m' b' (j + 2)" for m'
    using assms [of 0] assms [of 1] assms [of 2] assms [of 3]
    by (auto intro!: card16_cong simp: numeral_3_eq_3)
  then show ?thesis by (simp only: card32_def)
qed

lemma unread_nth:
  "bufcnt oci \<le> length (buffer oci) \<Longrightarrow> i < in_buffer oci \<Longrightarrow> unread oci ! i = buffer oci ! (bufptr oci + i)"
  by (simp add: unread_def in_buffer_def)

lemma get_req_len_unread:
  assumes "bufcnt oci \<le> length (buffer oci)" "4 \<le> in_buffer oci"
  shows "get_req_len s c (buffer oci) (bufptr oci) = ucast (card16 (msb_client s c) (unread oci) 2)"
proof -
  have "card16 m (buffer oci) (bufptr oci + 2) = card16 m (unread oci) 2" for m
    using assms by (intro card16_cong) (simp_all add: unread_nth numeral_3_eq_3)
  then show ?thesis
    by (auto simp: get_req_len_def msb_client_def lswaps_card16)
qed

lemma get_big_req_len_unread:
  assumes "bufcnt oci \<le> length (buffer oci)" "8 \<le> in_buffer oci"
  shows "get_big_req_len s c (buffer oci) (bufptr oci) = card32 (msb_client s c) (unread oci) 4"
proof -
  have "card32 m (buffer oci) (bufptr oci + 4) = card32 m (unread oci) 4" for m
    using assms by (intro card32_cong) (simp add: unread_nth add.assoc)
  then show ?thesis
    by (auto simp: get_big_req_len_def msb_client_def lswapl_card32)
qed

lemma unat_words: "unat (x :: CARD32) < 2 ^ 30 \<Longrightarrow> unat (push_bit 2 x) = 4 * unat x"
  by (simp add: push_bit_eq_mult unat_word_ariths)

lemma card16_bound: "unat (x :: CARD16) < 65536"
proof -
  have "unat x < 2 ^ LENGTH(16)" by (rule unsigned_less)
  then show ?thesis by simp
qed

lemma unat_card16: "unat (ucast (x :: CARD16) :: CARD32) = unat x"
  using card16_bound [of x] by (simp add: unsigned_ucast_eq take_bit_nat_eq_self)

lemma card16_words: "unat (push_bit 2 (ucast (x :: CARD16) :: CARD32)) = 4 * unat x"
  using card16_bound [of x] by (simp add: unat_words unat_card16)

lemma ucast_zero_iff: "(ucast (x :: CARD16) :: CARD32) = 0 \<longleftrightarrow> x = 0"
  using unat_card16 [of x] by (metis unat_eq_zero unsigned_0)

lemma zero_words: "unat (n :: CARD32) < 2 ^ 30 \<Longrightarrow> push_bit 2 n = 0 \<longleftrightarrow> n = 0"
  using unat_words [of n] by (metis mult_eq_0_iff unat_eq_zero unsigned_0 zero_neq_numeral)

text \<open>What \<open>request_words\<close> reads, in terms of the stream.\<close>

definition words_at :: "bool \<Rightarrow> bool \<Rightarrow> byte list \<Rightarrow> CARD32 \<times> bool \<times> bool" where
  "words_at msb big bs =
     (if is_big msb big bs
      then (if length bs < 8 then (2, True, True) else (card32 msb bs 4, True, False))
      else (ucast (card16 msb bs 2), False, False))"

lemma request_words_unread:
  assumes "bufcnt oci \<le> length (buffer oci)" "4 \<le> in_buffer oci"
  shows "request_words s c oci (in_buffer oci) = words_at (msb_client s c) (big_client s c) (unread oci)"
  using assms
  by (auto simp: request_words_def words_at_def is_big_def big_client_def sz_xBigReq_def Let_def
      get_req_len_unread get_big_req_len_unread length_unread ucast_zero_iff)

lemma words_at_big:
  assumes "framing msb big bs = Request k" "words_at msb big bs = (n, move, need)" "is_big msb big bs"
  shows "move" "\<not> need" "big" "k \<le> length bs" "8 \<le> length bs" "unat n < 2 ^ 30"
    "unat n = 0 \<and> k = 8 \<or> 2 \<le> unat n \<and> k = 4 * unat n"
  using assms by (auto simp: framing_def words_at_def upto_def is_big_def Let_def split: if_splits)

lemma words_at_small:
  assumes "framing msb big bs = Request k" "words_at msb big bs = (n, move, need)" "\<not> is_big msb big bs"
  shows "\<not> move" "\<not> need" "k \<le> length bs" "unat n < 2 ^ 30" "4 \<le> length bs"
    "unat n = 0 \<and> \<not> big \<and> k = 4 \<or> 1 \<le> unat n \<and> k = 4 * unat n"
proof -
  let ?x = "card16 msb bs 2"
  have x: "unat ?x = 0 \<and> ?x = 0 \<or> 1 \<le> unat ?x \<and> ?x \<noteq> 0"
    by (cases "?x = 0") (simp_all add: Suc_le_eq unat_gt_0)
  show "\<not> move" "\<not> need" "k \<le> length bs" "unat n < 2 ^ 30" "4 \<le> length bs"
    "unat n = 0 \<and> \<not> big \<and> k = 4 \<or> 1 \<le> unat n \<and> k = 4 * unat n"
    using x assms card16_bound [of ?x]
    by (auto simp: framing_def words_at_def upto_def is_big_def unat_card16 Let_def split: if_splits)
qed

lemma words_at_Request:
  assumes "framing msb big bs = Request k" "words_at msb big bs = (n, move, need)"
  shows "4 \<le> length bs" "move = is_big msb big bs" "\<not> need" "unat n < 2 ^ 30"
    "unat (push_bit 2 n) \<le> length bs" "k \<le> length bs" "4 \<le> k" "move \<Longrightarrow> 8 \<le> k"
    "(if push_bit 2 n = 0 then if big then 8 else 4 else unat (push_bit 2 n)) = k"
    "max 4 (4 * unat (if move then if n > 1 then n - 1 else 0 else n)) = (if move then k - 4 else k)"
proof -
  note F = words_at_big [OF assms] words_at_small [OF assms]
  show n: "unat n < 2 ^ 30" and "4 \<le> length bs" "move = is_big msb big bs" "\<not> need"
    "k \<le> length bs" "4 \<le> k" "move \<Longrightarrow> 8 \<le> k"
    using F by (cases "is_big msb big bs"; force)+
  show "unat (push_bit 2 n) \<le> length bs" 
    "(if push_bit 2 n = 0 then if big then 8 else 4 else unat (push_bit 2 n)) = k"
    using F n by (cases "is_big msb big bs"; force simp: unat_words zero_words unat_eq_0)+
  have "n > 1 \<longleftrightarrow> unat n > 1" by (simp add: word_less_nat_alt)
  moreover have "unat (n - 1) = unat n - 1" if "unat n > 1"
    using that by (intro unat_minus_one) auto
  ultimately show "max 4 (4 * unat (if move then if n > 1 then n - 1 else 0 else n)) = (if move then k - 4 else k)"
    using F by (cases "is_big msb big bs"; auto)
qed

lemma words_at_Incomplete:
  assumes "framing msb big bs = Incomplete k" "4 \<le> length bs" "words_at msb big bs = (n, move, need)"
  shows "move = is_big msb big bs" "need \<longleftrightarrow> move \<and> length bs < 8" "unat (push_bit 2 n) = k" "length bs < k"
  using assms
  by (auto simp: framing_def words_at_def upto_def Let_def unat_words card16_words split: if_splits)

subsection \<open>Blocks of memory\<close>

lemma length_write_at: "p + length xs \<le> length b \<Longrightarrow> length (write_at b p xs) = length b"
  by (simp add: write_at_def)

lemma drop_write_at: "p + length xs \<le> q \<Longrightarrow> p \<le> length b \<Longrightarrow> drop q (write_at b p xs) = drop q b"
  by (simp add: write_at_def)

lemma drop_write_at_here: "p \<le> length b \<Longrightarrow> drop p (write_at b p xs) = xs @ drop (p + length xs) b"
  by (simp add: write_at_def)

lemma take_write_at: "q \<le> p \<Longrightarrow> p \<le> length b \<Longrightarrow> take q (write_at b p xs) = take q b"
  by (simp add: write_at_def)

lemma length_realloc [simp]: "length (realloc_block E b n) = n"
  by (simp add: realloc_block_def)

lemma take_realloc: "k \<le> n \<Longrightarrow> k \<le> length b \<Longrightarrow> take k (realloc_block E b n) = take k b"
  by (simp add: realloc_block_def)

lemma unread_split: "unread oci = drop (bufptr oci) (take (bufcnt oci) (buffer oci))"
  by (simp add: unread_def in_buffer_def drop_take)

end
