(* ===== verification/RequestProofs.thy ===== *)
theory RequestProofs
  imports RequestStream
begin

text \<open>
  \<open>ReadRequestFromClient\<close> cuts the stream of a client where the protocol does, wherever the
  transport cut it, and clients that share buffers do not disturb each other.
\<close>

subsection \<open>Handing out a request\<close>

lemma lookahead_sel [simp]:
  "osPrivate (lookahead c oci needed g s) = osPrivate s"
  "io_clients (lookahead c oci needed g s) = io_clients s"
  "host_msb (lookahead c oci needed g s) = host_msb s"
  "FreeInputs (lookahead c oci needed g s) = FreeInputs s"
  "AvailableInput (lookahead c oci needed g s) = (if g = 0 then Some c else AvailableInput s)"
  by (simp_all add: lookahead_def Let_def sz_xReq_def)

text \<open>The offsets are in order; the length of the last request is about to be stored.\<close>

definition base_ok :: "ConnectionInput \<Rightarrow> bool" where
  "base_ok oci \<longleftrightarrow> bufptr oci \<le> bufcnt oci \<and> bufcnt oci \<le> oci_size oci \<and> oci_size oci = length (buffer oci)"

lemma base_ok_input_ok: "base_ok oci \<Longrightarrow> lenLastReq oci = 0 \<Longrightarrow> input_ok oci"
  by (simp add: base_ok_def input_ok_def)

lemma base_ok_advance: "input_ok oci \<Longrightarrow> base_ok (advance_request oci)"
  by (simp add: base_ok_def input_ok_def)

lemma unread_lenLastReq [simp]: "unread (oci\<lparr>lenLastReq := n\<rparr>) = unread oci"
  by (simp add: unread_def)

lemma advance_zero: "lenLastReq oci = 0 \<Longrightarrow> unread (advance_request oci) = unread oci"
  by (simp add: unread_def in_buffer_def)

lemma base_ok_lenLastReq [simp]: "base_ok (oci\<lparr>lenLastReq := n\<rparr>) = base_ok oci"
  by (simp add: base_ok_def)

text \<open>The bytes the request takes, and the buffer afterwards.\<close>

definition taken_bytes :: "nat \<Rightarrow> CARD32 \<Rightarrow> io_state \<Rightarrow> nat" where
  "taken_bytes c n s = (if n = 0 then if big_client s c then 8 else 4 else unat n)"

definition finished :: "ConnectionInput \<Rightarrow> nat \<Rightarrow> bool \<Rightarrow> ConnectionInput" where
  "finished oci k move =
     (if move then move_request (oci\<lparr>lenLastReq := k\<rparr>) else oci\<lparr>lenLastReq := k\<rparr>)"

lemma finish_request_sel:
  assumes "finish_request c oci g n move s = (r, s')" and k: "k = taken_bytes c n s"
  shows "r = int k"
    "osPrivate s' = (osPrivate s)(c := (osPrivate s c)\<lparr>oc_input := Some (finished oci k move)\<rparr>)"
    "AvailableInput s' = (if g \<le> k then Some c else AvailableInput s)"
    "FreeInputs s' = FreeInputs s"
    "requestBuffer (io_clients s' c) = bufptr (finished oci k move)"
    "client_req_len (io_clients s' c) =
       (let m = client_req_len (io_clients s c) in if move then if m > 1 then m - 1 else 0 else m)"
  using assms
  by (auto simp: finish_request_def finished_def taken_bytes_def big_client_def Let_def shorten_def
      sz_xReq_def sz_xBigReq_def split: if_splits)

lemma move_request_facts:
  assumes "input_ok oci" "8 \<le> lenLastReq oci"
  shows "input_ok (move_request oci)" 
    "unread (advance_request (move_request oci)) = unread (advance_request oci)"
    "bufptr (move_request oci) + lenLastReq (move_request oci) = bufptr oci + lenLastReq oci"
    "bufcnt (move_request oci) = bufcnt oci"
    "k \<ge> 8 \<Longrightarrow> take (k - 4) (drop (bufptr (move_request oci)) (buffer (move_request oci))) =
       take 4 (drop (bufptr oci) (buffer oci)) @ take (k - 8) (drop (bufptr oci + 8) (buffer oci))"
  using assms
  by (auto simp: move_request_def input_ok_def sz_xReq_def sz_xBigReq_def unread_def length_write_at
      drop_write_at drop_write_at_here Let_def add.assoc)

lemma finished_facts:
  assumes "base_ok oci" "k \<le> in_buffer oci" "move \<Longrightarrow> 8 \<le> k"
  shows "input_ok (finished oci k move)"
    "unread (advance_request (finished oci k move)) = drop k (unread oci)"
    "bufptr (finished oci k move) + lenLastReq (finished oci k move) = bufptr oci + k"
    "bufcnt (finished oci k move) = bufcnt oci"
proof -
  let ?o = "oci\<lparr>lenLastReq := k\<rparr>"
  have o: "input_ok ?o" "unread (advance_request ?o) = drop k (unread oci)"
    using assms by (auto simp: base_ok_def input_ok_def in_buffer_def unread_def drop_take add.commute)
  then show "input_ok (finished oci k move)"
    "unread (advance_request (finished oci k move)) = drop k (unread oci)"
    "bufptr (finished oci k move) + lenLastReq (finished oci k move) = bufptr oci + k"
    "bufcnt (finished oci k move) = bufcnt oci"
    using move_request_facts [of ?o] assms(3) by (auto simp: finished_def)
qed

lemma finished_request:
  assumes ok: "base_ok oci" "k \<le> in_buffer oci" "4 \<le> k" "move = is_big m b (unread oci)" "move \<Longrightarrow> 8 \<le> k"
  shows "take (if move then k - 4 else k) (drop (bufptr (finished oci k move)) (buffer (finished oci k move)))
      = contents m b (unread oci) k"
    "bufptr (finished oci k move) + (if move then k - 4 else k) \<le> bufcnt (finished oci k move)"
proof -
  let ?o = "oci\<lparr>lenLastReq := k\<rparr>"
  have "input_ok ?o"
    using ok by (auto simp: base_ok_def input_ok_def in_buffer_def)
  then show "take (if move then k - 4 else k) (drop (bufptr (finished oci k move)) (buffer (finished oci k move)))
      = contents m b (unread oci) k"
    using move_request_facts(5) [of ?o k] ok
    by (auto simp: finished_def contents_def unread_def drop_take min_def add.commute)
  show "bufptr (finished oci k move) + (if move then k - 4 else k) \<le> bufcnt (finished oci k move)"
    using ok by (auto simp: finished_def move_request_def Let_def in_buffer_def sz_xReq_def sz_xBigReq_def)
qed

text \<open>
  A complete request at the start of the unread bytes is handed out. Up to the next call the buffer
  keeps it, before the bytes that follow: a big request without its length, which its header covers.
  When a whole request follows, the client is marked; the code does not notice a request that gives
  its length as zero words, unless big requests are enabled.
\<close>

definition noticed :: "bool \<Rightarrow> bool \<Rightarrow> byte list \<Rightarrow> bool" where
  "noticed m b bs \<longleftrightarrow> (\<exists>k. framing m b bs = Request k) \<and> (card16 m bs 2 = 0 \<longrightarrow> b)"

definition kept :: "bool \<Rightarrow> bool \<Rightarrow> byte list \<Rightarrow> ConnectionInput \<Rightarrow> bool" where
  "kept m b bs oci \<longleftrightarrow> unread oci = (if is_big m b bs then take 4 bs @ drop 8 bs else bs) \<and>
     (is_big m b bs \<longrightarrow> 4 \<le> bufptr oci)"

definition hands_out :: "nat \<Rightarrow> bool \<Rightarrow> bool \<Rightarrow> byte list \<Rightarrow> nat \<Rightarrow> int \<times> io_state \<Rightarrow> bool" where
  "hands_out c m b bs k = (\<lambda>(r, s'). r = int k \<and> pending s' c = drop k bs \<and>
     current_request s' c = Some (contents m b bs k) \<and>
     (\<exists>oci. oc_input (osPrivate s' c) = Some oci \<and> kept m b bs oci) \<and>
     (framing m b (drop k bs) \<noteq> Malformed \<longrightarrow>
        (oc_fd (osPrivate s' c) \<in> ClientsWithInput s' \<longleftrightarrow> noticed m b (drop k bs))))"

text \<open>The look at the next request.\<close>

lemma whole_request_follows_iff:
  assumes "bufcnt oci \<le> length (buffer oci)" "4 \<le> in_buffer oci"
    and ok: "framing (msb_client s c) (big_client s c) (unread oci) \<noteq> Malformed"
  shows "whole_request_follows s c (buffer oci) (bufptr oci) (in_buffer oci) \<longleftrightarrow>
     noticed (msb_client s c) (big_client s c) (unread oci)"
proof -
  let ?m = "msb_client s c" and ?b = "big_client s c" and ?u = "unread oci"
  have g: "in_buffer oci = length ?u" using assms(1) length_unread [of oci] by simp
  note G = get_req_len_unread [OF assms(1,2), of s c]
  show ?thesis
  proof (cases "card16 ?m ?u 2 = 0")
    case False
    then have nz: "push_bit 2 (ucast (card16 ?m ?u 2) :: CARD32) \<noteq> 0"
      using card16_words [of "card16 ?m ?u 2"] by (metis mult_eq_0_iff unat_eq_zero unsigned_0 zero_neq_numeral)
    then have "whole_request_follows s c (buffer oci) (bufptr oci) (in_buffer oci) \<longleftrightarrow>
        4 * unat (card16 ?m ?u 2) \<le> length ?u"
      by (simp add: whole_request_follows_def G card16_words g)
    then show ?thesis
      using False assms(2) by (simp add: noticed_def framing_def is_big_def upto_def g)
  next
    case True
    show ?thesis
    proof (cases "?b \<and> 8 \<le> length ?u")
      case False
      with True show ?thesis
        using assms(2)
        by (auto simp: whole_request_follows_def G g noticed_def framing_def is_big_def big_client_def sz_xBigReq_def)
    next
      case big: True
      have n: "unat (card32 ?m ?u 4) < 2 ^ 30"
        using ok True big by (auto simp: framing_def is_big_def Let_def split: if_splits)
      have "whole_request_follows s c (buffer oci) (bufptr oci) (in_buffer oci) \<longleftrightarrow>
          4 * unat (card32 ?m ?u 4) \<le> length ?u"
        using True big get_big_req_len_unread [OF assms(1), of s c] unat_words [OF n]
        by (simp add: whole_request_follows_def G g big_client_def sz_xBigReq_def)
      then show ?thesis
        using True big ok by (auto simp: noticed_def framing_def is_big_def upto_def Let_def split: if_splits)
    qed
  qed
qed

lemma lookahead_marks:
  assumes ok: "base_ok oci" "k \<le> in_buffer oci"
    and F: "framing (msb_client s c) (big_client s c) (drop k (unread oci)) \<noteq> Malformed"
  shows "oc_fd (osPrivate s c) \<in> ClientsWithInput (lookahead c (oci\<lparr>lenLastReq := n\<rparr>) k (in_buffer oci - k) s) \<longleftrightarrow>
     noticed (msb_client s c) (big_client s c) (drop k (unread oci))"
proof -
  let ?o = "oci\<lparr>bufptr := bufptr oci + k\<rparr>"
  have u: "unread ?o = drop k (unread oci)" "in_buffer ?o = in_buffer oci - k" "bufcnt ?o \<le> length (buffer ?o)"
    using ok by (auto simp: unread_def in_buffer_def drop_take base_ok_def add.commute)
  have l: "in_buffer oci - k = length (drop k (unread oci))"
    using ok length_unread [of oci] by (simp add: base_ok_def)
  show ?thesis
  proof (cases "in_buffer oci - k < 4")
    case True
    then have "\<not> noticed (msb_client s c) (big_client s c) (drop k (unread oci))"
      unfolding l by (auto simp: noticed_def framing_def)
    then show ?thesis
      using True by (auto simp: lookahead_def Let_def sz_xReq_def no_whole_request_def YieldControlNoInput_def)
  next
    case False
    then show ?thesis
      using whole_request_follows_iff [of ?o s c] u F
      by (auto simp: lookahead_def Let_def sz_xReq_def no_whole_request_def YieldControlNoInput_def)
  qed
qed

lemma count_request_mark [simp]: "ClientsWithInput (count_request s) = ClientsWithInput s"
  by (simp add: count_request_def YieldControl_def Let_def)

lemma finish_request_mark:
  "k = taken_bytes c n s \<Longrightarrow> ClientsWithInput (snd (finish_request c oci g n move s)) =
     ClientsWithInput (lookahead c (oci\<lparr>lenLastReq := k\<rparr>) k (g - k) s)"
  by (simp add: finish_request_def taken_bytes_def big_client_def sz_xReq_def sz_xBigReq_def Let_def split: prod.split)

lemma finished_kept:
  assumes ok: "base_ok oci" "k \<le> in_buffer oci" "4 \<le> k" "move = is_big m b (unread oci)"
    "move \<Longrightarrow> 8 \<le> in_buffer oci"
  shows "kept m b (unread oci) (finished oci k move)"
proof -
  let ?p = "bufptr oci" and ?g = "in_buffer oci" and ?b = "buffer oci"
  have g: "?p + ?g = bufcnt oci" "bufcnt oci \<le> length ?b"
    using ok(1) by (auto simp: base_ok_def in_buffer_def)
  have "take (?g - 4) (drop (?p + 4) (write_at ?b (?p + 4) (take 4 (drop ?p ?b)))) =
      take 4 (unread oci) @ drop 8 (unread oci)" if "8 \<le> ?g"
    using g ok(2) that
    by (cases "?g = 8") (auto simp add: drop_write_at_here unread_def drop_take min_def add.commute)
  moreover have "in_buffer (finished oci k move) = (if move then ?g - 4 else ?g)"
    by (simp add: finished_def move_request_def in_buffer_def Let_def sz_xReq_def sz_xBigReq_def)
  ultimately show ?thesis
    using ok by (simp add: kept_def unread_def [of "finished oci k move"])
      (auto simp: finished_def move_request_def Let_def sz_xReq_def sz_xBigReq_def unread_def)
qed

lemma finish_request_hands_out:
  assumes "base_ok oci" "unread oci = bs"
    and F: "framing (msb_client s c) (big_client s c) bs = Request k"
    and W: "words_at (msb_client s c) (big_client s c) bs = (n, move, need)"
    and n: "client_req_len (io_clients s c) = n"
  shows "hands_out c (msb_client s c) (big_client s c) bs k
           (finish_request c oci (length bs) (push_bit 2 n) move s)"
proof -
  obtain r s' where R: "finish_request c oci (length bs) (push_bit 2 n) move s = (r, s')"
    by (cases "finish_request c oci (length bs) (push_bit 2 n) move s")
  note W = words_at_Request [OF F W]
  have k: "k = taken_bytes c (push_bit 2 n) s" using W(9) by (simp add: taken_bytes_def)
  have len: "in_buffer oci = length bs" 
    using assms(1,2) length_unread [of oci] by (auto simp: base_ok_def)
  note S = finish_request_sel [OF R k]
  have "request_bytes s' c = (if move then k - 4 else k)"
    unfolding request_bytes_def S(6) n Let_def by (rule W(10))
  moreover note finished_request [OF assms(1), of k move "msb_client s c" "big_client s c"]
    finished_facts [OF assms(1), of k move]
  ultimately have "current_request s' c = Some (contents (msb_client s c) (big_client s c) bs k)"
    using W(2,6,7,8) S(2,5) assms(2) len by (simp add: current_request_def)
  moreover have "pending s' c = drop k bs"
    using finished_facts(2) [OF assms(1), of k move] W(6,8) S(2) assms(2) len by (simp add: pending_def)
  moreover have "kept (msb_client s c) (big_client s c) bs (finished oci k move)"
    using finished_kept [OF assms(1), of k move "msb_client s c" "big_client s c"]
      W(2,6,7) le_trans [OF W(8) W(6)] assms(2) len by simp
  moreover have "oc_fd (osPrivate s' c) \<in> ClientsWithInput s' \<longleftrightarrow>
      noticed (msb_client s c) (big_client s c) (drop k bs)"
    if "framing (msb_client s c) (big_client s c) (drop k bs) \<noteq> Malformed"
    using lookahead_marks [OF assms(1), of k s c k] finish_request_mark [OF k, of oci "length bs" move]
      W(6) len assms(2) that R S(2) by simp
  ultimately show ?thesis
    by (simp add: hands_out_def R S(1,2))
qed

subsection \<open>Reading more\<close>

definition compacted :: "nat \<Rightarrow> ConnectionInput \<Rightarrow> byte list" where
  "compacted g oci = (if g > 0 \<and> bufptr oci \<noteq> 0
     then write_at (buffer oci) 0 (take g (drop (bufptr oci) (buffer oci))) else buffer oci)"

lemma compacted_facts:
  assumes "base_ok oci" "g = in_buffer oci"
  shows "length (compacted g oci) = length (buffer oci)" "take g (compacted g oci) = unread oci"
    "g \<le> oci_size oci"
  using assms by (auto simp: compacted_def base_ok_def in_buffer_def unread_def write_at_def)

lemma make_room_eq:
  "make_room E needed g oci =
     (if g = 0 \<or> bufptr oci + unat needed > oci_size oci then
        if unat needed > oci_size oci
        then if grow_ok E
             then Some (oci\<lparr>buffer := realloc_block E (compacted g oci) (unat needed), oci_size := unat needed,
                            bufptr := 0, bufcnt := g\<rparr>)
             else None
        else Some (oci\<lparr>buffer := compacted g oci, bufptr := 0, bufcnt := g\<rparr>)
      else Some oci)"
  unfolding make_room_def compacted_def Let_def by (rule refl)

lemma make_room_cases:
  assumes "make_room E needed g oci = Some oci1"
  obtains "bufptr oci + unat needed \<le> oci_size oci" "oci1 = oci"
  | "oci_size oci < unat needed"
    "oci1 = oci\<lparr>buffer := realloc_block E (compacted g oci) (unat needed), oci_size := unat needed,
                bufptr := 0, bufcnt := g\<rparr>"
  | "unat needed \<le> oci_size oci" "oci1 = oci\<lparr>buffer := compacted g oci, bufptr := 0, bufcnt := g\<rparr>"
proof (cases "g = 0 \<or> bufptr oci + unat needed > oci_size oci")
  case True
  show ?thesis
  proof (cases "unat needed > oci_size oci")
    case grow: True
    show ?thesis
      by (rule that(2) [OF grow]) (use assms True grow in \<open>simp add: make_room_eq split: if_split_asm\<close>)
  next
    case False
    show ?thesis
      by (rule that(3)) (use assms True False in \<open>simp_all add: make_room_eq\<close>)
  qed
next
  case False
  show ?thesis
    by (rule that(1)) (use assms False in \<open>simp_all add: make_room_eq\<close>)
qed

lemma make_room_facts:
  assumes ok: "base_ok oci" "g = in_buffer oci" and g: "g < unat needed"
    and oci1: "make_room E needed g oci = Some oci1"
  shows "base_ok oci1 \<and> unread oci1 = unread oci \<and> in_buffer oci1 = g \<and>
    lenLastReq oci1 = lenLastReq oci \<and> bufptr oci1 + unat needed \<le> oci_size oci1"
  using oci1
proof (cases rule: make_room_cases)
  case 1
  then show ?thesis using ok by simp
next
  case 2
  then show ?thesis
    using compacted_facts [OF ok] ok g
    by (simp add: base_ok_def in_buffer_def unread_def take_realloc)
next
  case 3
  then show ?thesis
    using compacted_facts [OF ok] ok g by (simp add: base_ok_def in_buffer_def unread_def)
qed

lemma make_room_total: "grow_ok E \<Longrightarrow> make_room E needed g oci \<noteq> None"
  by (simp add: make_room_def Let_def)

lemma append_facts:
  assumes "base_ok oci" "length d \<le> oci_size oci - bufcnt oci"
    "oci' = oci\<lparr>buffer := write_at (buffer oci) (bufcnt oci) d, bufcnt := bufcnt oci + length d\<rparr>"
  shows "base_ok oci'" "unread oci' = unread oci @ d" "in_buffer oci' = in_buffer oci + length d"
    "lenLastReq oci' = lenLastReq oci"
  using assms
  by (auto simp: base_ok_def unread_split length_write_at write_at_def in_buffer_def)

lemma shrink_facts:
  assumes "base_ok oci" "g = in_buffer oci"
  shows "base_ok (shrink_buffer E needed g oci)" "unread (shrink_buffer E needed g oci) = unread oci"
    "in_buffer (shrink_buffer E needed g oci) = g" "lenLastReq (shrink_buffer E needed g oci) = lenLastReq oci"
  using assms
  by (auto simp: shrink_buffer_def base_ok_def unread_split in_buffer_def BUFSIZE_def take_realloc)

text \<open>More bytes behind a stream do not change what its header says.\<close>

definition headless :: "bool \<Rightarrow> bool \<Rightarrow> byte list \<Rightarrow> bool" where
  "headless m big bs \<longleftrightarrow> length bs < 4 \<or> is_big m big bs \<and> length bs < 8"

lemma card16_append: "Suc i < length bs \<Longrightarrow> card16 m (bs @ d) i = card16 m bs i"
  by (intro card16_cong) (simp_all add: nth_append)

lemma card32_append: "i + 3 < length bs \<Longrightarrow> card32 m (bs @ d) i = card32 m bs i"
  by (intro card32_cong) (simp add: nth_append)

lemma is_big_append: "4 \<le> length bs \<Longrightarrow> is_big m big (bs @ d) = is_big m big bs"
  by (simp add: is_big_def card16_append)

lemma words_at_append: "\<not> headless m big bs \<Longrightarrow> words_at m big (bs @ d) = words_at m big bs"
  by (auto simp: words_at_def headless_def is_big_append card16_append card32_append not_less)

lemma framing_append:
  "framing m big bs = Request k \<Longrightarrow> framing m big (bs @ d) = Request k"
  "framing m big bs = Malformed \<Longrightarrow> framing m big (bs @ d) = Malformed"
  "framing m big bs = Incomplete k \<Longrightarrow> \<not> headless m big bs \<Longrightarrow> framing m big (bs @ d) = upto k (bs @ d)"
  by (auto simp: framing_def upto_def headless_def is_big_append card16_append card32_append Let_def not_less
      split: if_splits)

lemma framing_headless:
  "headless m big bs \<Longrightarrow> framing m big bs = Incomplete (if length bs < 4 then 4 else 8)"
  by (auto simp: framing_def headless_def)

lemma framing_Request_not_headless: "framing m big bs = Request k \<Longrightarrow> \<not> headless m big bs"
  by (auto simp: framing_headless split: if_splits)

lemma framing_bounds:
  "framing m big bs = Request k \<Longrightarrow> 4 \<le> k \<and> k \<le> length bs"
  "framing m big bs = Incomplete k \<Longrightarrow> 4 \<le> k \<and> length bs < k"
  by (auto simp: framing_def upto_def Let_def Suc_le_eq unat_gt_0 split: if_splits)

lemma first_look_unread:
  assumes "base_ok oci"
  shows "first_look c oci (in_buffer oci) s =
     (if length (unread oci) < 4 then (4, True, False, s)
      else (case words_at (msb_client s c) (big_client s c) (unread oci) of
              (n, move, need) \<Rightarrow> (push_bit 2 n, need, move, set_req_len c n s)))"
  using assms request_words_unread [of oci s c] length_unread [of oci]
  by (simp add: first_look_def base_ok_def sz_xReq_def)

text \<open>What the first look tells: the request is there, or how much more to read.\<close>

definition look :: "nat \<Rightarrow> io_state \<Rightarrow> byte list \<Rightarrow> CARD32 \<Rightarrow> bool \<Rightarrow> bool \<Rightarrow> io_state \<Rightarrow> bool" where
  "look c s bs needed need move s' \<longleftrightarrow>
     (need \<longleftrightarrow> headless (msb_client s c) (big_client s c) bs) \<and>
     (move \<longleftrightarrow> 4 \<le> length bs \<and> is_big (msb_client s c) (big_client s c) bs) \<and>
     (4 \<le> length bs \<longrightarrow> words_at (msb_client s c) (big_client s c) bs = (client_req_len (io_clients s' c), move, need) \<and>
        needed = push_bit 2 (client_req_len (io_clients s' c))) \<and>
     (length bs < 4 \<longrightarrow> needed = 4) \<and>
     same_input s s' \<and> msb_client s' c = msb_client s c \<and> big_client s' c = big_client s c"

lemma set_req_len_client [simp]:
  "msb_client (set_req_len c n s) c' = msb_client s c'" "big_client (set_req_len c n s) c' = big_client s c'"
  by (simp_all add: msb_client_def big_client_def)

lemma first_look_look:
  assumes "base_ok oci" "first_look c oci (in_buffer oci) s = (needed, need, move, s')"
  shows "look c s (unread oci) needed need move s'"
proof (cases "length (unread oci) < 4")
  case True
  with assms show ?thesis
    by (auto simp: first_look_unread look_def headless_def same_input_intros)
next
  case False
  obtain n mv nd where W: "words_at (msb_client s c) (big_client s c) (unread oci) = (n, mv, nd)"
    by (cases "words_at (msb_client s c) (big_client s c) (unread oci)")
  then have "mv = is_big (msb_client s c) (big_client s c) (unread oci)"
    "nd = headless (msb_client s c) (big_client s c) (unread oci)"
    using False by (auto simp: words_at_def headless_def split: if_splits)
  with assms W False show ?thesis
    by (auto simp: first_look_unread look_def same_input_intros)
qed

lemma look_needed:
  assumes "look c s bs needed need move s'" and F: "framing (msb_client s c) (big_client s c) bs = Incomplete k"
  shows "unat needed = k"
proof (cases "length bs < 4")
  case True
  with assms show ?thesis by (simp add: look_def framing_def)
next
  case False
  with assms(1) have W: "words_at (msb_client s c) (big_client s c) bs = (client_req_len (io_clients s' c), move, need)"
    and n: "needed = push_bit 2 (client_req_len (io_clients s' c))"
    by (simp_all add: look_def)
  show ?thesis
    unfolding n using words_at_Incomplete(3) [OF F _ W] False by simp
qed

text \<open>The look after reading.\<close>

definition second_look ::
  "nat \<Rightarrow> ConnectionInput \<Rightarrow> nat \<Rightarrow> CARD32 \<Rightarrow> bool \<Rightarrow> bool \<Rightarrow> io_state \<Rightarrow> CARD32 \<times> bool \<times> io_state" where
  "second_look c oci got needed need move s =
     (if need \<and> got \<ge> unat needed
      then (case request_words s c oci got of (n, m, _) \<Rightarrow> (push_bit 2 n, move \<or> m, set_req_len c n s))
      else (needed, move, s))"

lemma second_look_Request:
  assumes L: "look c s bs needed need move s'" and ok: "base_ok oci" "unread oci = bs @ d"
    and I: "framing (msb_client s c) (big_client s c) bs = Incomplete k"
    and F: "framing (msb_client s c) (big_client s c) (bs @ d) = Request k'"
  shows "\<exists>n mv s''. second_look c oci (length (bs @ d)) needed need move s' = (push_bit 2 n, mv, s'') \<and>
     words_at (msb_client s c) (big_client s c) (bs @ d) = (n, mv, False) \<and>
     client_req_len (io_clients s'' c) = n \<and> same_input s s'' \<and>
     msb_client s'' c = msb_client s c \<and> big_client s'' c = big_client s c"
proof (cases need)
  case True
  let ?m = "msb_client s c" and ?b = "big_client s c"
  obtain n mv nd where W: "words_at ?m ?b (bs @ d) = (n, mv, nd)"
    by (cases "words_at ?m ?b (bs @ d)")
  note R = words_at_Request [OF F W]
  have k: "unat needed = k" by (rule look_needed [OF L I])
  have "k = (if length bs < 4 then 4 else 8)"
    using framing_headless [of ?m ?b bs] I L True by (simp add: look_def)
  moreover have "8 \<le> length (bs @ d)" if "\<not> length bs < 4"
    using that L True F framing_Request_not_headless [OF F]
    by (auto simp: look_def headless_def is_big_append not_less)
  ultimately have "unat needed \<le> length (bs @ d)" using k R(1) by auto
  moreover have "request_words s' c oci (length (bs @ d)) = (n, mv, nd)"
    using request_words_unread [of oci s' c] ok R(1) L W length_unread [of oci]
    by (simp add: base_ok_def look_def)
  moreover have "move \<Longrightarrow> mv" using L R(2) by (auto simp: look_def is_big_append)
  ultimately show ?thesis
    using True W R(3) L same_input_intros(8) [of s' c n]
    by (auto simp: second_look_def look_def same_input_def)
next
  case False
  with L have "words_at (msb_client s c) (big_client s c) bs = (client_req_len (io_clients s' c), move, False)"
    "needed = push_bit 2 (client_req_len (io_clients s' c))"
    "\<not> headless (msb_client s c) (big_client s c) bs"
    by (auto simp: look_def headless_def not_less)
  with False L show ?thesis
    by (auto simp: second_look_def look_def words_at_append)
qed

lemma second_look_Incomplete:
  assumes L: "look c s bs needed need move s'" and ok: "base_ok oci" "unread oci = bs @ d"
    and I: "framing (msb_client s c) (big_client s c) bs = Incomplete k"
    and F: "framing (msb_client s c) (big_client s c) (bs @ d) = Incomplete k'"
  shows "\<exists>n mv s''. second_look c oci (length (bs @ d)) needed need move s' = (n, mv, s'') \<and>
     length (bs @ d) < unat n \<and> same_input s s''"
proof (cases "need \<and> length (bs @ d) \<ge> unat needed")
  case True
  let ?m = "msb_client s c" and ?b = "big_client s c"
  obtain n mv nd where W: "words_at ?m ?b (bs @ d) = (n, mv, nd)"
    by (cases "words_at ?m ?b (bs @ d)")
  have 4: "4 \<le> length (bs @ d)"
    using look_needed [OF L I] framing_bounds(2) [OF I] True by simp
  have "request_words s' c oci (length (bs @ d)) = (n, mv, nd)"
    using request_words_unread [of oci s' c] ok 4 L W length_unread [of oci]
    by (simp add: base_ok_def look_def)
  with True L words_at_Incomplete [OF F 4 W] show ?thesis
    using same_input_intros(8) [of s' c n] by (auto simp: second_look_def look_def same_input_def)
next
  case False
  have k: "unat needed = k" by (rule look_needed [OF L I])
  have "length (bs @ d) < k"
  proof (cases need)
    case True
    with False k show ?thesis by simp
  next
    case False
    with L framing_append(3) [OF I, of d] F show ?thesis
      by (auto simp: look_def upto_def split: if_splits)
  qed
  with False k L show ?thesis
    by (auto simp: second_look_def look_def)
qed

subsection \<open>What a call does\<close>

definition keeps :: "nat \<Rightarrow> byte list \<Rightarrow> int \<times> io_state \<Rightarrow> bool" where
  "keeps c bs = (\<lambda>(r, s'). r = 0 \<and> pending s' c = bs)"

text \<open>The buffer after a read of \<open>d\<close>: the bytes are appended, wherever the buffer now is.\<close>

definition filled :: "os_env \<Rightarrow> CARD32 \<Rightarrow> nat \<Rightarrow> byte list \<Rightarrow> ConnectionInput \<Rightarrow> ConnectionInput" where
  "filled E needed g d oci1 = shrink_buffer E needed (g + length d)
     (oci1\<lparr>buffer := write_at (buffer oci1) (bufcnt oci1) d, bufcnt := bufcnt oci1 + length d\<rparr>)"

definition dead :: "nat \<Rightarrow> ConnectionInput \<Rightarrow> io_state \<Rightarrow> int \<times> io_state" where
  "dead c oci s = (- 1, YieldControlDeath (put_input c (Some oci) s))"

definition waits :: "nat \<Rightarrow> io_state \<Rightarrow> ConnectionInput \<Rightarrow> io_state \<Rightarrow> int \<times> io_state" where
  "waits c s oci s' = (0, YieldControlNoInput (oc_fd (osPrivate s c)) (put_input c (Some oci) s'))"

lemma read_more_second_look:
  "read_more E c oci0 g needed need move s =
     (if unat needed > MAXBUFSIZE then Inl (dead c (oci0\<lparr>lenLastReq := 0\<rparr>) s)
      else case make_room E needed g (oci0\<lparr>lenLastReq := 0\<rparr>) of
        None \<Rightarrow> Inl (dead c (oci0\<lparr>lenLastReq := 0\<rparr>) s)
      | Some oci1 \<Rightarrow>
          if \<not> trans_conn (osPrivate s c) then Inl (dead c oci1 s)
          else (case trans_read E (oci_size oci1 - bufcnt oci1) of
            Read_error \<Rightarrow> Inl (dead c oci1 s)
          | Read_again \<Rightarrow> Inl (waits c s oci1 s)
          | Read_bytes d \<Rightarrow>
              if d = [] then Inl (dead c oci1 s)
              else (case second_look c (filled E needed g d oci1) (g + length d) needed need move s of
                      (needed', mv, s') \<Rightarrow>
                        if g + length d < unat needed' then Inl (waits c s (filled E needed g d oci1) s')
                        else Inr (filled E needed g d oci1, g + length d, needed', mv, s'))))"
  unfolding read_more_def second_look_def filled_def dead_def waits_def Let_def by (rule refl)

lemma filled_facts:
  assumes "base_ok oci1" "in_buffer oci1 = g" "length d \<le> oci_size oci1 - bufcnt oci1"
  shows "base_ok (filled E needed g d oci1)" "unread (filled E needed g d oci1) = unread oci1 @ d"
    "in_buffer (filled E needed g d oci1) = g + length d"
    "lenLastReq (filled E needed g d oci1) = lenLastReq oci1"
proof -
  let ?o = "oci1\<lparr>buffer := write_at (buffer oci1) (bufcnt oci1) d, bufcnt := bufcnt oci1 + length d\<rparr>"
  note A = append_facts [OF assms(1,3) refl]
  have "g + length d = in_buffer ?o" using A(3) assms(2) by simp
  from shrink_facts [OF A(1) this, of E needed] A this
  show "base_ok (filled E needed g d oci1)" "unread (filled E needed g d oci1) = unread oci1 @ d"
    "in_buffer (filled E needed g d oci1) = g + length d"
    "lenLastReq (filled E needed g d oci1) = lenLastReq oci1"
    unfolding filled_def by simp_all
qed

text \<open>The number of bytes the call asks the transport for, if it does, and those it gets.\<close>

definition room_for :: "os_env \<Rightarrow> CARD32 \<Rightarrow> nat \<Rightarrow> ConnectionInput \<Rightarrow> nat option" where
  "room_for E needed g oci =
     (if unat needed > MAXBUFSIZE then None
      else map_option (\<lambda>oci1. oci_size oci1 - bufcnt oci1) (make_room E needed g (oci\<lparr>lenLastReq := 0\<rparr>)))"

definition read_room :: "os_env \<Rightarrow> nat \<Rightarrow> io_state \<Rightarrow> nat option" where
  "read_room E c s = (case obtain_input E c (release_available c s) of None \<Rightarrow> None
     | Some (oci0, s1) \<Rightarrow>
         let oci = advance_request oci0; (needed, _) = first_look c oci (in_buffer oci) s1
         in if in_buffer oci < unat needed then room_for E needed (in_buffer oci) oci else None)"

definition bytes_read :: "os_env \<Rightarrow> nat \<Rightarrow> io_state \<Rightarrow> byte list" where
  "bytes_read E c s = (case read_room E c s of None \<Rightarrow> []
     | Some room \<Rightarrow> (case trans_read E room of Read_bytes d \<Rightarrow> d | _ \<Rightarrow> []))"

lemma read_more_cases:
  assumes "base_ok oci" "g = in_buffer oci" "g < unat needed" "unat needed \<le> MAXBUFSIZE"
    and "grow_ok E" "trans_conn (osPrivate s c)" "read_bounded E"
  obtains oci1 room where "room \<ge> unat needed - g" "room_for E needed g oci = Some room"
    "base_ok oci1" "lenLastReq oci1 = 0" "unread oci1 = unread oci"
    "read_more E c oci g needed need move s =
       (case trans_read E room of
          Read_error \<Rightarrow> Inl (dead c oci1 s)
        | Read_again \<Rightarrow> Inl (waits c s oci1 s)
        | Read_bytes d \<Rightarrow>
            if d = [] then Inl (dead c oci1 s)
            else (case second_look c (filled E needed g d oci1) (g + length d) needed need move s of
                    (needed', mv, s') \<Rightarrow>
                      if g + length d < unat needed' then Inl (waits c s (filled E needed g d oci1) s')
                      else Inr (filled E needed g d oci1, g + length d, needed', mv, s')))"
    "\<And>d. trans_read E room = Read_bytes d \<Longrightarrow>
       base_ok (filled E needed g d oci1) \<and> unread (filled E needed g d oci1) = unread oci @ d \<and>
       in_buffer (filled E needed g d oci1) = g + length d \<and> lenLastReq (filled E needed g d oci1) = 0"
proof -
  let ?o = "oci\<lparr>lenLastReq := 0\<rparr>"
  obtain oci1 where M: "make_room E needed g ?o = Some oci1"
    using make_room_total [OF assms(5), of needed g ?o] by auto
  have F: "base_ok oci1 \<and> unread oci1 = unread oci \<and> in_buffer oci1 = g \<and>
    lenLastReq oci1 = 0 \<and> bufptr oci1 + unat needed \<le> oci_size oci1"
    using make_room_facts [OF _ _ assms(3) M] assms(1,2) by simp
  let ?room = "oci_size oci1 - bufcnt oci1"
  have room: "unat needed - g \<le> ?room"
    using F by (auto simp: in_buffer_def)
  have d: "base_ok (filled E needed g d oci1) \<and> unread (filled E needed g d oci1) = unread oci @ d \<and>
      in_buffer (filled E needed g d oci1) = g + length d \<and> lenLastReq (filled E needed g d oci1) = 0"
    if "trans_read E ?room = Read_bytes d" for d
    using filled_facts [of oci1 g d E needed] F assms(7) that by (simp add: read_bounded_def)
  show thesis
    by (rule that [OF room _ _ _ _ _ d])
       (use F assms(4,6) M in \<open>simp_all add: read_more_second_look room_for_def\<close>)
qed

text \<open>The start of a call: the state with the client's buffer, which holds its pending bytes.\<close>

lemma ReadRequest_start:
  assumes "io_wf s" "obtain_input E c (release_available c s) \<noteq> None"
  obtains oci s1 where
    "ReadRequestFromClient E c s =
       (case first_look c oci (in_buffer oci) s1 of (needed, need, move, s2) \<Rightarrow>
          if in_buffer oci < unat needed
          then (case read_more E c oci (in_buffer oci) needed need move s2 of
                  Inl r \<Rightarrow> r | Inr (oci', got, needed', mv, s3) \<Rightarrow> finish_request c oci' got needed' mv s3)
          else finish_request c oci (in_buffer oci) needed move s2)"
    "read_room E c s =
       (case first_look c oci (in_buffer oci) s1 of (needed, _) \<Rightarrow>
          if in_buffer oci < unat needed then room_for E needed (in_buffer oci) oci else None)"
    "base_ok oci" "unread oci = pending s c" "in_buffer oci = length (unread oci)"
    "io_wf s1" "AvailableInput s1 = None" "\<And>c'. pending s1 c' = pending s c'"
    "\<And>c'. trans_conn (osPrivate s1 c') = trans_conn (osPrivate s c')"
    "\<And>c'. msb_client s1 c' = msb_client s c'" "\<And>c'. big_client s1 c' = big_client s c'"
proof -
  let ?s = "release_available c s"
  note R = release_available_facts [OF assms(1)]
  obtain oci0 s1 where O: "obtain_input E c ?s = Some (oci0, s1)"
    using assms(2) by auto
  note F = obtain_input_facts [OF R(1) R(3) O]
  let ?oci = "advance_request oci0"
  have b: "base_ok ?oci" using F(5) by (rule base_ok_advance)
  have u: "unread ?oci = pending s c" using F(6) R(2) by simp
  have l: "in_buffer ?oci = length (unread ?oci)"
    using b length_unread [of ?oci] by (simp add: base_ok_def)
  show thesis
    by (rule that [of ?oci s1])
       (use F R O b u l in \<open>simp_all add: ReadRequestFromClient_def read_room_def msb_client_def big_client_def Let_def
           split: prod.split\<close>)
qed

lemma dead_fst [simp]: "fst (dead c oci s) = - 1"
  by (simp add: dead_def)

lemma waits_keeps: "lenLastReq oci = 0 \<Longrightarrow> unread oci = bs \<Longrightarrow> keeps c bs (waits c s oci s')"
  by (simp add: keeps_def waits_def pending_def advance_zero)

text \<open>The outcome of a call that reads, by what the transport gives.\<close>

definition read_outcome :: "nat \<Rightarrow> bool \<Rightarrow> bool \<Rightarrow> byte list \<Rightarrow> read_result \<Rightarrow> int \<times> io_state \<Rightarrow> bool" where
  "read_outcome c m b bs result R = (case result of
       Read_error \<Rightarrow> fst R = - 1
     | Read_again \<Rightarrow> keeps c bs R
     | Read_bytes d \<Rightarrow>
         if d = [] then fst R = - 1
         else (case framing m b (bs @ d) of
                 Request k' \<Rightarrow> hands_out c m b (bs @ d) k' R
               | Incomplete k' \<Rightarrow> keeps c (bs @ d) R
               | Malformed \<Rightarrow> True))"

lemma after_read:
  assumes L: "look c s bs needed need move s2"
    and I: "framing (msb_client s c) (big_client s c) bs = Incomplete k"
    and ok: "base_ok oci" "unread oci = bs @ d" "lenLastReq oci = 0"
  defines "X \<equiv> (case second_look c oci (length (bs @ d)) needed need move s2 of (n, mv, s') \<Rightarrow>
       if length (bs @ d) < unat n then waits c s2 oci s' else finish_request c oci (length (bs @ d)) n mv s')"
  shows "case framing (msb_client s c) (big_client s c) (bs @ d) of
       Request k' \<Rightarrow> hands_out c (msb_client s c) (big_client s c) (bs @ d) k' X
     | Incomplete k' \<Rightarrow> keeps c (bs @ d) X
     | Malformed \<Rightarrow> True"
proof (cases "framing (msb_client s c) (big_client s c) (bs @ d)")
  case (Incomplete k')
  from second_look_Incomplete [OF L ok(1,2) I this] have "\<exists>s''. X = waits c s2 oci s''"
    unfolding X_def by (auto simp del: length_append)
  then show ?thesis
    using Incomplete waits_keeps [OF ok(3,2)] by auto
next
  case (Request k')
  from second_look_Request [OF L ok(1,2) I this]
  obtain n mv s'' where S: "second_look c oci (length (bs @ d)) needed need move s2 = (push_bit 2 n, mv, s'')"
    "words_at (msb_client s c) (big_client s c) (bs @ d) = (n, mv, False)" "client_req_len (io_clients s'' c) = n"
    "msb_client s'' c = msb_client s c" "big_client s'' c = big_client s c" by auto
  have "X = finish_request c oci (length (bs @ d)) (push_bit 2 n) mv s''"
    unfolding X_def S(1) using words_at_Request(5) [OF Request S(2)] by (simp del: length_append add: not_less)
  then show ?thesis
    using finish_request_hands_out [OF ok(1,2), of s'' c k' n mv False] Request S by simp
qed simp

lemma read_more_outcome:
  fixes needed :: CARD32
  assumes L: "look c s (unread oci) needed need move s2" and ok: "base_ok oci" "in_buffer oci = length (unread oci)"
    and I: "framing (msb_client s c) (big_client s c) (unread oci) = Incomplete k" "k \<le> MAXBUFSIZE"
    and E: "grow_ok E" "trans_conn (osPrivate s c)" "read_bounded E"
  defines "R \<equiv> (case read_more E c oci (in_buffer oci) needed need move s2 of
       Inl r \<Rightarrow> r | Inr (oci', got, needed', mv, s3) \<Rightarrow> finish_request c oci' got needed' mv s3)"
  shows "\<exists>room \<ge> k - length (unread oci). room_for E needed (in_buffer oci) oci = Some room \<and>
     read_outcome c (msb_client s c) (big_client s c) (unread oci) (trans_read E room) R"
proof -
  let ?bs = "unread oci" and ?g = "length (unread oci)"
  have k: "unat needed = k" by (rule look_needed [OF L I(1)])
  have lt: "in_buffer oci < unat needed" using framing_bounds(2) [OF I(1)] ok(2) k by simp
  have E2: "trans_conn (osPrivate s2 c)" using E(2) L by (simp add: look_def same_input_def)
  have mx: "unat needed \<le> MAXBUFSIZE" using I(2) k by simp
  show ?thesis
  proof (cases rule: read_more_cases [OF ok(1) refl lt mx E(1) E2 E(3), where need = need and move = move,
        case_names cases])
    case (cases oci1 room)
    note RM = cases(6) and fd = cases(7)
    have "read_outcome c (msb_client s c) (big_client s c) ?bs (trans_read E room) R"
    proof (cases "trans_read E room")
      case (Read_bytes d)
      let ?o = "filled E needed ?g d oci1"
      note fd = fd [OF Read_bytes, unfolded ok(2)] and RM = RM [unfolded Read_bytes ok(2)]
      show ?thesis
      proof (cases "d = []")
        case True
        then show ?thesis using RM Read_bytes ok(2) by (simp add: read_outcome_def R_def)
      next
        case False
        have R: "R = (case second_look c ?o (length (?bs @ d)) needed need move s2 of (n, mv, s') \<Rightarrow>
          if length (?bs @ d) < unat n then waits c s2 ?o s' else finish_request c ?o (length (?bs @ d)) n mv s')"
          unfolding R_def ok(2) RM using False by (simp split: prod.split)
        have "case framing (msb_client s c) (big_client s c) (?bs @ d) of
            Request k' \<Rightarrow> hands_out c (msb_client s c) (big_client s c) (?bs @ d) k' R
          | Incomplete k' \<Rightarrow> keeps c (?bs @ d) R
          | Malformed \<Rightarrow> True"
          unfolding R by (rule after_read [OF L I(1), of ?o d]) (use fd cases in simp_all)
        then show ?thesis
          using False Read_bytes by (simp add: read_outcome_def)
      qed
    qed (use RM cases(4,5) waits_keeps [of oci1] in \<open>simp_all add: read_outcome_def R_def\<close>)
    with cases(1,2) k ok(2) show ?thesis by auto
  qed
qed

lemma read_complete:
  assumes L: "look c s (unread oci) needed need move s2" and ok: "base_ok oci"
    and F: "framing (msb_client s c) (big_client s c) (unread oci) = Request k"
  shows "\<not> length (unread oci) < unat needed" 
    "hands_out c (msb_client s c) (big_client s c) (unread oci) k
       (finish_request c oci (length (unread oci)) needed move s2)"
proof -
  obtain n where n: "words_at (msb_client s c) (big_client s c) (unread oci) = (n, move, need)"
    "needed = push_bit 2 n" "client_req_len (io_clients s2 c) = n"
    using L framing_bounds(1) [OF F] by (auto simp: look_def)
  then show "\<not> length (unread oci) < unat needed"
    using words_at_Request(5) [OF F n(1)] by simp
  show "hands_out c (msb_client s c) (big_client s c) (unread oci) k
       (finish_request c oci (length (unread oci)) needed move s2)"
    using finish_request_hands_out [OF ok refl, of s2 c k n move need] F n L by (simp add: look_def)
qed

lemma read_too_big:
  assumes "unat needed > MAXBUFSIZE"
  shows "read_more E c oci g needed need move s = Inl (dead c (oci\<lparr>lenLastReq := 0\<rparr>) s)"
  using assms by (simp add: read_more_second_look)

lemma ReadRequest_frames:
  assumes "io_wf s" "trans_conn (osPrivate s c)" "malloc_ok E" "grow_ok E" "read_bounded E"
  defines "m \<equiv> msb_client s c" and "b \<equiv> big_client s c" and "R \<equiv> ReadRequestFromClient E c s"
  shows "case framing m b (pending s c) of
     Request k \<Rightarrow> read_room E c s = None \<and> hands_out c m b (pending s c) k R
   | Incomplete k \<Rightarrow>
       if k > MAXBUFSIZE then fst R = - 1
       else \<exists>room \<ge> k - length (pending s c). read_room E c s = Some room \<and>
         read_outcome c m b (pending s c) (trans_read E room) R
   | Malformed \<Rightarrow> True"
proof -
  obtain oci s1 where R: "R =
       (case first_look c oci (in_buffer oci) s1 of (needed, need, move, s2) \<Rightarrow>
          if in_buffer oci < unat needed
          then (case read_more E c oci (in_buffer oci) needed need move s2 of
                  Inl r \<Rightarrow> r | Inr (oci', got, needed', mv, s3) \<Rightarrow> finish_request c oci' got needed' mv s3)
          else finish_request c oci (in_buffer oci) needed move s2)"
    and RR: "read_room E c s =
       (case first_look c oci (in_buffer oci) s1 of (needed, _) \<Rightarrow>
          if in_buffer oci < unat needed then room_for E needed (in_buffer oci) oci else None)"
    and oci: "base_ok oci" "unread oci = pending s c" "in_buffer oci = length (unread oci)"
    and s1: "trans_conn (osPrivate s1 c)" "msb_client s1 c = m" "big_client s1 c = b"
    by (rule ReadRequest_start [OF assms(1) obtain_input_total [OF assms(3)], of c]) (use assms(2) in \<open>auto simp: R_def m_def b_def\<close>)
  obtain needed need move s2 where FL: "first_look c oci (in_buffer oci) s1 = (needed, need, move, s2)"
    by (metis prod_cases4)
  note L = first_look_look [OF oci(1) FL] and R = R [unfolded FL prod.case] and RR = RR [unfolded FL prod.case]
  show ?thesis
  proof (cases "framing m b (pending s c)")
    case (Request k)
    then show ?thesis
      using read_complete [OF L oci(1), of k] s1 oci(2,3) by (simp add: R RR)
  next
    case (Incomplete k)
    then have I: "framing (msb_client s1 c) (big_client s1 c) (unread oci) = Incomplete k"
      by (simp add: s1 oci(2))
    then have n: "unat needed = k" "in_buffer oci < unat needed"
      using look_needed [OF L I] framing_bounds(2) [OF I] oci(3) by simp_all
    then have R': "R = (case read_more E c oci (in_buffer oci) needed need move s2 of
         Inl r \<Rightarrow> r | Inr (oci', got, needed', mv, s3) \<Rightarrow> finish_request c oci' got needed' mv s3)"
      by (simp add: R)
    have RR': "read_room E c s = room_for E needed (in_buffer oci) oci"
      using n(2) by (simp add: RR)
    show ?thesis
      using read_more_outcome [OF L oci(1,3) I _ assms(4) s1(1) assms(5)] n R' RR' Incomplete s1 oci(2)
        read_too_big [of needed E c oci "in_buffer oci" need move s2]
      by (cases "k > MAXBUFSIZE") simp_all
  qed simp
qed

subsection \<open>Clients do not disturb each other\<close>

definition others :: "nat \<Rightarrow> io_state \<Rightarrow> io_state \<Rightarrow> bool" where
  "others c s s' \<longleftrightarrow> io_wf s' \<and> (\<forall>c'. c' \<noteq> c \<longrightarrow> pending s' c' = pending s c')"

lemma words_at_taken:
  assumes "words_at m (big_client s c) bs = (n, move, need)" "4 \<le> length bs" "unat (push_bit 2 n) \<le> length bs"
  shows "4 \<le> taken_bytes c (push_bit 2 n) s" "taken_bytes c (push_bit 2 n) s \<le> length bs"
    "move \<Longrightarrow> 8 \<le> length bs"
proof -
  have 4: "4 dvd unat (push_bit 2 n)"
    by (simp add: push_bit_eq_mult unat_word_ariths dvd_mod)
  have "4 \<le> unat (push_bit 2 n)" if "push_bit 2 n \<noteq> 0"
    using 4 that by (intro dvd_imp_le) (simp_all add: unat_gt_0)
  then show "4 \<le> taken_bytes c (push_bit 2 n) s" by (auto simp: taken_bytes_def)
  have x: "push_bit 2 (ucast x :: CARD32) = 0 \<longleftrightarrow> x = 0" for x :: CARD16
    using card16_bound [of x] zero_words [of "ucast x"] by (simp add: unat_card16 ucast_zero_iff)
  show "move \<Longrightarrow> 8 \<le> length bs" "taken_bytes c (push_bit 2 n) s \<le> length bs"
    using assms x by (auto simp: words_at_def taken_bytes_def is_big_def split: if_splits)
qed

lemma finished_ok:
  assumes "base_ok oci" "4 \<le> k" "k \<le> in_buffer oci" "move \<Longrightarrow> 8 \<le> in_buffer oci"
  shows "input_ok (finished oci k move)"
    "bufptr (finished oci k move) + lenLastReq (finished oci k move) = bufptr oci + k"
    "bufcnt (finished oci k move) = bufcnt oci"
  using assms
  by (auto simp: finished_def move_request_def base_ok_def input_ok_def in_buffer_def length_write_at
      sz_xReq_def sz_xBigReq_def Let_def)

lemma others_put_input:
  assumes "io_wf s" "AvailableInput s = None" "input_ok oci"
  shows "others c s (put_input c (Some oci) s)"
  using assms io_wf_put_input [of s oci c] by (simp add: others_def pending_put_input)

lemma others_same_input: "others c s s' \<Longrightarrow> same_input s' s'' \<Longrightarrow> others c s s''"
  by (simp add: others_def same_input_wf same_input_pending)

lemma finish_request_others:
  assumes s: "io_wf s" "AvailableInput s = None" and ok: "base_ok oci"
    and W: "words_at m (big_client s c) (unread oci) = (n, move, need)" "4 \<le> length (unread oci)"
      "unat (push_bit 2 n) \<le> length (unread oci)"
  shows "others c s (snd (finish_request c oci (length (unread oci)) (push_bit 2 n) move s))"
proof -
  let ?k = "taken_bytes c (push_bit 2 n) s" and ?g = "length (unread oci)"
  obtain r s' where R: "finish_request c oci ?g (push_bit 2 n) move s = (r, s')"
    by (cases "finish_request c oci ?g (push_bit 2 n) move s")
  note S = finish_request_sel [OF R refl]
  have g: "in_buffer oci = ?g" using ok length_unread [of oci] by (simp add: base_ok_def)
  note F = finished_ok [OF ok words_at_taken(1) [OF W], of move]
  have F: "input_ok (finished oci ?k move)"
    "bufptr (finished oci ?k move) + lenLastReq (finished oci ?k move) = bufptr oci + ?k"
    "bufcnt (finished oci ?k move) = bufcnt oci"
    using F words_at_taken(2,3) [OF W] g by auto
  have "unread (advance_request (finished oci ?k move)) = []" if "?g \<le> ?k"
    using that F g ok words_at_taken(2) [OF W]
    by (simp add: unread_advance_Nil base_ok_def in_buffer_def, linarith)
  then have "io_wf s'"
    using s(1) F(1) S(2,3,4) s(2) unfolding io_wf_def by (auto simp: pending_def)
  then show ?thesis
    unfolding R others_def using S(2) by (simp add: pending_def)
qed

lemma second_look_words:
  assumes L: "look c s bs needed need move s'" and ok: "base_ok oci" "unread oci = bs @ d"
    and S: "second_look c oci (length (bs @ d)) needed need move s' = (w, mv, s'')"
    and le: "\<not> length (bs @ d) < unat w"
  obtains n nd where "words_at (msb_client s c) (big_client s c) (bs @ d) = (n, mv, nd)" "w = push_bit 2 n"
    "4 \<le> length (bs @ d)"
proof (cases need)
  case True
  obtain n m nd where W: "words_at (msb_client s c) (big_client s c) (bs @ d) = (n, m, nd)"
    by (cases "words_at (msb_client s c) (big_client s c) (bs @ d)")
  have n4: "4 \<le> unat needed"
    using L True by (cases "length bs < 4") (auto simp: look_def words_at_def headless_def)
  have le': "unat needed \<le> length (bs @ d)"
    using S le True by (auto simp: second_look_def split: if_splits)
  have g: "4 \<le> length (bs @ d)" using n4 le' by simp
  have "request_words s' c oci (length (bs @ d)) = (n, m, nd)"
    using request_words_unread [of oci s' c] ok g L W length_unread [of oci] by (simp add: base_ok_def look_def)
  then have "w = push_bit 2 n" "mv = (move \<or> m)"
    using S True le' by (auto simp: second_look_def)
  moreover have "move \<Longrightarrow> m"
    using L W by (auto simp: look_def words_at_def is_big_append split: if_splits)
  ultimately show thesis using that W g by auto
next
  case False
  then have h: "\<not> headless (msb_client s c) (big_client s c) bs" and g: "4 \<le> length bs" using L
    by (auto simp: look_def headless_def)
  then show thesis
    using that [of "client_req_len (io_clients s' c)" need] False L S
    by (auto simp: look_def second_look_def words_at_append [OF h])
qed

lemma second_look_same:
  "second_look c oci g needed need move s = (w, mv, s') \<Longrightarrow> same_input s s' \<and> big_client s' c = big_client s c"
  by (auto simp: second_look_def same_input_intros split: if_splits prod.splits)

text \<open>Whatever memory and transport answer, a call that reads leaves one of these states.\<close>

lemma read_more_ends:
  assumes L: "look c s (unread oci) needed need move s2" and ok: "base_ok oci" "in_buffer oci = length (unread oci)"
    and lt: "in_buffer oci < unat needed" and E: "read_bounded E"
  shows "(\<exists>oci' s'. base_ok oci' \<and> lenLastReq oci' = 0 \<and> same_input s2 s' \<and>
            (read_more E c oci (in_buffer oci) needed need move s2 = Inl (dead c oci' s') \<or>
             read_more E c oci (in_buffer oci) needed need move s2 = Inl (waits c s2 oci' s'))) \<or>
         (\<exists>oci' n mv nd s3. base_ok oci' \<and> same_input s2 s3 \<and> 4 \<le> length (unread oci') \<and>
            unat (push_bit 2 n) \<le> length (unread oci') \<and>
            words_at (msb_client s c) (big_client s3 c) (unread oci') = (n, mv, nd) \<and>
            read_more E c oci (in_buffer oci) needed need move s2 =
              Inr (oci', length (unread oci'), push_bit 2 n, mv, s3))"
    (is "?ends \<or> ?goes")
proof (cases "unat needed > MAXBUFSIZE \<or> make_room E needed (in_buffer oci) (oci\<lparr>lenLastReq := 0\<rparr>) = None")
  case True
  then have "read_more E c oci (in_buffer oci) needed need move s2 = Inl (dead c (oci\<lparr>lenLastReq := 0\<rparr>) s2)"
    by (auto simp: read_more_second_look)
  then have ?ends using ok(1) same_input_intros(1) by (intro exI conjI disjI1) auto
  then show ?thesis by blast
next
  case False
  then obtain oci1 where M: "make_room E needed (in_buffer oci) (oci\<lparr>lenLastReq := 0\<rparr>) = Some oci1"
    and mx: "\<not> unat needed > MAXBUFSIZE" by auto
  note F = make_room_facts [OF _ _ lt M]
  let ?room = "oci_size oci1 - bufcnt oci1"
  show ?thesis
  proof (cases "trans_conn (osPrivate s2 c) \<and> (\<exists>d. d \<noteq> [] \<and> trans_read E ?room = Read_bytes d)")
    case False
    then have "read_more E c oci (in_buffer oci) needed need move s2 \<in> {Inl (dead c oci1 s2), Inl (waits c s2 oci1 s2)}"
      using M mx by (auto simp: read_more_second_look split: read_result.splits)
    then have ?ends using ok(1) F same_input_intros(1) by (intro exI [of _ oci1] exI [of _ s2]) auto
    then show ?thesis by blast
  next
    case True
    then obtain d where d: "d \<noteq> []" "trans_read E ?room = Read_bytes d" and t: "trans_conn (osPrivate s2 c)" by blast
    let ?o = "filled E needed (in_buffer oci) d oci1"
    have o: "base_ok ?o" "unread ?o = unread oci @ d" "in_buffer ?o = in_buffer oci + length d" "lenLastReq ?o = 0"
      using filled_facts [of oci1 "in_buffer oci" d E needed] F ok(1) d(2) E by (simp_all add: read_bounded_def)
    have g: "in_buffer oci + length d = length (unread oci @ d)" using ok(2) by simp
    obtain w mv s' where S: "second_look c ?o (length (unread oci @ d)) needed need move s2 = (w, mv, s')"
      by (metis prod_cases3)
    have RM: "read_more E c oci (in_buffer oci) needed need move s2 =
        (if length (unread oci @ d) < unat w then Inl (waits c s2 ?o s')
         else Inr (?o, length (unread oci @ d), w, mv, s'))"
      using M mx d t S by (simp add: read_more_second_look g del: length_append)
    show ?thesis
    proof (cases "length (unread oci @ d) < unat w")
      case True
      then have ?ends using RM o second_look_same [OF S] by auto
      then show ?thesis by blast
    next
      case False
      obtain n nd where "words_at (msb_client s c) (big_client s c) (unread oci @ d) = (n, mv, nd)" "w = push_bit 2 n"
        "4 \<le> length (unread oci @ d)"
        by (rule second_look_words [OF L o(1,2) S False])
      then have ?goes
        using RM o second_look_same [OF S] L False
        by (intro exI [of _ ?o] exI [of _ n] exI [of _ mv] exI [of _ nd] exI [of _ s'])
          (simp add: look_def not_less del: length_append)
      then show ?thesis by blast
    qed
  qed
qed

lemma others_trans_same: "others c s s' \<Longrightarrow> (\<And>c'. pending s c' = pending s0 c') \<Longrightarrow> others c s0 s'"
  by (simp add: others_def)

lemma ends_others:
  assumes "io_wf s1" "AvailableInput s1 = None" "base_ok oci" "lenLastReq oci = 0" "same_input s1 s2"
  shows "others c s1 (snd (dead c oci s2))" "others c s1 (snd (waits c s' oci s2))"
proof -
  have "io_wf s2" "AvailableInput s2 = None" "\<And>c'. pending s2 c' = pending s1 c'"
    using assms(1,2) same_input_wf [OF assms(5)] same_input_pending [OF assms(5)] assms(5)
    by (auto simp: same_input_def)
  then have "others c s1 (put_input c (Some oci) s2)"
    using others_put_input [of s2 oci c] base_ok_input_ok [OF assms(3,4)] by (simp add: others_def)
  then show "others c s1 (snd (dead c oci s2))" "others c s1 (snd (waits c s' oci s2))"
    by (auto simp: dead_def waits_def intro: others_same_input same_input_intros)
qed

lemma goes_others:
  assumes "io_wf s1" "AvailableInput s1 = None" "base_ok oci" "same_input s1 s3"
    and "words_at m (big_client s3 c) (unread oci) = (n, mv, nd)" "4 \<le> length (unread oci)"
      "unat (push_bit 2 n) \<le> length (unread oci)"
  shows "others c s1 (snd (finish_request c oci (length (unread oci)) (push_bit 2 n) mv s3))"
proof -
  have "io_wf s3" "AvailableInput s3 = None" "\<And>c'. pending s3 c' = pending s1 c'"
    using assms(1,2) same_input_wf [OF assms(4)] same_input_pending [OF assms(4)] assms(4)
    by (auto simp: same_input_def)
  then show ?thesis
    using finish_request_others [OF _ _ assms(3,5,6,7)] by (simp add: others_def)
qed

lemma ReadRequest_others:
  assumes wf: "io_wf s" and E: "read_bounded E"
  shows "others c s (snd (ReadRequestFromClient E c s))"
proof (cases "obtain_input E c (release_available c s)")
  case None
  with wf show ?thesis
    by (simp add: ReadRequestFromClient_def others_def same_input_wf [OF same_input_intros(4)]
        same_input_pending [OF same_input_intros(4)] release_available_facts)
next
  case (Some p)
  then have "obtain_input E c (release_available c s) \<noteq> None" by simp
  then obtain oci s1 where RR: "ReadRequestFromClient E c s =
       (case first_look c oci (in_buffer oci) s1 of (needed, need, move, s2) \<Rightarrow>
          if in_buffer oci < unat needed
          then (case read_more E c oci (in_buffer oci) needed need move s2 of
                  Inl r \<Rightarrow> r | Inr (oci', got, needed', mv, s3) \<Rightarrow> finish_request c oci' got needed' mv s3)
          else finish_request c oci (in_buffer oci) needed move s2)"
    and b: "base_ok oci" and g: "in_buffer oci = length (unread oci)"
    and F: "io_wf s1" "AvailableInput s1 = None" "\<And>c'. pending s1 c' = pending s c'"
    by (rule ReadRequest_start [OF wf]) (assumption | rule that)+
  obtain needed need move s2 where FL: "first_look c oci (in_buffer oci) s1 = (needed, need, move, s2)"
    by (metis prod_cases4)
  note L = first_look_look [OF b FL] and RR = RR [unfolded FL prod.case]
  have s2: "same_input s1 s2" "big_client s2 c = big_client s1 c" using L by (simp_all add: look_def)
  have "others c s1 (snd (ReadRequestFromClient E c s))"
  proof (cases "in_buffer oci < unat needed")
    case True
    note RR = RR [unfolded if_P [OF True]]
    from read_more_ends [OF L b g True E] show ?thesis
    proof (elim disjE exE conjE, goal_cases)
      case (1 oci' s')
      then show ?thesis using ends_others [OF F(1,2)] s2(1) by (simp add: RR same_input_def)
    next
      case (2 oci' s')
      then show ?thesis using ends_others [OF F(1,2)] s2(1) by (simp add: RR same_input_def)
    next
      case (3 oci' n mv nd s3)
      then show ?thesis
        using goes_others [OF F(1,2) 3(1) _ 3(5,3,4)] s2(1) by (simp add: RR same_input_def)
    qed
  next
    case False
    then have "4 \<le> length (unread oci)" "needed = push_bit 2 (client_req_len (io_clients s2 c))"
      "words_at (msb_client s1 c) (big_client s2 c) (unread oci) = (client_req_len (io_clients s2 c), move, need)"
      using L g by (cases "length (unread oci) < 4"; force simp: look_def)+
    then show ?thesis
      using goes_others [OF F(1,2) b s2(1)] False g by (simp add: RR)
  qed
  then show ?thesis
    by (rule others_trans_same) (rule F(3))
qed

end
