(* ===== verification/RequestRuns.thy ===== *)
theory RequestRuns
  imports RequestProofs
begin

text \<open>
  Sequences of calls of \<open>ReadRequestFromClient\<close> for any clients in any order: the requests handed
  out are those into which the protocol divides the bytes received (\<open>io_run\<close>), and a request that
  arrives is handed out (\<open>poll\<close>).
\<close>

subsection \<open>One call\<close>

definition good_env :: "os_env \<Rightarrow> bool" where
  "good_env E \<longleftrightarrow> malloc_ok E \<and> grow_ok E \<and> read_bounded E"

lemma bytes_read_None [simp]: "read_room E c s = None \<Longrightarrow> bytes_read E c s = []"
  by (simp add: bytes_read_def)

lemma ReadRequest_effect:
  assumes "io_wf s" "trans_conn (osPrivate s c)" "good_env E" "ReadRequestFromClient E c s = (r, s')" "0 \<le> r"
    and "framing (msb_client s c) (big_client s c) (pending s c @ bytes_read E c s) \<noteq> Malformed"
  defines "q \<equiv> pending s c @ bytes_read E c s"
  shows "(case framing (msb_client s c) (big_client s c) q of
      Request k \<Rightarrow> hands_out c (msb_client s c) (big_client s c) q k (r, s')
    | Incomplete k \<Rightarrow> r = 0 \<and> pending s' c = q
    | Malformed \<Rightarrow> False)"
proof -
  let ?m = "msb_client s c" and ?b = "big_client s c"
  have T: "case framing ?m ?b (pending s c) of
     Request k \<Rightarrow> read_room E c s = None \<and> hands_out c ?m ?b (pending s c) k (r, s')
   | Incomplete k \<Rightarrow>
       if k > MAXBUFSIZE then r = - 1
       else \<exists>room \<ge> k - length (pending s c). read_room E c s = Some room \<and>
         read_outcome c ?m ?b (pending s c) (trans_read E room) (r, s')
   | Malformed \<Rightarrow> True"
    using ReadRequest_frames [OF assms(1,2), of E] assms(3,4)
    by (simp only: good_env_def fst_conv)
  show ?thesis
  proof (cases "framing ?m ?b (pending s c)")
    case (Request k)
    then show ?thesis using T by (simp add: q_def hands_out_def)
  next
    case (Incomplete k)
    with T assms(5) obtain room where "read_room E c s = Some room"
      "read_outcome c ?m ?b (pending s c) (trans_read E room) (r, s')"
      by (auto split: if_splits)
    then show ?thesis
      using assms(5,6) Incomplete
      by (cases "trans_read E room")
        (auto simp: read_outcome_def bytes_read_def q_def keeps_def hands_out_def split: framing.splits if_splits)
  next
    case Malformed
    then show ?thesis using assms(6) framing_append(2) by metis
  qed
qed

subsection \<open>What never changes\<close>

text \<open>
  Reading does not touch byte orders, the use of big requests, the connections, the stage of a client
  and the number of its request.
\<close>

definition static :: "io_state \<Rightarrow> nat \<Rightarrow> bool \<times> bool \<times> bool \<times> bool \<times> bool \<times> nat" where
  "static s c = (host_msb s, msb_client s c, big_client s c, trans_conn (osPrivate s c), clientRunning (io_clients s c),
     client_sequence (io_clients s c))"

lemma static_put [simp]:
  "static (put_input c i s) = static s"
  "static (YieldControl s) = static s" "static (YieldControlNoInput fd s) = static s"
  "static (YieldControlDeath s) = static s" "static (count_request s) = static s"
  "static (set_req_len c n s) = static s" "static (lookahead c oci a g s) = static s"
  "static (put_client c shorten s) = static s"
  "static (put_client c (\<lambda>cl. cl\<lparr>requestBuffer := p\<rparr>) s) = static s"
  "static (s\<lparr>FreeInputs := f\<rparr>) = static s" "static (s\<lparr>AvailableInput := v\<rparr>) = static s"
  by (rule ext, simp add: static_def msb_client_def big_client_def shorten_def)+

lemma static_look:
  "first_look c oci g s = (w, nd, mv, s2) \<Longrightarrow> static s2 = static s"
  "second_look c oci g w nd mv s = (w', mv', s2) \<Longrightarrow> static s2 = static s"
  by (auto simp: first_look_def second_look_def split: if_splits prod.splits)

lemma static_release [simp]: "static (release_available c s) = static s"
  by (auto simp: release_available_def split: option.splits)

lemma static_obtain: "obtain_input E c s = Some (oci, s1) \<Longrightarrow> static s1 = static s"
  by (auto simp: obtain_input_def split: option.splits list.splits)

lemma static_finish: "finish_request c oci g n mv s = (r, s') \<Longrightarrow> static s' = static s"
  by (auto simp: finish_request_def Let_def split: if_splits)

lemma static_ends [simp]: "static (snd (dead c oci s)) = static s" "static (snd (waits c s' oci s)) = static s"
  by (simp_all add: dead_def waits_def)

lemma static_read_more:
  "read_more E c oci g w nd mv s = Inl x \<Longrightarrow> static (snd x) = static s"
  "read_more E c oci g w nd mv s = Inr (oci', g', w', mv', s') \<Longrightarrow> static s' = static s"
  by (auto simp: read_more_second_look static_look(2) split: option.splits read_result.splits if_splits prod.splits)

lemma ReadRequest_static:
  assumes R: "ReadRequestFromClient E c s = (r, s')"
  shows "static s' = static s"
proof (cases "obtain_input E c (release_available c s)")
  case None
  with R show ?thesis by (auto simp: ReadRequestFromClient_def)
next
  case (Some p)
  obtain oci0 s1 where p: "p = (oci0, s1)" by (cases p)
  define oci where "oci = advance_request oci0"
  obtain w nd mv s2 where FL: "first_look c oci (in_buffer oci) s1 = (w, nd, mv, s2)"
    by (metis prod_cases4)
  have s2: "static s2 = static s"
    using static_obtain [OF Some [unfolded p]] static_look(1) [OF FL] by simp
  have R: "(if in_buffer oci < unat w
      then (case read_more E c oci (in_buffer oci) w nd mv s2 of
              Inl r \<Rightarrow> r | Inr (oci', got, w', mv', s3) \<Rightarrow> finish_request c oci' got w' mv' s3)
      else finish_request c oci (in_buffer oci) w mv s2) = (r, s')"
    using R FL unfolding ReadRequestFromClient_def Let_def Some p option.case prod.case oci_def by simp
  show ?thesis
  proof (cases "in_buffer oci < unat w")
    case False
    with R s2 show ?thesis by (auto dest: static_finish)
  next
    case True
    show ?thesis
    proof (cases "read_more E c oci (in_buffer oci) w nd mv s2")
      case (Inl x)
      with R True static_read_more(1) [OF Inl] s2 show ?thesis by simp
    next
      case (Inr x)
      obtain oci' g w' mv' s3 where x: "x = (oci', g, w', mv', s3)" by (cases x)
      show ?thesis
        using R True Inr x static_read_more(2) [OF Inr [unfolded x]] s2 by (auto dest: static_finish)
    qed
  qed
qed

subsection \<open>Dividing a stream\<close>

function frames :: "bool \<Rightarrow> bool \<Rightarrow> byte list \<Rightarrow> byte list list \<times> byte list" where
  "frames m b bs = (case framing m b bs of
       Request k \<Rightarrow> (let (rs, rest) = frames m b (drop k bs) in (contents m b bs k # rs, rest))
     | _ \<Rightarrow> ([], bs))"
  by pat_completeness auto
termination
  by (relation "measure (\<lambda>(m, b, bs). length bs)") (auto dest: framing_bounds)

declare frames.simps [simp del]

lemma frames_Request:
  "framing m b bs = Request k \<Longrightarrow>
   frames m b bs = (contents m b bs k # fst (frames m b (drop k bs)), snd (frames m b (drop k bs)))"
  by (simp add: frames.simps [of m b bs] split: prod.split)

lemma frames_stop: "(\<And>k. framing m b bs \<noteq> Request k) \<Longrightarrow> frames m b bs = ([], bs)"
  by (simp add: frames.simps [of m b bs] split: framing.split)

lemma contents_append: "k \<le> length bs \<Longrightarrow> 4 \<le> k \<Longrightarrow> (is_big m b bs \<longrightarrow> 8 \<le> k) \<Longrightarrow>
   contents m b (bs @ d) k = contents m b bs k"
  by (auto simp: contents_def is_big_append)

lemma framing_Request_big: "framing m b bs = Request k \<Longrightarrow> is_big m b bs \<Longrightarrow> 8 \<le> k"
  by (auto simp: framing_def upto_def Let_def split: if_splits)

lemma contents_Request_append:
  "framing m b bs = Request k \<Longrightarrow> contents m b (bs @ d) k = contents m b bs k"
  using framing_bounds(1) [of m b bs k] framing_Request_big [of m b bs k] by (simp add: contents_append)

text \<open>Dividing can be continued when more bytes arrive.\<close>

lemma frames_append:
  "frames m b (bs @ d) =
     (fst (frames m b bs) @ fst (frames m b (snd (frames m b bs) @ d)),
      snd (frames m b (snd (frames m b bs) @ d)))"
proof (induction "length bs" arbitrary: bs rule: less_induct)
  case less
  show ?case
  proof (cases "\<exists>k. framing m b bs = Request k")
    case True
    then obtain k where k: "framing m b bs = Request k" ..
    note B = framing_bounds(1) [OF k]
    have "frames m b (drop k bs @ d) =
      (fst (frames m b (drop k bs)) @ fst (frames m b (snd (frames m b (drop k bs)) @ d)),
       snd (frames m b (snd (frames m b (drop k bs)) @ d)))"
      using B by (intro less) auto
    then show ?thesis
      using B contents_Request_append [OF k, of d]
      by (simp add: frames_Request [OF k] frames_Request [OF framing_append(1) [OF k]])
  next
    case False
    then show ?thesis by (simp add: frames_stop [of m b bs])
  qed
qed

text \<open>A stream is well formed when dividing it never meets a malformed request.\<close>

definition stream_ok :: "bool \<Rightarrow> bool \<Rightarrow> byte list \<Rightarrow> bool" where
  "stream_ok m b bs \<longleftrightarrow> framing m b (snd (frames m b bs)) \<noteq> Malformed"

lemma stream_ok_prefix: "stream_ok m b (bs @ d) \<Longrightarrow> stream_ok m b bs"
proof (rule ccontr)
  assume ok: "stream_ok m b (bs @ d)" and "\<not> stream_ok m b bs"
  then have M: "framing m b (snd (frames m b bs)) = Malformed" by (simp add: stream_ok_def)
  from framing_append(2) [OF this, of d] have "framing m b (snd (frames m b (bs @ d))) = Malformed"
    by (simp add: frames_append [of m b bs d] frames_stop [of m b "snd (frames m b bs) @ d"])
  with ok show False by (simp add: stream_ok_def)
qed

subsection \<open>Runs\<close>

text \<open>
  A run calls \<open>ReadRequestFromClient\<close> for connected clients in any order; \<open>received c\<close> are the
  bytes the server has of client \<open>c\<close> since the start, \<open>handed c\<close> the requests its handlers saw.
\<close>

inductive io_run ::
  "io_state \<Rightarrow> io_state \<Rightarrow> (nat \<Rightarrow> byte list) \<Rightarrow> (nat \<Rightarrow> byte list list) \<Rightarrow> bool" for s0 :: io_state where
  start: "io_run s0 s0 (pending s0) (\<lambda>_. [])"
| call: "io_run s0 s received handed \<Longrightarrow> good_env E \<Longrightarrow> trans_conn (osPrivate s c) \<Longrightarrow>
     ReadRequestFromClient E c s = (r, s') \<Longrightarrow> 0 \<le> r \<Longrightarrow>
     io_run s0 s' (received(c := received c @ bytes_read E c s))
       (if r = 0 then handed else handed(c := handed c @ [the (current_request s' c)]))"

lemma io_run_static: "io_run s0 s received handed \<Longrightarrow> static s = static s0"
  by (induction rule: io_run.induct) (simp_all add: ReadRequest_static)

lemma static_eqD: "static s = static s0 \<Longrightarrow> msb_client s c = msb_client s0 c \<and> big_client s c = big_client s0 c"
  by (drule fun_cong [of _ _ c]) (simp add: static_def)

lemma io_run_wf: "io_run s0 s received handed \<Longrightarrow> io_wf s0 \<Longrightarrow> io_wf s"
proof (induction rule: io_run.induct)
  case (call s received handed E c r s')
  with ReadRequest_others [of s E c] show ?case by (simp add: others_def good_env_def)
qed simp

text \<open>What one call adds for its own client.\<close>

lemma call_frames:
  assumes "io_wf s" "trans_conn (osPrivate s c)" "good_env E" "ReadRequestFromClient E c s = (r, s')" "0 \<le> r"
  defines "m \<equiv> msb_client s c" and "b \<equiv> big_client s c" and "q \<equiv> pending s c @ bytes_read E c s"
  assumes ok: "framing m b (snd (frames m b q)) \<noteq> Malformed"
  shows "frames m b q =
    ((if r = 0 then [] else [the (current_request s' c)]) @ fst (frames m b (pending s' c)),
     snd (frames m b (pending s' c)))"
proof -
  have "framing m b q \<noteq> Malformed"
    using ok frames_stop [of m b q] by (cases "framing m b q") auto
  note F = ReadRequest_effect [OF assms(1-5) this [unfolded m_def b_def q_def],
      folded m_def b_def, folded q_def]
  show ?thesis
  proof (cases "framing m b q")
    case (Request k)
    then show ?thesis
      using F framing_bounds(1) [OF Request] by (simp add: frames_Request hands_out_def)
  next
    case (Incomplete k)
    then show ?thesis using F by (simp add: frames_stop)
  next
    case Malformed
    with F show ?thesis by simp
  qed
qed

lemma io_run_frames:
  "io_run s0 s received handed \<Longrightarrow> io_wf s0 \<Longrightarrow>
   stream_ok (msb_client s0 c) (big_client s0 c) (received c) \<Longrightarrow>
   frames (msb_client s0 c) (big_client s0 c) (received c) =
     (handed c @ fst (frames (msb_client s0 c) (big_client s0 c) (pending s c)),
      snd (frames (msb_client s0 c) (big_client s0 c) (pending s c)))"
proof (induction rule: io_run.induct)
  case start
  then show ?case by simp
next
  case (call s received handed E c0 r s')
  let ?m = "msb_client s0 c" and ?b = "big_client s0 c"
  have wf: "io_wf s" using call by (blast intro: io_run_wf)
  show ?case
  proof (cases "c0 = c")
    case False
    moreover have "pending s' c = pending s c"
      using ReadRequest_others [OF wf, of E c0] call False by (simp add: others_def good_env_def)
    ultimately show ?thesis using call by simp
  next
    case True
    let ?d = "bytes_read E c s"
    have ok: "stream_ok ?m ?b (received c @ ?d)" using call True by simp
    have IH: "frames ?m ?b (received c) =
        (handed c @ fst (frames ?m ?b (pending s c)), snd (frames ?m ?b (pending s c)))"
      using call stream_ok_prefix [OF ok] by simp
    have m: "msb_client s c = ?m" "big_client s c = ?b"
      using static_eqD [OF io_run_static [OF call(1)], of c] by simp_all
    note A = frames_append [of ?m ?b "received c" ?d] frames_append [of ?m ?b "pending s c" ?d]
    have S: "snd (frames ?m ?b (received c @ ?d)) = snd (frames ?m ?b (pending s c @ ?d))"
      unfolding A IH by simp
    have Q: "frames ?m ?b (pending s c @ ?d) =
      ((if r = 0 then [] else [the (current_request s' c)]) @ fst (frames ?m ?b (pending s' c)),
       snd (frames ?m ?b (pending s' c)))"
      using call_frames [of s c E r s'] wf call True m ok S by (simp add: stream_ok_def)
    have "frames ?m ?b (received c @ ?d) =
      (handed c @ fst (frames ?m ?b (pending s c @ ?d)), snd (frames ?m ?b (pending s c @ ?d)))"
      unfolding A IH by simp
    then show ?thesis using True Q by simp
  qed
qed

subsection \<open>Arriving requests are handed out\<close>

text \<open>
  The transport holds the stream \<open>bs\<close> for the client and answers a read of \<open>n\<close> bytes with at
  most \<open>j + 1\<close> of them. \<open>poll\<close> calls \<open>ReadRequestFromClient\<close> again while it returns 0, as
  \<open>Dispatch\<close> does when \<open>select\<close> reports more input.
\<close>

definition serving :: "os_env \<Rightarrow> nat \<Rightarrow> byte list \<Rightarrow> os_env" where
  "serving E j bs = E\<lparr>trans_read :=
     (\<lambda>n. if bs = [] then Read_again else Read_bytes (take (min n (Suc j)) bs))\<rparr>"

fun poll :: "os_env \<Rightarrow> nat list \<Rightarrow> nat \<Rightarrow> byte list \<Rightarrow> io_state \<Rightarrow> int \<times> io_state" where
  "poll E [] c bs s = (0, s)"
| "poll E (j # js) c bs s =
     (let (r, s') = ReadRequestFromClient (serving E j bs) c s
      in if r = 0 then poll E js c (drop (length (bytes_read (serving E j bs) c s)) bs) s' else (r, s'))"

lemma serving_good: "malloc_ok E \<Longrightarrow> grow_ok E \<Longrightarrow> good_env (serving E j bs)"
  by (auto simp: serving_def good_env_def read_bounded_def)

lemma framing_Incomplete_le:
  assumes "framing m b p = Incomplete k'" "framing m b (p @ d) = Request k"
  shows "k' \<le> k" "length p < k'"
proof -
  show "length p < k'" using framing_bounds(2) [OF assms(1)] by simp
  show "k' \<le> k"
  proof (cases "headless m b p")
    case True
    show ?thesis
    proof (cases "length p < 4")
      case True
      then show ?thesis using assms framing_bounds(1) [OF assms(2)] by (simp add: framing_def)
    next
      case False
      with True have "is_big m b (p @ d)" by (simp add: headless_def is_big_append)
      then show ?thesis
        using framing_Request_big [OF assms(2)] framing_headless [OF True] assms(1) False by simp
    qed
  next
    case False
    from framing_append(3) [OF assms(1) this, of d] assms(2) show ?thesis
      by (auto simp: upto_def split: if_splits)
  qed
qed

text \<open>One call either hands out the request or makes progress.\<close>

lemma poll_step:
  assumes wf: "io_wf s" "trans_conn (osPrivate s c)" and E: "malloc_ok E" "grow_ok E"
    and m: "m = msb_client s c" "b = big_client s c"
    and F: "framing m b (pending s c @ bs) = Request k" and k: "k \<le> MAXBUFSIZE"
    and R: "ReadRequestFromClient (serving E j bs) c s = (r, s')"
  defines "d \<equiv> bytes_read (serving E j bs) c s"
  shows "r = int k \<and> current_request s' c = Some (contents m b (pending s c @ bs) k) \<or>
     r = 0 \<and> pending s' c = pending s c @ d \<and> d \<noteq> [] \<and> bs = d @ drop (length d) bs \<and>
     length (pending s c @ d) < k"
proof -
  let ?p = "pending s c" and ?E = "serving E j bs"
  have T: "case framing m b ?p of
     Request k \<Rightarrow> read_room ?E c s = None \<and> hands_out c m b ?p k (r, s')
   | Incomplete k \<Rightarrow>
       if k > MAXBUFSIZE then r = - 1
       else \<exists>room \<ge> k - length ?p. read_room ?E c s = Some room \<and> read_outcome c m b ?p (trans_read ?E room) (r, s')
   | Malformed \<Rightarrow> True"
    using ReadRequest_frames [OF wf, of ?E] serving_good [OF E, of j bs] R m
    by (simp only: good_env_def fst_conv)
  show ?thesis
  proof (cases "framing m b ?p")
    case (Request k')
    then have "k' = k" using framing_append(1) [OF Request, of bs] F by simp
    then show ?thesis
      using T Request by (simp add: hands_out_def contents_Request_append)
  next
    case (Incomplete k')
    note le = framing_Incomplete_le [OF Incomplete F]
    obtain room where room: "room \<ge> k' - length ?p" "read_room ?E c s = Some room"
      and O: "read_outcome c m b ?p (trans_read ?E room) (r, s')"
      using T Incomplete le k by auto
    have bs: "bs \<noteq> []"
      using framing_bounds(1) [OF F] le by auto
    then have d: "d = take (min room (Suc j)) bs"
      using room(2) by (simp add: d_def bytes_read_def serving_def)
    then have tr: "trans_read ?E room = Read_bytes d"
      using bs by (simp add: serving_def)
    have nz: "d \<noteq> []" using d bs room(1) le by simp
    have split: "bs = d @ drop (length d) bs" unfolding d by (simp add: min_def)
    have O: "case framing m b (?p @ d) of
        Request k' \<Rightarrow> hands_out c m b (?p @ d) k' (r, s')
      | Incomplete k' \<Rightarrow> keeps c (?p @ d) (r, s')
      | Malformed \<Rightarrow> True"
      using O nz by (simp add: tr read_outcome_def)
    have A: "framing m b ((?p @ d) @ drop (length d) bs) = Request k" using F split by simp
    show ?thesis
    proof (cases "framing m b (?p @ d)")
      case (Request k'')
      then have "k'' = k" using framing_append(1) [OF Request, of "drop (length d) bs"] A by simp
      moreover have "contents m b (?p @ bs) k'' = contents m b (?p @ d) k''"
        using contents_Request_append [OF Request, of "drop (length d) bs"] split by simp
      ultimately show ?thesis using O Request by (simp add: hands_out_def)
    next
      case (Incomplete k'')
      then show ?thesis
        using O nz split framing_Incomplete_le [OF Incomplete A] by (auto simp: keeps_def)
    next
      case Malformed
      then show ?thesis using framing_append(2) [OF Malformed, of "drop (length d) bs"] A by simp
    qed
  next
    case Malformed
    then show ?thesis using framing_append(2) [OF Malformed, of bs] F by simp
  qed
qed

lemma poll_delivers:
  "io_wf s \<Longrightarrow> trans_conn (osPrivate s c) \<Longrightarrow> malloc_ok E \<Longrightarrow> grow_ok E \<Longrightarrow>
   framing (msb_client s c) (big_client s c) (pending s c @ bs) = Request k \<Longrightarrow> k \<le> MAXBUFSIZE \<Longrightarrow>
   max 1 (k - length (pending s c)) \<le> length js \<Longrightarrow>
   \<exists>s'. poll E js c bs s = (int k, s') \<and>
     current_request s' c = Some (contents (msb_client s c) (big_client s c) (pending s c @ bs) k)"
proof (induction js arbitrary: bs s)
  case Nil
  then show ?case by simp
next
  case (Cons j js)
  let ?E = "serving E j bs" and ?m = "msb_client s c" and ?b = "big_client s c"
  obtain r s' where R: "ReadRequestFromClient ?E c s = (r, s')" by (cases "ReadRequestFromClient ?E c s")
  let ?d = "bytes_read ?E c s"
  note P = poll_step [OF Cons.prems(1-4) refl refl Cons.prems(5,6) R]
  have k: "k \<noteq> 0" using framing_bounds(1) [OF Cons.prems(5)] by auto
  show ?case
  proof (cases "r = 0")
    case False
    with P R show ?thesis by (auto simp: Let_def)
  next
    case True
    with P k have D: "pending s' c = pending s c @ ?d" "?d \<noteq> []" "bs = ?d @ drop (length ?d) bs"
      "length (pending s c @ ?d) < k" by auto
    have st: "msb_client s' c = ?m" "big_client s' c = ?b" "trans_conn (osPrivate s' c)"
      using fun_cong [OF ReadRequest_static [OF R], of c] Cons.prems(2) by (simp_all add: static_def)
    have "io_wf s'"
      using ReadRequest_others [OF Cons.prems(1), of ?E c] R serving_good [OF Cons.prems(3,4), of j bs]
      by (simp add: others_def good_env_def)
    moreover have app: "pending s' c @ drop (length ?d) bs = pending s c @ bs"
      unfolding D(1) append_assoc D(3) [symmetric] by (rule refl)
    moreover have "max 1 (k - length (pending s' c)) \<le> length js"
      using Cons.prems(7) D(1,2,4) by (cases ?d) auto
    ultimately obtain s'' where "poll E js c (drop (length ?d) bs) s' = (int k, s'')"
      "current_request s'' c = Some (contents ?m ?b (pending s c @ bs) k)"
      using Cons.IH [of s' "drop (length ?d) bs"] st Cons.prems(3-6) by (auto simp: st app)
    with True R show ?thesis by (simp add: Let_def)
  qed
qed

subsection \<open>The properties\<close>

text \<open>
  Examples: client 0 has two requests waiting, an ordinary one and a big one; client 1 has an empty
  buffer that is on offer to the others; client 2 has none.
\<close>

definition requests_example :: "byte list" where
  "requests_example = [1,0,2,0, 5,6,7,8, 9,0,0,0, 3,0,0,0, 7,7,7,7]"

definition loaded_example :: ConnectionInput where
  "loaded_example = \<lparr>buffer = requests_example, bufptr = 0, bufcnt = 20, lenLastReq = 0, oci_size = 20\<rparr>"

definition io_example :: io_state where
  "io_example = \<lparr>osPrivate = (\<lambda>c. \<lparr>oc_fd = c,
       oc_input = (if c = 0 then Some loaded_example
                   else if c = 1 then Some (loaded_example\<lparr>lenLastReq := 20\<rparr>) else None),
       oc_output = None, trans_conn = True, sent = []\<rparr>),
     io_clients = (\<lambda>_. \<lparr>client_swapped = False, big_requests = True, client_req_len = 0,
       requestBuffer = 0, client_sequence = 0, clientGone = False, noClientException = 0,
       clientRunning = True, replyBytesRemaining = 0\<rparr>),
     host_msb = False, AvailableInput = Some 1, FreeInputs = [], FreeOutputs = [],
     ClientsWithInput = {}, IgnoredClientsWithInput = {}, AllClients = {0, 1, 2}, OutputPending = {},
     ClientsWriteBlocked = {}, AnyClientsWriteBlocked = False, NewOutputPending = False,
     CriticalOutputPending = False, ConnectionTranslation = (\<lambda>fd. fd), ReplyCallback = False,
     reply_calls = [], isItTimeToYield = False, timesThisConnection = 0,
     SmartScheduleDisable = False\<rparr>"

definition env_example :: os_env where
  "env_example = \<lparr>malloc_ok = True, grow_ok = True, shrink_ok = True, fresh = (\<lambda>_. 0),
     trans_read = (\<lambda>n. Read_again), trans_writev = (\<lambda>c i n. Written n)\<rparr>"

lemma io_example_wf: "io_wf io_example"
  by (auto simp: io_wf_def io_example_def loaded_example_def requests_example_def input_ok_def pending_def
      unread_def advance_request_def in_buffer_def split: if_splits)

lemma env_example_good: "good_env env_example" "malloc_ok env_example" "grow_ok env_example" "read_bounded env_example"
  by (simp_all add: env_example_def good_env_def read_bounded_def)

lemma io_example_sel [simp]:
  "trans_conn (osPrivate io_example c)" "msb_client io_example c = False" "big_client io_example c = True"
  "pending io_example 0 = requests_example" "pending io_example 2 = []"
  by (simp_all add: io_example_def msb_client_def big_client_def pending_def unread_def in_buffer_def
      advance_request_def loaded_example_def requests_example_def)

lemma framing_example: "framing False True requests_example = Request 8"
  "contents False True requests_example 8 = [1,0,2,0,5,6,7,8]"
  by code_simp+

lemma stream_example: "frames False True requests_example = ([[1,0,2,0,5,6,7,8], [9,0,0,0,7,7,7,7]], [])"
  by (simp add: requests_example_def frames.simps framing_def upto_def is_big_def card16_def card32_def
      contents_def) 

text \<open>
  C26. For a client whose connection is open, with memory to be had, \<open>ReadRequestFromClient\<close>
  returns the next request exactly when all its bytes are there, before or after one \<open>read\<close>: it
  returns the number of its bytes, takes these from the pending bytes and leaves the request in one
  piece, a big one without its length. Otherwise it returns 0 and keeps all bytes, those just read
  at the end; it gives up on an error, an end of file and a request above the limit. When the request
  is there it does not read; when it reads there is room for the rest of what is needed.
\<close>

theorem ReadRequestFromClient_frames:
  assumes "io_wf s" "trans_conn (osPrivate s c)" "malloc_ok E" "grow_ok E" "read_bounded E"
  defines "m \<equiv> msb_client s c" and "b \<equiv> big_client s c" and "R \<equiv> ReadRequestFromClient E c s"
  shows "case framing m b (pending s c) of
     Request k \<Rightarrow> read_room E c s = None \<and> hands_out c m b (pending s c) k R
   | Incomplete k \<Rightarrow>
       if k > MAXBUFSIZE then fst R = - 1
       else \<exists>room \<ge> k - length (pending s c). read_room E c s = Some room \<and>
         read_outcome c m b (pending s c) (trans_read E room) R
   | Malformed \<Rightarrow> True"
  unfolding m_def b_def R_def by (rule ReadRequest_frames [OF assms(1-5)])

theorem ReadRequestFromClient_frames_witness:
  "hands_out 0 False True requests_example 8 (ReadRequestFromClient env_example 0 io_example) \<and>
   keeps 2 [] (ReadRequestFromClient env_example 2 io_example)"
proof -
  have "framing False True [] = Incomplete 4" by (simp add: framing_def)
  then have "keeps 2 [] (ReadRequestFromClient env_example 2 io_example)"
    using ReadRequestFromClient_frames [OF io_example_wf, of 2 env_example] env_example_good
    by (auto simp: MAXBUFSIZE_def read_outcome_def env_example_def)
  then show ?thesis
    using ReadRequestFromClient_frames [OF io_example_wf, of 0 env_example] env_example_good
    by (simp add: framing_example)
qed



text \<open>
  C25. However the transport cuts the bytes of the clients into reads, and however the server
  interleaves its clients: the requests handed to the handlers of a client, followed by those that
  are still in its buffer, are the requests into which the protocol divides the bytes received, and
  the rest of the buffer is the incomplete rest of that stream.
\<close>

theorem ReadRequestFromClient_stream:
  assumes "io_wf s0" "io_run s0 s received handed"
    and "stream_ok (msb_client s0 c) (big_client s0 c) (received c)"
  shows "frames (msb_client s0 c) (big_client s0 c) (received c) =
     (handed c @ fst (frames (msb_client s0 c) (big_client s0 c) (pending s c)),
      snd (frames (msb_client s0 c) (big_client s0 c) (pending s c)))"
  using assms(2,1,3) by (rule io_run_frames)

lemma run_example:
  "\<exists>s'. io_run io_example s' (pending io_example) ((\<lambda>_. [])(0 := [[1,0,2,0,5,6,7,8]])) \<and>
     pending s' 0 = drop 8 requests_example"
proof -
  obtain r s' where R: "ReadRequestFromClient env_example 0 io_example = (r, s')"
    by (cases "ReadRequestFromClient env_example 0 io_example")
  have "read_room env_example 0 io_example = None \<and>
      hands_out 0 False True requests_example 8 (ReadRequestFromClient env_example 0 io_example)"
    using ReadRequest_frames [OF io_example_wf, of 0 env_example] env_example_good
    by (simp add: framing_example)
  then have "read_room env_example 0 io_example = None" "r = 8" "pending s' 0 = drop 8 requests_example"
    "current_request s' 0 = Some [1,0,2,0,5,6,7,8]"
    by (simp_all add: hands_out_def R framing_example)
  moreover have "(pending io_example)(0 := requests_example) = pending io_example"
    by (simp add: fun_upd_idem)
  ultimately have "io_run io_example s' (pending io_example) ((\<lambda>_. [])(0 := [[1,0,2,0,5,6,7,8]]))"
    using call [OF start env_example_good(1) _ R] by simp
  with \<open>pending s' 0 = drop 8 requests_example\<close> show ?thesis by blast
qed

theorem ReadRequestFromClient_stream_witness:
  "\<exists>s'. io_run io_example s' (pending io_example) ((\<lambda>_. [])(0 := [[1,0,2,0,5,6,7,8]])) \<and>
     frames False True (pending io_example 0) =
       ([[1,0,2,0,5,6,7,8]] @ fst (frames False True (pending s' 0)), snd (frames False True (pending s' 0)))"
proof -
  obtain s' where R: "io_run io_example s' (pending io_example) ((\<lambda>_. [])(0 := [[1,0,2,0,5,6,7,8]]))"
    using run_example by blast
  have "stream_ok False True (pending io_example 0)"
    by (simp add: stream_ok_def stream_example framing_def)
  with ReadRequestFromClient_stream [OF io_example_wf R, of 0] R show ?thesis by auto
qed

text \<open>
  C27. A request of at most the limit that the transport delivers is handed out: as long as every
  read returns at least one byte, it takes at most as many calls as bytes were missing.
\<close>

theorem ReadRequestFromClient_delivers:
  assumes "io_wf s" "trans_conn (osPrivate s c)" "malloc_ok E" "grow_ok E"
    and "framing (msb_client s c) (big_client s c) (pending s c @ bs) = Request k" "k \<le> MAXBUFSIZE"
    and "max 1 (k - length (pending s c)) \<le> length js"
  shows "\<exists>s'. poll E js c bs s = (int k, s') \<and>
     current_request s' c = Some (contents (msb_client s c) (big_client s c) (pending s c @ bs) k)"
  using assms by (rule poll_delivers)

theorem ReadRequestFromClient_delivers_witness:
  "\<exists>s'. poll env_example [2,0,0,0,0,0,0,0] 2 requests_example io_example = (int 8, s') \<and>
     current_request s' 2 = Some [1,0,2,0,5,6,7,8]"
  using ReadRequestFromClient_delivers [of io_example 2 env_example requests_example 8 "[2,0,0,0,0,0,0,0]"]
    io_example_wf env_example_good
  by (simp add: framing_example MAXBUFSIZE_def)

end
