(* ===== verification/RequestReplay.thy ===== *)
theory RequestReplay
  imports RequestRuns
begin

text \<open>
  Requests that are put in or put back: \<open>InsertFakeRequest\<close> and \<open>ResetCurrentRequest\<close>; the client's
  mark in \<open>ClientsWithInput\<close>; and the lengths of big requests with which the code loses the
  division of the stream.
\<close>

subsection \<open>InsertFakeRequest\<close>

lemma grow_for_facts:
  assumes "base_ok oci" "g = in_buffer oci" "grow_for E g n oci = Some oci1"
  shows "base_ok oci1" "unread oci1 = unread oci" "in_buffer oci1 = g" "lenLastReq oci1 = lenLastReq oci"
    "g + n \<le> oci_size oci1"
proof -
  have "base_ok oci1 \<and> unread oci1 = unread oci \<and> in_buffer oci1 = g \<and> lenLastReq oci1 = lenLastReq oci \<and>
    g + n \<le> oci_size oci1"
  proof (cases "g + n > oci_size oci")
    case False
    with assms show ?thesis by (simp add: grow_for_def)
  next
    case True
    with assms(3) have o: "oci1 = oci\<lparr>oci_size := g + n, buffer := realloc_block E (buffer oci) (g + n),
        bufptr := bufcnt oci - g\<rparr>"
      by (simp add: grow_for_def split: if_splits)
    have "bufcnt oci \<le> g + n" "bufcnt oci - g = bufptr oci" using assms(1,2) True by (auto simp: base_ok_def in_buffer_def)
    then show ?thesis
      using assms(1,2) unfolding o by (simp add: base_ok_def unread_split in_buffer_def take_realloc)
  qed
  then show "base_ok oci1" "unread oci1 = unread oci" "in_buffer oci1 = g" "lenLastReq oci1 = lenLastReq oci"
    "g + n \<le> oci_size oci1" by simp_all
qed

lemma splice_facts:
  assumes "base_ok oci" "g = in_buffer oci" "g + length data \<le> oci_size oci"
  shows "base_ok (splice data g oci) \<and> unread (splice data g oci) = data @ unread oci \<and>
    lenLastReq (splice data g oci) = lenLastReq oci"
proof (cases "length data > bufptr oci")
  case True
  let ?n = "length data"
  define b where "b = (if g > 0 then write_at (buffer oci) ?n (take g (drop (bufptr oci) (buffer oci))) else buffer oci)"
  have b: "length b = length (buffer oci)" "take g (drop ?n b) = unread oci"
    using assms by (auto simp: b_def length_write_at drop_write_at_here base_ok_def in_buffer_def unread_def)
  have n: "?n \<le> length b" "bufcnt oci + (?n - bufptr oci) = ?n + g" 
    using assms True b(1) by (auto simp: base_ok_def in_buffer_def)
  have s: "splice data g oci = oci\<lparr>buffer := write_at b 0 data, bufptr := 0, bufcnt := ?n + g\<rparr>"
    using True n(2) by (simp add: splice_def b_def Let_def)
  show ?thesis
    using assms(1,3) b n(1) unfolding s by (simp add: base_ok_def unread_def in_buffer_def write_at_def)
next
  case False
  then have s: "splice data g oci =
      oci\<lparr>buffer := write_at (buffer oci) (bufptr oci - length data) data, bufptr := bufptr oci - length data\<rparr>"
    by (simp add: splice_def Let_def)
  have le: "bufptr oci \<le> bufcnt oci" "bufcnt oci \<le> length (buffer oci)" "oci_size oci = length (buffer oci)"
    using assms(1) by (simp_all add: base_ok_def)
  have n: "bufcnt oci - (bufptr oci - length data) = length data + in_buffer oci"
    using False le by (simp add: in_buffer_def)
  have "drop (bufptr oci - length data) (write_at (buffer oci) (bufptr oci - length data) data) =
      data @ drop (bufptr oci) (buffer oci)"
    using False le by (simp add: drop_write_at_here)
  then have "unread (splice data g oci) = data @ unread oci"
    unfolding s by (simp add: unread_def in_buffer_def n [unfolded in_buffer_def])
  moreover have "base_ok (splice data g oci)"
    using False le unfolding s by (simp add: base_ok_def length_write_at)
  ultimately show ?thesis by (simp add: s)
qed

lemma same_input_select: "same_input s (s\<lparr>ClientsWithInput := v\<rparr>)" "same_input s (s\<lparr>IgnoredClientsWithInput := v\<rparr>)"
  by (simp_all add: same_input_def)

lemma InsertFakeRequest_effect:
  assumes wf: "io_wf s" and R: "InsertFakeRequest E c data s = (ok, s')"
  shows "others c s s'" "pending s' c = (if ok then data @ pending s c else pending s c)"
    "malloc_ok E \<Longrightarrow> grow_ok E \<Longrightarrow> ok"
proof -
  let ?s = "release_available c s"
  note r = release_available_facts [OF wf, of c]
  have "others c s s' \<and> pending s' c = (if ok then data @ pending s c else pending s c) \<and>
    (malloc_ok E \<longrightarrow> grow_ok E \<longrightarrow> ok)"
  proof (cases "obtain_input E c ?s")
    case None
    with R r obtain_input_total [of E c ?s] show ?thesis
      by (auto simp: InsertFakeRequest_def Let_def others_def)
  next
    case (Some p)
    obtain oci0 s1 where O: "obtain_input E c ?s = Some (oci0, s1)" using Some by (cases p) auto
    note o = obtain_input_facts [OF r(1,3) O]
    define oci where "oci = (advance_request oci0)\<lparr>lenLastReq := 0\<rparr>"
    have oci: "base_ok oci" "lenLastReq oci = 0" "unread oci = pending s c"
      using o(5,6) r(2) base_ok_advance by (simp_all add: oci_def)
    have put: "others c s (put_input c (Some x) s1)" "pending (put_input c (Some x) s1) c = unread x"
      if "base_ok x" "lenLastReq x = 0" for x
      using others_put_input [OF o(1,3) base_ok_input_ok [OF that]] o(2) r(2) that
      by (simp_all add: others_def pending_put_input advance_zero)
    have R: "(case grow_for E (in_buffer oci) (length data) oci of None \<Rightarrow> (False, put_input c (Some oci) s1)
       | Some oci1 \<Rightarrow> let oci2 = splice data (in_buffer oci) oci1; got = in_buffer oci + length data;
             s2 = put_input c (Some oci2) s1
         in (True, if got \<ge> sz_xReq \<and> got \<ge> unat (push_bit 2 (get_req_len s2 c (buffer oci2) (bufptr oci2)))
                   then s2\<lparr>ClientsWithInput := insert (oc_fd (osPrivate ?s c)) (ClientsWithInput s2)\<rparr>
                   else YieldControlNoInput (oc_fd (osPrivate ?s c)) s2)) = (ok, s')"
      using R by (simp only: InsertFakeRequest_def Let_def O option.case prod.case oci_def)
    show ?thesis
    proof (cases "grow_for E (in_buffer oci) (length data) oci")
      case None
      then show ?thesis using R put [OF oci(1,2)] oci(3) by (auto simp: grow_for_def split: if_splits)
    next
      case (Some oci1)
      note g = grow_for_facts [OF oci(1) refl Some]
      let ?o = "splice data (in_buffer oci) oci1"
      have sp: "base_ok ?o \<and> unread ?o = data @ unread oci \<and> lenLastReq ?o = 0"
        using splice_facts [of oci1 "in_buffer oci" data] g oci(2) by simp
      have "ok" "same_input (put_input c (Some ?o) s1) s'"
        using R Some same_input_select same_input_intros(3) by (auto simp: Let_def split: if_splits)
      then show ?thesis
        using put [of ?o] sp oci(3) others_same_input same_input_pending by simp
    qed
  qed
  then show "others c s s'" "pending s' c = (if ok then data @ pending s c else pending s c)"
    "malloc_ok E \<Longrightarrow> grow_ok E \<Longrightarrow> ok" by simp_all
qed

subsection \<open>ResetCurrentRequest\<close>

lemma rev_card32_bytes: "rev (card32_bytes msb x) = card32_bytes (\<not> msb) x"
  by (simp add: card32_bytes_def Let_def)

lemma length_card32_bytes [simp]: "length (card32_bytes msb x) = 4"
  by (simp add: card32_bytes_def Let_def)

lemma card32_of_bytes: "card32 msb (card32_bytes msb x) 0 = x"
proof (rule bit_word_eqI)
  fix n assume "n < LENGTH(32)"
  then consider "n < 8" | "8 \<le> n" "n < 16" | "16 \<le> n" "n < 24" | "24 \<le> n" "n < 32"
    by (simp, linarith)
  then show "bit (card32 msb (card32_bytes msb x) 0) n \<longleftrightarrow> bit x n"
    by cases (auto simp: card32_def card16_def card32_bytes_def bit_simps numeral_2_eq_2 numeral_3_eq_3)
qed

lemma card32_bytes_card32: "card32 msb (p @ card32_bytes msb x @ r) (length p) = x"
proof -
  have "card32 msb (p @ card32_bytes msb x @ r) (length p) = card32 msb (card32_bytes msb x) 0"
    by (rule card32_cong) (simp add: nth_append)
  then show ?thesis by (simp add: card32_of_bytes)
qed

lemma restore_big_facts:
  assumes "base_ok oci" "4 \<le> bufptr oci" "4 \<le> in_buffer oci"
  shows "base_ok (restore_big c s oci)" "lenLastReq (restore_big c s oci) = lenLastReq oci"
    "unread (restore_big c s oci) = take 4 (unread oci) @
       card32_bytes (msb_client s c) (client_req_len (io_clients s c)) @ drop 4 (unread oci)"
proof -
  let ?b = "buffer oci" and ?p = "bufptr oci - 4" and ?l = "card32_bytes (msb_client s c) (client_req_len (io_clients s c))"
  let ?h = "take 4 (drop (bufptr oci) ?b)" and ?g = "in_buffer oci"
  have le: "bufptr oci + ?g = bufcnt oci" "bufcnt oci \<le> length ?b" using assms(1) by (auto simp: base_ok_def in_buffer_def)
  have R: "restore_big c s oci = oci\<lparr>bufptr := ?p, buffer := write_at (write_at ?b ?p ?h) (?p + 4) ?l\<rparr>"
    by (auto simp: restore_big_def sz_xReq_def sz_xBigReq_def Let_def rev_card32_bytes msb_client_def)
  have h: "length ?h = 4" using le assms(3) by simp
  have w: "length (write_at ?b ?p ?h) = length ?b" "take (?p + 4) (write_at ?b ?p ?h) = take ?p ?b @ ?h"
    using le assms(2) h by (simp_all add: length_write_at write_at_def)
  have "write_at (write_at ?b ?p ?h) (?p + 4) ?l = take ?p ?b @ ?h @ ?l @ drop (?p + 8) (write_at ?b ?p ?h)"
    unfolding write_at_def [of "write_at ?b ?p ?h"] w(2) by (simp add: add.commute)
  also have "drop (?p + 8) (write_at ?b ?p ?h) = drop (bufptr oci + 4) ?b"
    using le assms(2) h by (simp add: drop_write_at add.commute)
  finally have B: "write_at (write_at ?b ?p ?h) (?p + 4) ?l = take ?p ?b @ ?h @ ?l @ drop (bufptr oci + 4) ?b" .
  show "base_ok (restore_big c s oci)" "lenLastReq (restore_big c s oci) = lenLastReq oci"
    using assms le h w(1) unfolding R by (simp_all add: base_ok_def length_write_at)
  have "in_buffer (restore_big c s oci) = ?g + 4" using le assms(2) unfolding R by (simp add: in_buffer_def)
  moreover have "length (take ?p ?b) = ?p" using le by simp
  ultimately have "unread (restore_big c s oci) = take (?g + 4) (?h @ ?l @ drop (bufptr oci + 4) ?b)"
    unfolding unread_def by (simp add: R B)
  then show "unread (restore_big c s oci) = take 4 (unread oci) @ ?l @ drop 4 (unread oci)"
    using h assms(3) by (simp add: unread_def drop_take min_def add.commute)
qed

lemma io_wf_input: "io_wf s \<Longrightarrow> oc_input (osPrivate s c) = Some oci \<Longrightarrow> input_ok oci"
  by (simp add: io_wf_def)

lemma ResetCurrentRequest_effect:
  assumes wf: "io_wf s" and i: "oc_input (osPrivate s c) = Some oci"
    and big: "is_big (msb_client s c) (big_client s c) (unread oci) \<Longrightarrow> 4 \<le> bufptr oci"
  shows "others c s (ResetCurrentRequest c s)"
    "pending (ResetCurrentRequest c s) c =
       (if 4 \<le> length (unread oci) \<and> is_big (msb_client s c) (big_client s c) (unread oci)
        then take 4 (unread oci) @ card32_bytes (msb_client s c) (client_req_len (io_clients s c)) @ drop 4 (unread oci)
        else unread oci)"
proof -
  let ?s = "if AvailableInput s = Some c then s\<lparr>AvailableInput := None\<rparr> else s" and ?o = "oci\<lparr>lenLastReq := 0\<rparr>"
  define o1 where "o1 = (if 4 \<le> length (unread oci) \<and> is_big (msb_client s c) (big_client s c) (unread oci)
     then restore_big c ?s ?o else ?o)"
  have ok: "base_ok oci" "bufcnt oci \<le> length (buffer oci)"
    using io_wf_input [OF wf i] by (auto simp: input_ok_def base_ok_def)
  have s: "io_wf ?s" "pending ?s c' = pending s c'" "AvailableInput ?s \<noteq> Some c" 
    "msb_client ?s c' = msb_client s c'" "big_client ?s c' = big_client s c'"
    "io_clients ?s = io_clients s" for c'
    using wf by (auto simp: io_wf_def pending_def msb_client_def big_client_def)
  have len: "in_buffer oci = length (unread oci)" using ok length_unread [of oci] by simp
  have R: "same_input (put_input c (Some o1) ?s) (ResetCurrentRequest c s)"
  proof (cases "length (unread oci) < 4")
    case True
    then have "ResetCurrentRequest c s = YieldControlNoInput (oc_fd (osPrivate s c)) (put_input c (Some o1) ?s)"
      by (simp add: ResetCurrentRequest_def i Let_def len sz_xReq_def o1_def)
    then show ?thesis by (simp add: same_input_intros)
  next
    case False
    have "(get_req_len ?s c (buffer ?o) (bufptr ?o) = 0 \<and> big_requests (io_clients ?s c)) =
        is_big (msb_client s c) (big_client s c) (unread oci)"
      using get_req_len_unread [of ?o ?s c] ok False s(4) [of c] s(6) len
      by (auto simp: is_big_def big_client_def ucast_zero_iff)
    then show ?thesis
      using False same_input_select same_input_intros(2,3)
      by (auto simp: ResetCurrentRequest_def i Let_def len sz_xReq_def o1_def same_input_def)
  qed
  have o1: "base_ok o1" "lenLastReq o1 = 0" "unread o1 =
      (if 4 \<le> length (unread oci) \<and> is_big (msb_client s c) (big_client s c) (unread oci)
        then take 4 (unread oci) @ card32_bytes (msb_client s c) (client_req_len (io_clients s c)) @ drop 4 (unread oci)
        else unread oci)"
    using restore_big_facts [of ?o c ?s] ok big len s(4,6) by (auto simp: o1_def)
  have "others c s (put_input c (Some o1) ?s)"
    using io_wf_put_input [OF s(1) base_ok_input_ok [OF o1(1,2)]] s(2,3) by (simp add: others_def pending_put_input)
  then show "others c s (ResetCurrentRequest c s)" using R by (rule others_same_input)
  show "pending (ResetCurrentRequest c s) c =
       (if 4 \<le> length (unread oci) \<and> is_big (msb_client s c) (big_client s c) (unread oci)
        then take 4 (unread oci) @ card32_bytes (msb_client s c) (client_req_len (io_clients s c)) @ drop 4 (unread oci)
        else unread oci)"
    unfolding same_input_pending [OF R] pending_put_input using o1(3) by (simp add: advance_zero o1(2))
qed

subsection \<open>The properties\<close>

text \<open>
  C29. \<open>InsertFakeRequest\<close> puts its bytes before everything the client has pending, or, when there is
  no memory, leaves these as they were; no other client notices.
\<close>

theorem InsertFakeRequest_prepends:
  assumes "io_wf s" "InsertFakeRequest E c data s = (ok, s')"
  shows "io_wf s' \<and> (\<forall>c'. c' \<noteq> c \<longrightarrow> pending s' c' = pending s c') \<and>
    pending s' c = (if ok then data @ pending s c else pending s c) \<and>
    (malloc_ok E \<and> grow_ok E \<longrightarrow> ok)"
  using InsertFakeRequest_effect [OF assms] by (simp add: others_def)

theorem InsertFakeRequest_prepends_witness:
  "\<exists>s'. InsertFakeRequest env_example 0 [1,2,3,4] io_example = (True, s') \<and>
     pending s' 0 = [1,2,3,4] @ requests_example"
proof -
  obtain ok s' where R: "InsertFakeRequest env_example 0 [1,2,3,4] io_example = (ok, s')"
    by (cases "InsertFakeRequest env_example 0 [1,2,3,4] io_example")
  from InsertFakeRequest_prepends [OF io_example_wf R] env_example_good R show ?thesis by auto
qed

lemma handed_out:
  assumes "io_wf s" "trans_conn (osPrivate s c)" "good_env E" "ReadRequestFromClient E c s = (r, s')" "0 < r"
    and "framing (msb_client s c) (big_client s c) (pending s c @ bytes_read E c s) \<noteq> Malformed"
  obtains k oci where
    "framing (msb_client s c) (big_client s c) (pending s c @ bytes_read E c s) = Request k" "r = int k"
    "oc_input (osPrivate s' c) = Some oci"
    "kept (msb_client s c) (big_client s c) (pending s c @ bytes_read E c s) oci"
    "current_request s' c = Some (contents (msb_client s c) (big_client s c) (pending s c @ bytes_read E c s) k)"
    "io_wf s'" "msb_client s' c = msb_client s c" "big_client s' c = big_client s c"
    "\<And>c'. c' \<noteq> c \<Longrightarrow> pending s' c' = pending s c'"
proof -
  have st: "msb_client s' c = msb_client s c" "big_client s' c = big_client s c"
    using fun_cong [OF ReadRequest_static [OF assms(4)], of c] by (simp_all add: static_def)
  have o: "io_wf s'" "\<And>c'. c' \<noteq> c \<Longrightarrow> pending s' c' = pending s c'"
    using ReadRequest_others [OF assms(1), of E c] assms(3,4) by (simp_all add: others_def good_env_def)
  show thesis
    using ReadRequest_effect [OF assms(1-4) _ assms(6)] assms(5) that [OF _ _ _ _ _ o(1) st o(2)]
    by (auto simp: hands_out_def split: framing.splits)
qed



lemma request_bytes_current:
  assumes "io_wf s" "current_request s c = Some xs"
  shows "request_bytes s c = length xs"
proof -
  obtain oci where oci: "oc_input (osPrivate s c) = Some oci"
    "requestBuffer (io_clients s c) + request_bytes s c \<le> bufcnt oci"
    "xs = take (request_bytes s c) (drop (requestBuffer (io_clients s c)) (buffer oci))"
    using assms(2) by (auto simp: current_request_def split: option.splits if_splits)
  then have "requestBuffer (io_clients s c) + request_bytes s c \<le> length (buffer oci)"
    using io_wf_input [OF assms(1)] by (fastforce simp: input_ok_def)
  then show ?thesis using oci(3) by simp
qed

lemma shrunk_framing:
  assumes "framing m b q = Request k" "is_big m b q" "12 \<le> k" "4 * unat n = k - 4"
  shows "framing m b (take 4 q @ card32_bytes m n @ drop 8 q) = Request (k - 4)"
proof -
  let ?q = "take 4 q @ card32_bytes m n @ drop 8 q"
  have k: "k \<le> length q" "unat (card32 m q 4) < 2 ^ 30" "k = 4 * unat (card32 m q 4)"
    using assms(1-3) by (auto simp: framing_def upto_def Let_def split: if_splits)
  then have len: "length ?q = length q" and 4: "length (take 4 q) = 4" using assms(3) by simp_all
  have big: "is_big m b ?q"
    using assms(2) is_big_append [of "take 4 q" m b "card32_bytes m n @ drop 8 q"]
      is_big_append [of "take 4 q" m b "drop 4 q"] 4 by simp
  have "card32 m ?q 4 = n" using card32_bytes_card32 [of m "take 4 q" n "drop 8 q"] 4 by simp
  moreover have "2 \<le> unat n" "unat n < 2 ^ 30" "4 * unat n \<le> length q"
    using k assms(3,4) by linarith+
  ultimately show ?thesis
    using big len k(1) assms(3) by (simp add: framing_def upto_def Let_def flip: assms(4))
qed

text \<open>
  A big request does not come again as it was: its length was reduced by the word that the
  header covers, and \<open>ResetCurrentRequest\<close> stores the reduced length in front of all its bytes. The
  next call therefore cuts the stream one word too early.
\<close>

theorem ResetCurrentRequest_big_shrinks:
  assumes "io_wf s" "trans_conn (osPrivate s c)" "good_env E" "ReadRequestFromClient E c s = (r, s')" "0 < r"
  defines "m \<equiv> msb_client s c" and "b \<equiv> big_client s c" and "q \<equiv> pending s c @ bytes_read E c s"
  assumes "framing m b q = Request k" "is_big m b q" "12 \<le> k"
  shows "drop 8 (pending (ResetCurrentRequest c s') c) = drop 8 q \<and>
    framing m b (pending (ResetCurrentRequest c s') c) = Request (k - 4)"
proof -
  obtain oci where H: "oc_input (osPrivate s' c) = Some oci" "kept m b q oci" 
    "current_request s' c = Some (contents m b q k)" "io_wf s'" "msb_client s' c = m" "big_client s' c = b"
    using assms(9) by (auto intro: handed_out [OF assms(1-5)] simp: m_def b_def q_def)
  let ?n = "client_req_len (io_clients s' c)"
  have k: "k \<le> length q" using framing_bounds(1) [OF assms(9)] by simp
  have u: "unread oci = take 4 q @ drop 8 q" "4 \<le> bufptr oci" "4 \<le> length (unread oci)"
    using H(2) assms(10,11) k by (auto simp: kept_def)
  have big: "is_big m b (unread oci)"
    using assms(10,11) k is_big_append [of "take 4 q" m b "drop 8 q"] is_big_append [of "take 4 q" m b "drop 4 q"]
    by (simp add: u(1))
  have "request_bytes s' c = k - 4"
    using request_bytes_current [OF H(4,3)] assms(10,11) k by (simp add: contents_def)
  then have n: "4 * unat ?n = k - 4" using assms(11) by (simp add: request_bytes_def max_def split: if_splits)
  have P: "pending (ResetCurrentRequest c s') c = take 4 q @ card32_bytes m ?n @ drop 8 q"
    using ResetCurrentRequest_effect(2) [OF H(4,1)] H(5,6) u(2,3) big k assms(11) by (simp add: u(1))
  show ?thesis
    using shrunk_framing [OF assms(9-11) n] k assms(11) by (simp add: P)
qed

text \<open>Client 0 of the example when its first request is done: a big request of three words.\<close>

definition io_big :: io_state where
  "io_big = put_input 0 (Some (loaded_example\<lparr>bufptr := 8\<rparr>)) io_example"

lemma io_big_facts:
  "io_wf io_big" "pending io_big 0 = drop 8 requests_example" "static io_big = static io_example"
  "framing False True (drop 8 requests_example) = Request 12" "is_big False True (drop 8 requests_example)"
proof -
  have ok: "input_ok (loaded_example\<lparr>bufptr := 8\<rparr>)"
    by (simp add: input_ok_def loaded_example_def requests_example_def)
  show "io_wf io_big"
    unfolding io_big_def using io_example_wf ok by (rule io_wf_put_input) (simp add: io_example_def)
  show "pending io_big 0 = drop 8 requests_example"
    by (simp add: io_big_def pending_put_input unread_def loaded_example_def advance_request_def in_buffer_def
        requests_example_def)
  show "static io_big = static io_example" by (simp add: io_big_def)
qed (simp_all add: requests_example_def framing_def upto_def is_big_def card16_def card32_def)

theorem ResetCurrentRequest_big_shrinks_witness:
  "\<exists>r s'. ReadRequestFromClient env_example 0 io_big = (r, s') \<and>
     framing False True (pending (ResetCurrentRequest 0 s') 0) = Request 8"
proof -
  have m: "msb_client io_big 0 = False" "big_client io_big 0 = True" "trans_conn (osPrivate io_big 0)"
    using fun_cong [OF io_big_facts(3), of 0] by (simp_all add: static_def)
  obtain r s' where R: "ReadRequestFromClient env_example 0 io_big = (r, s')"
    by (cases "ReadRequestFromClient env_example 0 io_big")
  have "read_room env_example 0 io_big = None" "r = 12"
    using ReadRequest_frames [OF io_big_facts(1) m(3), of env_example] env_example_good
    by (simp_all add: io_big_facts(2,4) m hands_out_def R)
  then show ?thesis
    using ResetCurrentRequest_big_shrinks [OF io_big_facts(1) m(3) env_example_good(1) R, of 12] R
    by (simp add: m io_big_facts(2,4,5))
qed

subsection \<open>Lengths with which the stream is lost\<close>

text \<open>
  A request whose length is acceptable to the arithmetic is handed out from the buffer, also where
  \<open>framing\<close> calls the length malformed.
\<close>

lemma ReadRequest_ready:
  assumes "io_wf s" "malloc_ok E"
    and W: "words_at (msb_client s c) (big_client s c) (pending s c) = (n, mv, nd)"
    and le: "4 \<le> length (pending s c)" "unat (push_bit 2 n) \<le> length (pending s c)"
  obtains oci s2 where
    "ReadRequestFromClient E c s = finish_request c oci (length (pending s c)) (push_bit 2 n) mv s2"
    "base_ok oci" "unread oci = pending s c" "in_buffer oci = length (pending s c)"
    "client_req_len (io_clients s2 c) = n" "big_client s2 c = big_client s c"
proof -
  obtain oci s1 where R: "ReadRequestFromClient E c s =
       (case first_look c oci (in_buffer oci) s1 of (needed, need, move, s2) \<Rightarrow>
          if in_buffer oci < unat needed
          then (case read_more E c oci (in_buffer oci) needed need move s2 of
                  Inl r \<Rightarrow> r | Inr (oci', got, needed', mv, s3) \<Rightarrow> finish_request c oci' got needed' mv s3)
          else finish_request c oci (in_buffer oci) needed move s2)"
    and oci: "base_ok oci" "unread oci = pending s c" "in_buffer oci = length (unread oci)"
    and s1: "msb_client s1 c = msb_client s c" "big_client s1 c = big_client s c"
    by (rule ReadRequest_start [OF assms(1) obtain_input_total [OF assms(2)], of c]) blast
  have "first_look c oci (in_buffer oci) s1 = (push_bit 2 n, nd, mv, set_req_len c n s1)"
    using first_look_unread [OF oci(1), of c s1] le(1) W s1 oci(2) by simp
  with R le(2) oci s1 show thesis by (intro that [of oci "set_req_len c n s1"]) simp_all
qed

text \<open>
  C31. The number of bytes of a big request is computed in 32 bits. When it is a multiple of
  \<open>2 ^ 32\<close> the eight bytes of the header pass for the whole request: the call succeeds with a
  length of eight bytes, which passes the dispatcher's check, and \<open>req_len\<close> promises the
  handler four gigabytes of request that are not in the buffer.
\<close>

theorem ReadRequestFromClient_length_wraps:
  assumes "io_wf s" "malloc_ok E" "is_big (msb_client s c) (big_client s c) (pending s c)"
    and "8 \<le> length (pending s c)" "length (pending s c) < 2 ^ 31"
  defines "n \<equiv> card32 (msb_client s c) (pending s c) 4"
  assumes "n \<noteq> 0" "push_bit 2 n = 0" "ReadRequestFromClient E c s = (r, s')"
  shows "r = 8 \<and> client_req_len (io_clients s' c) = n - 1 \<and> current_request s' c = None"
proof -
  let ?p = "pending s c"
  have b: "big_client s c" using assms(3) by (simp add: is_big_def)
  have W: "words_at (msb_client s c) (big_client s c) ?p = (n, True, False)"
    using assms(3,4) by (simp add: words_at_def n_def)
  obtain oci s2 where F: "finish_request c oci (length ?p) (push_bit 2 n) True s2 = (r, s')"
    and oci: "base_ok oci" "in_buffer oci = length ?p"
    and s2: "client_req_len (io_clients s2 c) = n" "big_client s2 c = big_client s c"
    by (rule ReadRequest_ready [OF assms(1,2) W]) (use assms(4,8,9) in auto)
  have k: "8 = taken_bytes c (push_bit 2 n) s2" using b s2(2) assms(8) by (simp add: taken_bytes_def)
  note S = finish_request_sel [OF F k]
  have "2 ^ 32 dvd 4 * unat n"
    using arg_cong [OF assms(8), of unat] by (simp add: push_bit_eq_mult unat_word_ariths mod_eq_0_iff_dvd)
  moreover have "0 < unat n" using assms(7) by (simp add: unat_gt_0)
  ultimately have n: "2 ^ 30 \<le> unat n" using dvd_imp_le [of "2 ^ 32" "4 * unat n"] by simp
  then have n1: "n > 1" by (simp add: word_less_nat_alt)
  have n2: "unat (n - 1) = unat n - 1" using assms(7) by (rule unat_minus_one)
  have q: "client_req_len (io_clients s' c) = n - 1" using S(6) s2(1) n1 by simp
  have "\<not> bufptr (finished oci 8 True) + request_bytes s' c \<le> bufcnt (finished oci 8 True)"
  proof -
    have "request_bytes s' c \<ge> 4 * (2 ^ 30 - 1)" using n n2 by (simp add: request_bytes_def q)
    moreover have "bufcnt (finished oci 8 True) \<le> bufptr (finished oci 8 True) + length ?p"
      using oci by (simp add: finished_def move_request_def in_buffer_def base_ok_def Let_def)
    ultimately show ?thesis using assms(5) by simp
  qed
  then show ?thesis
    using S(1,2,5) q by (simp add: current_request_def)
qed

text \<open>Client 0 again, with a big request of \<open>2 ^ 30\<close> or of one word.\<close>

definition io_length :: "byte list \<Rightarrow> io_state" where
  "io_length l = put_input 0 (Some \<lparr>buffer = [9,0,0,0] @ l @ [7,7,7,7], bufptr = 0, bufcnt = 12,
     lenLastReq = 0, oci_size = 12\<rparr>) io_example"

lemma io_length_facts:
  assumes "length l = 4"
  shows "io_wf (io_length l)" "pending (io_length l) 0 = [9,0,0,0] @ l @ [7,7,7,7]"
    "msb_client (io_length l) 0 = False" "big_client (io_length l) 0 = True"
proof -
  show "io_wf (io_length l)"
    unfolding io_length_def
    by (rule io_wf_put_input [OF io_example_wf]) (use assms in \<open>simp_all add: input_ok_def io_example_def\<close>)
  show "pending (io_length l) 0 = [9,0,0,0] @ l @ [7,7,7,7]"
    using assms by (simp add: io_length_def pending_put_input unread_def advance_request_def in_buffer_def)
qed (simp_all add: io_length_def msb_client_def big_client_def io_example_def)

theorem ReadRequestFromClient_length_wraps_witness:
  "\<exists>s'. ReadRequestFromClient env_example 0 (io_length [0,0,0,64]) = (8, s') \<and>
     client_req_len (io_clients s' 0) = 2 ^ 30 - 1 \<and> current_request s' 0 = None"
proof -
  obtain r s' where R: "ReadRequestFromClient env_example 0 (io_length [0,0,0,64]) = (r, s')"
    by (cases "ReadRequestFromClient env_example 0 (io_length [0,0,0,64])")
  have "is_big False True [9,0,0,0,0,0,0,64,7,7,7,7]" by code_simp
  moreover have "card32 False [9,0,0,0,0,0,0,64,7,7,7,7] 4 = 2 ^ 30" by code_simp
  ultimately show ?thesis
    using ReadRequestFromClient_length_wraps [OF io_length_facts(1) env_example_good(2) _ _ _ _ _ R] R
    by (simp add: io_length_facts)
qed

text \<open>
  A big request of one word claims to end within its own header. The call hands out the first
  four bytes and leaves the header in the stream again, now in front of what followed the length.
\<close>

theorem ReadRequestFromClient_short_big_repeats:
  assumes "io_wf s" "malloc_ok E" "is_big (msb_client s c) (big_client s c) (pending s c)"
    and "8 \<le> length (pending s c)" "card32 (msb_client s c) (pending s c) 4 = 1"
    and "ReadRequestFromClient E c s = (r, s')"
  shows "r = 4 \<and> client_req_len (io_clients s' c) = 0 \<and>
    pending s' c = take 4 (pending s c) @ drop 8 (pending s c)"
proof -
  let ?p = "pending s c"
  have W: "words_at (msb_client s c) (big_client s c) ?p = (1, True, False)"
    using assms(3-5) by (simp add: words_at_def)
  have 4: "push_bit 2 (1 :: CARD32) = 4" by simp
  obtain oci s2 where F: "finish_request c oci (length ?p) (push_bit 2 1) True s2 = (r, s')"
    and oci: "base_ok oci" "unread oci = ?p" "in_buffer oci = length ?p"
    and s2: "client_req_len (io_clients s2 c) = 1"
    by (rule ReadRequest_ready [OF assms(1,2) W]) (use assms(4,6) in auto)
  note S = finish_request_sel [OF F, of 4]
  have k: "4 = taken_bytes c (push_bit 2 1) s2" by (simp add: taken_bytes_def)
  have "kept (msb_client s c) (big_client s c) ?p (finished oci 4 True)"
    using finished_kept [OF oci(1), of 4 True "msb_client s c" "big_client s c"] oci assms(3,4) by simp
  moreover have "lenLastReq (finished oci 4 True) = 0"
    by (simp add: finished_def move_request_def sz_xReq_def sz_xBigReq_def Let_def)
  ultimately have "pending s' c = take 4 ?p @ drop 8 ?p"
    using S(2) k assms(3) by (simp add: pending_def advance_zero kept_def)
  then show ?thesis using S(1,6) k s2 by simp
qed

theorem ReadRequestFromClient_short_big_repeats_witness:
  "\<exists>s'. ReadRequestFromClient env_example 0 (io_length [1,0,0,0]) = (4, s') \<and>
     pending s' 0 = [9,0,0,0,7,7,7,7]"
proof -
  obtain r s' where R: "ReadRequestFromClient env_example 0 (io_length [1,0,0,0]) = (r, s')"
    by (cases "ReadRequestFromClient env_example 0 (io_length [1,0,0,0])")
  have "is_big False True [9,0,0,0,1,0,0,0,7,7,7,7]" "card32 False [9,0,0,0,1,0,0,0,7,7,7,7] 4 = 1"
    by (simp_all add: is_big_def card16_def card32_def)
  then show ?thesis
    using ReadRequestFromClient_short_big_repeats [OF io_length_facts(1) env_example_good(2) _ _ _ R] R
    by (simp add: io_length_facts)
qed

end
