(* ===== verification/ClientOutput.thy ===== *)
theory ClientOutput
  imports OsBuffers
begin

text \<open>
  Output to clients, \<^verbatim>\<open>programs/Xserver/os/io.c\<close>: \<open>WriteToClient\<close>, \<open>FlushClient\<close>, \<open>FlushAllOutput\<close>
  and the flags of critical output, for the build without LBX and debugging output.
\<close>

definition padlength :: "nat \<Rightarrow> nat" where
  "padlength n = [0, 3, 2, 1] ! (n mod 4)"

definition X_Reply :: byte where "X_Reply = 1"
definition sz_xReply :: CARD32 where "sz_xReply = 32"

definition MarkClientException :: "io_client \<Rightarrow> io_client" where
  "MarkClientException cl = cl\<lparr>noClientException := - 1\<rparr>"

definition disconnect :: "nat \<Rightarrow> io_state \<Rightarrow> io_state" where
  "disconnect c = put_comm c (\<lambda>oc. oc\<lparr>trans_conn := False\<rparr>)"

subsection \<open>FlushClient\<close>

text \<open>
  The macro that adds a piece to the vector for \<open>writev\<close>: \<open>before\<close> bytes have been written
  already, \<open>remain\<close> may be written this time.
\<close>

definition InsertIOV :: "byte list \<Rightarrow> nat \<Rightarrow> int \<times> int \<times> byte list list \<Rightarrow> int \<times> int \<times> byte list list" where
  "InsertIOV p l st = (case st of (before, remain, iov) \<Rightarrow>
     let d = int l - before; len = (if d > remain then remain else d)
     in if len \<le> 0 then (- len, remain, iov)
        else (0, remain - len, iov @ [take (nat len) (drop (nat before) p)]))"

definition flush_iov :: "ConnectionOutput \<Rightarrow> byte list \<Rightarrow> nat \<Rightarrow> nat \<Rightarrow> byte list list" where
  "flush_iov oco extra written todo =
     (let st0 = (int written, int todo, []);
          st1 = InsertIOV (oco_buf oco) (oco_count oco) st0;
          st2 = InsertIOV extra (length extra) st1;
          st3 = InsertIOV (replicate 3 0) (padlength (length extra)) st2
      in snd (snd st3))"

text \<open>The client does not keep up: what is left is buffered.\<close>

definition unsent :: "nat \<Rightarrow> ConnectionOutput \<Rightarrow> ConnectionOutput \<times> nat" where
  "unsent written oco =
     (if written < oco_count oco
      then (if written > 0
            then (let n = oco_count oco - written
                  in (oco\<lparr>oco_count := n, oco_buf := write_at (oco_buf oco) 0 (take n (drop written (oco_buf oco)))\<rparr>, 0))
            else (oco, written))
      else (oco\<lparr>oco_count := 0\<rparr>, written - oco_count oco))"

definition flush_blocked ::
  "os_env \<Rightarrow> nat \<Rightarrow> byte list \<Rightarrow> nat \<Rightarrow> nat \<Rightarrow> ConnectionOutput \<Rightarrow> io_state \<Rightarrow> int \<times> io_state" where
  "flush_blocked E c extra written notWritten oco0 s0 =
     (let s = s0\<lparr>ClientsWriteBlocked := insert (oc_fd (osPrivate s0 c)) (ClientsWriteBlocked s0),
                 AnyClientsWriteBlocked := True\<rparr>;
          (oco, w) = unsent written oco0
      in if notWritten > oco_size oco \<and> \<not> grow_ok E
         then (- 1, put_client c MarkClientException (disconnect c (put_output c (Some (oco\<lparr>oco_count := 0\<rparr>)) s)))
         else
           let oco1 = (if notWritten > oco_size oco
                       then oco\<lparr>oco_size := notWritten + BUFSIZE,
                                oco_buf := realloc_block E (oco_buf oco) (notWritten + BUFSIZE)\<rparr>
                       else oco);
               oco2 = (if length extra > w
                       then oco1\<lparr>oco_buf := write_at (oco_buf oco1) (oco_count oco1) (drop w extra)\<rparr>
                       else oco1)
           in (int (length extra), put_output c (Some (oco2\<lparr>oco_count := notWritten\<rparr>)) s))"

text \<open>The connection is broken.\<close>

definition flush_failed :: "nat \<Rightarrow> ConnectionOutput \<Rightarrow> io_state \<Rightarrow> int \<times> io_state" where
  "flush_failed c oco s =
     (let s1 = (if trans_conn (osPrivate s c) then disconnect c s else s)
      in (- 1, put_output c (Some (oco\<lparr>oco_count := 0\<rparr>)) (put_client c MarkClientException s1)))"

text \<open>Everything is written: the buffer goes to the spare ones, unless it is too big.\<close>

definition flush_done :: "nat \<Rightarrow> byte list \<Rightarrow> ConnectionOutput \<Rightarrow> io_state \<Rightarrow> int \<times> io_state" where
  "flush_done c extra oco0 s =
     (let oco = oco0\<lparr>oco_count := 0\<rparr>;
          s1 = (if AnyClientsWriteBlocked s
                then (let b = ClientsWriteBlocked s - {oc_fd (osPrivate s c)}
                      in s\<lparr>ClientsWriteBlocked := b, AnyClientsWriteBlocked := (b \<noteq> {})\<rparr>)
                else s);
          s2 = (if oco_size oco > BUFWATERMARK then s1 else s1\<lparr>FreeOutputs := oco # FreeOutputs s1\<rparr>)
      in (int (length extra), put_output c None s2))"

text \<open>
  The loop around \<open>writev\<close>. It may go on for ever when the transport keeps accepting nothing.
  \<open>i\<close> counts the calls.
\<close>

partial_function (option) flush_loop ::
  "os_env \<Rightarrow> nat \<Rightarrow> byte list \<Rightarrow> ConnectionOutput \<Rightarrow> nat \<Rightarrow> nat \<Rightarrow> nat \<Rightarrow> nat \<Rightarrow> io_state \<Rightarrow> (int \<times> io_state) option" where
  "flush_loop E c extra oco i written notWritten todo s =
     (if notWritten = 0 then Some (flush_done c extra oco s)
      else if \<not> trans_conn (osPrivate s c) then Some (flush_failed c oco s)
      else
        let data = concat (flush_iov oco extra written todo)
        in (case trans_writev E c i (length data) of
              Written n \<Rightarrow>
                flush_loop E c extra oco (i + 1) (written + n) (notWritten - n) (notWritten - n)
                  (put_comm c (\<lambda>oc. oc\<lparr>sent := sent oc @ take n data\<rparr>) s)
            | Write_again \<Rightarrow> Some (flush_blocked E c extra written notWritten oco s)
            | Write_too_long \<Rightarrow>
                if todo = 1 then Some (flush_blocked E c extra written notWritten oco s)
                else flush_loop E c extra oco (i + 1) written notWritten (todo div 2) s
            | Write_error \<Rightarrow> Some (flush_failed c oco s)))"

definition FlushClient :: "os_env \<Rightarrow> nat \<Rightarrow> byte list \<Rightarrow> io_state \<Rightarrow> (int \<times> io_state) option" where
  "FlushClient E c extra s = (case oc_output (osPrivate s c) of None \<Rightarrow> Some (0, s)
     | Some oco \<Rightarrow>
         let n = oco_count oco + length extra + padlength (length extra)
         in flush_loop E c extra oco 0 0 n n s)"

subsection \<open>WriteToClient\<close>

definition obtain_output :: "os_env \<Rightarrow> nat \<Rightarrow> io_state \<Rightarrow> (ConnectionOutput \<times> io_state) option" where
  "obtain_output E c s = (case oc_output (osPrivate s c) of Some oco \<Rightarrow> Some (oco, s)
     | None \<Rightarrow> (case FreeOutputs s of
           oco # rest \<Rightarrow> Some (oco, put_output c (Some oco) (s\<lparr>FreeOutputs := rest\<rparr>))
         | [] \<Rightarrow> (case AllocateOutputBuffer E of None \<Rightarrow> None
             | Some oco \<Rightarrow> Some (oco, put_output c (Some oco) s))))"

text \<open>
  The callbacks on replies: the rest of a reply, or the start of one, whose length the client's byte
  order holds in its second word. The length of a new reply is computed in 32 bits and kept in 64.
\<close>

definition call_reply :: "nat \<Rightarrow> byte list \<Rightarrow> nat \<Rightarrow> bool \<Rightarrow> 64 word \<Rightarrow> io_state \<Rightarrow> io_state" where
  "call_reply c buf n start remaining s =
     (put_client c (\<lambda>cl. cl\<lparr>replyBytesRemaining := remaining\<rparr>) s)\<lparr>reply_calls := reply_calls s @
        [\<lparr>reply_client = c, replyData = buf, dataLenBytes = n, startOfReply = start, bytesRemaining = remaining\<rparr>]\<rparr>"

definition tell_reply :: "nat \<Rightarrow> byte list \<Rightarrow> io_state \<Rightarrow> io_state" where
  "tell_reply c buf s =
     (let n = length buf + padlength (length buf); cl = io_clients s c
      in if \<not> ReplyCallback s then s
         else if replyBytesRemaining cl \<noteq> 0
         then call_reply c buf n False (replyBytesRemaining cl - of_nat n) s
         else if clientRunning cl \<and> hd buf = X_Reply
         then (let l = card32 (host_msb s) buf 4; replylen = (if client_swapped cl then lswapl l else l)
               in call_reply c buf n True (ucast (replylen * 4 + sz_xReply - of_nat n)) s)
         else s)"

definition WriteToClient :: "os_env \<Rightarrow> nat \<Rightarrow> byte list \<Rightarrow> io_state \<Rightarrow> (int \<times> io_state) option" where
  "WriteToClient E c buf s0 =
     (if buf = [] then Some (0, s0)
      else case obtain_output E c s0 of
        None \<Rightarrow> Some (- 1, put_client c MarkClientException
                           (if trans_conn (osPrivate s0 c) then disconnect c s0 else s0))
      | Some (oco, s1) \<Rightarrow>
          let padBytes = padlength (length buf); s = tell_reply c buf s1; fd = oc_fd (osPrivate s c)
          in if oco_count oco + length buf + padBytes > oco_size oco
             then (let p = OutputPending s - {fd};
                       s' = s\<lparr>OutputPending := p,
                              CriticalOutputPending := (CriticalOutputPending s \<and> p \<noteq> {}),
                              NewOutputPending := (NewOutputPending s \<and> p \<noteq> {})\<rparr>
                   in FlushClient E c buf s')
             else Some (int (length buf),
                    put_output c (Some (oco\<lparr>oco_buf := write_at (oco_buf oco) (oco_count oco) buf,
                                            oco_count := oco_count oco + length buf + padBytes\<rparr>))
                      (s\<lparr>NewOutputPending := True, OutputPending := insert fd (OutputPending s)\<rparr>)))"

subsection \<open>FlushAllOutput\<close>

text \<open>
  The descriptors with pending output, in order: a client that still has input waits, the others
  are flushed. \<open>None\<close> when a flush does not return. The code empties a word of the set before it goes
  through its bits and the model takes the descriptors out one by one, which is the same as long as
  the descriptor of a client translates to that client.
\<close>

definition flush_fd :: "os_env \<Rightarrow> nat \<Rightarrow> io_state \<Rightarrow> io_state option" where
  "flush_fd E fd s0 =
     (let s = s0\<lparr>OutputPending := OutputPending s0 - {fd}\<rparr>; c = ConnectionTranslation s fd
      in if c = 0 then Some s
         else if clientGone (io_clients s c) then Some s
         else if oc_fd (osPrivate s c) \<in> ClientsWithInput s
         then Some (s\<lparr>OutputPending := insert (oc_fd (osPrivate s c)) (OutputPending s), NewOutputPending := True\<rparr>)
         else map_option snd (FlushClient E c [] s))"

fun flush_fds :: "os_env \<Rightarrow> nat list \<Rightarrow> io_state \<Rightarrow> io_state option" where
  "flush_fds E [] s = Some s"
| "flush_fds E (fd # fds) s = (case flush_fd E fd s of None \<Rightarrow> None | Some s' \<Rightarrow> flush_fds E fds s')"

text \<open>\<open>callbacks\<close> are the registered flush callbacks; they run before anything is flushed.\<close>

definition FlushAllOutput :: "os_env \<Rightarrow> (io_state \<Rightarrow> io_state) \<Rightarrow> io_state \<Rightarrow> io_state option" where
  "FlushAllOutput E callbacks s0 =
     (let newoutput = NewOutputPending s0; s = callbacks s0
      in if \<not> newoutput then Some s
         else flush_fds E (sorted_list_of_set (OutputPending s))
                (s\<lparr>CriticalOutputPending := False, NewOutputPending := False\<rparr>))"

definition FlushIfCriticalOutputPending :: "os_env \<Rightarrow> (io_state \<Rightarrow> io_state) \<Rightarrow> io_state \<Rightarrow> io_state option" where
  "FlushIfCriticalOutputPending E callbacks s =
     (if CriticalOutputPending s then FlushAllOutput E callbacks s else Some s)"

definition SetCriticalOutputPending :: "io_state \<Rightarrow> io_state" where
  "SetCriticalOutputPending s = s\<lparr>CriticalOutputPending := True\<rparr>"

end
