(* ===== verification/OutputProofs.thy ===== *)
theory OutputProofs
  imports ClientOutput
begin

text \<open>
  The stream of output of a client: what its connection has been given, then what is buffered.
  \<open>WriteToClient\<close> appends to it whatever the transport accepts; \<open>FlushClient\<close> and
  \<open>FlushAllOutput\<close> leave it as it is.
\<close>

subsection \<open>The stream and the invariant\<close>

definition buffered :: "ConnectionOutput \<Rightarrow> byte list" where
  "buffered oco = take (oco_count oco) (oco_buf oco)"

definition out_stream :: "io_state \<Rightarrow> nat \<Rightarrow> byte list" where
  "out_stream s c = sent (osPrivate s c) @ (case oc_output (osPrivate s c) of None \<Rightarrow> [] | Some oco \<Rightarrow> buffered oco)"

definition output_ok :: "ConnectionOutput \<Rightarrow> bool" where
  "output_ok oco \<longleftrightarrow> oco_count oco \<le> oco_size oco \<and> oco_size oco = length (oco_buf oco)"

definition output_wf :: "io_state \<Rightarrow> bool" where
  "output_wf s \<longleftrightarrow> (\<forall>c oco. oc_output (osPrivate s c) = Some oco \<longrightarrow> output_ok oco) \<and>
     (\<forall>oco \<in> set (FreeOutputs s). output_ok oco \<and> oco_count oco = 0)"

text \<open>A \<open>writev\<close> that succeeds writes at least one and at most all of the bytes it is offered.\<close>

definition writev_ok :: "os_env \<Rightarrow> bool" where
  "writev_ok E \<longleftrightarrow> (\<forall>c i n m. 0 < n \<longrightarrow> trans_writev E c i n = Written m \<longrightarrow> 0 < m \<and> m \<le> n)"

lemma length_buffered: "output_ok oco \<Longrightarrow> length (buffered oco) = oco_count oco"
  by (simp add: buffered_def output_ok_def)

lemma write_at_length: "p + length xs \<le> length b \<Longrightarrow> length (write_at b p xs) = length b"
  by (simp add: write_at_def)

subsection \<open>The vector for \<open>writev\<close>\<close>

lemma InsertIOV_concat:
  assumes "l \<le> length p"
  obtains b' r' iov' where "InsertIOV p l (int b, int r, iov) = (int b', int r', iov')"
    "\<And>D. concat iov' @ take r' (drop b' D) = concat iov @ take r (drop b (take l p @ D))"
proof (cases "l \<le> b \<or> r = 0")
  case True
  have "InsertIOV p l (int b, int r, iov) = (int (b - l), int r, iov)" 
    "\<And>D. concat iov @ take r (drop (b - l) D) = concat iov @ take r (drop b (take l p @ D))" if "l \<le> b"
    using that assms by (auto simp: InsertIOV_def Let_def)
  moreover have "InsertIOV p l (int b, int r, iov) = (int 0, int r, iov)" if "\<not> l \<le> b" "r = 0"
    using that by (auto simp: InsertIOV_def Let_def)
  ultimately show thesis using True that [of "b - l" r iov] that [of 0 r iov] by (cases "l \<le> b") auto
next
  case False
  define n where "n = min r (l - b)"
  have I: "InsertIOV p l (int b, int r, iov) = (int 0, int (r - n), iov @ [take n (drop b p)])"
  proof (cases "r < l - b")
    case True
    then show ?thesis using False by (auto simp: InsertIOV_def Let_def n_def)
  next
    case less: False
    then have "\<not> int r < int l - int b" "n = l - b" "nat (int l - int b) = l - b"
      using False by (auto simp: n_def)
    then show ?thesis using False less by (auto simp: InsertIOV_def Let_def)
  qed
  have "take n (drop b p) @ take (r - n) D = take r (drop b (take l p @ D))" for D
    by (cases "l = length p") (use False assms in \<open>auto simp: n_def min_def drop_take\<close>)
  with I show thesis by (intro that [of 0 "r - n" "iov @ [take n (drop b p)]"]) simp_all
qed

lemma padlength_le: "padlength n \<le> 3" 
proof -
  consider "n mod 4 = 0" | "n mod 4 = 1" | "n mod 4 = 2" | "n mod 4 = 3" by linarith
  then show ?thesis by cases (simp_all add: padlength_def numeral_2_eq_2 numeral_3_eq_3)
qed

definition flush_data :: "ConnectionOutput \<Rightarrow> byte list \<Rightarrow> byte list" where
  "flush_data oco extra = buffered oco @ extra @ replicate (padlength (length extra)) 0"

lemma flush_iov_data:
  assumes "output_ok oco"
  shows "concat (flush_iov oco extra written todo) = take todo (drop written (flush_data oco extra))"
proof -
  let ?n = "padlength (length extra)"
  obtain b1 r1 v1 where 1: "InsertIOV (oco_buf oco) (oco_count oco) (int written, int todo, []) = (int b1, int r1, v1)"
    "\<And>D. concat v1 @ take r1 (drop b1 D) = take todo (drop written (take (oco_count oco) (oco_buf oco) @ D))"
    by (rule InsertIOV_concat [of "oco_count oco" "oco_buf oco" written todo "[]"]) (use assms in \<open>auto simp: output_ok_def\<close>)
  obtain b2 r2 v2 where 2: "InsertIOV extra (length extra) (int b1, int r1, v1) = (int b2, int r2, v2)"
    "\<And>D. concat v2 @ take r2 (drop b2 D) = concat v1 @ take r1 (drop b1 (take (length extra) extra @ D))"
    by (rule InsertIOV_concat [of "length extra" extra b1 r1 v1]) auto
  obtain b3 r3 v3 where 3: "InsertIOV (replicate 3 0) ?n (int b2, int r2, v2) = (int b3, int r3, v3)"
    "\<And>D. concat v3 @ take r3 (drop b3 D) = concat v2 @ take r2 (drop b2 (take ?n (replicate 3 0) @ D))"
    by (rule InsertIOV_concat [of ?n "replicate 3 0 :: byte list" b2 r2 v2]) (use padlength_le in auto)
  have "concat v3 = take todo (drop written (take (oco_count oco) (oco_buf oco) @ extra @ take ?n (replicate 3 0)))"
    using 3(2) [of "[]"] 2(2) [of "take ?n (replicate 3 0)"] 1(2) [of "extra @ take ?n (replicate 3 0)"] by simp
  then show ?thesis
    using 1(1) 2(1) 3(1) padlength_le [of "length extra"]
    by (simp add: flush_iov_def Let_def flush_data_def buffered_def min_def)
qed

subsection \<open>The loop of FlushClient\<close>

lemma put_output_simps [simp]:
  "osPrivate (put_output c o1 s) = (osPrivate s)(c := (osPrivate s c)\<lparr>oc_output := o1\<rparr>)"
  "FreeOutputs (put_output c o1 s) = FreeOutputs s" "io_clients (put_output c o1 s) = io_clients s"
  "osPrivate (put_client c f s) = osPrivate s" "FreeOutputs (put_client c f s) = FreeOutputs s"
  "io_clients (put_client c f s) = (io_clients s)(c := f (io_clients s c))"
  "osPrivate (disconnect c s) = (osPrivate s)(c := (osPrivate s c)\<lparr>trans_conn := False\<rparr>)"
  "FreeOutputs (disconnect c s) = FreeOutputs s" "io_clients (disconnect c s) = io_clients s"
  by (simp_all add: put_output_def put_comm_def put_client_def disconnect_def)

text \<open>
  The state after a flush of the data \<open>T\<close> that began with \<open>S0\<close> sent: either all of \<open>T\<close>, with
  arbitrary padding, is sent or buffered, or the client is marked and a part of \<open>T\<close> was sent. The other
  clients are as they were.
\<close>

definition only_output :: "nat \<Rightarrow> io_state \<Rightarrow> io_state \<Rightarrow> bool" where
  "only_output c s s' \<longleftrightarrow> output_wf s' \<and>
     (\<forall>c'. c' \<noteq> c \<longrightarrow> osPrivate s' c' = osPrivate s c' \<and> io_clients s' c' = io_clients s c')"

definition flushed :: "nat \<Rightarrow> byte list \<Rightarrow> byte list \<Rightarrow> byte list \<Rightarrow> io_state \<Rightarrow> int \<times> io_state \<Rightarrow> bool" where
  "flushed c S0 B X s = (\<lambda>(r, s'). only_output c s s' \<and>
     (if r = - 1
      then noClientException (io_clients s' c) = - 1 \<and>
           (\<exists>n. out_stream s' c = S0 @ take n (B @ X @ replicate (padlength (length X)) 0))
      else r = int (length X) \<and> noClientException (io_clients s' c) = noClientException (io_clients s c) \<and>
           (\<exists>pad. length pad = padlength (length X) \<and> out_stream s' c = S0 @ B @ X @ pad)))"

text \<open>What has been sent when \<open>w\<close> bytes of the data are written.\<close>

definition progress :: "nat \<Rightarrow> byte list \<Rightarrow> byte list \<Rightarrow> ConnectionOutput \<Rightarrow> nat \<Rightarrow> io_state \<Rightarrow> bool" where
  "progress c S0 T oco w s \<longleftrightarrow> output_wf s \<and> output_ok oco \<and> oc_output (osPrivate s c) = Some oco \<and>
     sent (osPrivate s c) = S0 @ take w T \<and> w \<le> length T"

lemma unsent_facts:
  assumes "output_ok oco" "unsent w oco = (o1, w1)"
  shows "oco_count oco \<le> w \<Longrightarrow> w1 = w - oco_count oco \<and> oco_count o1 = 0"
    "buffered o1 = drop w (buffered oco)" "output_ok o1" "oco_size o1 = oco_size oco"
    "w < oco_count oco \<Longrightarrow> w1 = 0 \<and> oco_count o1 = oco_count oco - w"
  using assms by (auto simp: unsent_def buffered_def output_ok_def write_at_def drop_take Let_def split: if_splits)

text \<open>The buffer that keeps what was not sent.\<close>

definition kept_output :: "os_env \<Rightarrow> byte list \<Rightarrow> nat \<Rightarrow> nat \<Rightarrow> ConnectionOutput \<Rightarrow> ConnectionOutput" where
  "kept_output E extra w nw oco =
     (let (o1, w1) = unsent w oco;
          o2 = (if nw > oco_size o1
                then o1\<lparr>oco_size := nw + BUFSIZE, oco_buf := realloc_block E (oco_buf o1) (nw + BUFSIZE)\<rparr> else o1);
          o3 = (if length extra > w1
                then o2\<lparr>oco_buf := write_at (oco_buf o2) (oco_count o2) (drop w1 extra)\<rparr> else o2)
      in o3\<lparr>oco_count := nw\<rparr>)"

lemma kept_output_facts:
  assumes ok: "output_ok oco" and nw: "w + nw = oco_count oco + length extra + padlength (length extra)"
  shows "output_ok (kept_output E extra w nw oco)" "length (buffered (kept_output E extra w nw oco)) = nw"
    "\<exists>rest. buffered (kept_output E extra w nw oco) = drop w (buffered oco @ extra) @ rest"
proof -
  obtain o1 w1 where U: "unsent w oco = (o1, w1)" by (cases "unsent w oco")
  note u = unsent_facts [OF ok U]
  define o2 where "o2 = (if nw > oco_size o1
      then o1\<lparr>oco_size := nw + BUFSIZE, oco_buf := realloc_block E (oco_buf o1) (nw + BUFSIZE)\<rparr> else o1)"
  have o2: "oco_count o2 = oco_count o1" "nw \<le> oco_size o2" "oco_size o2 = length (oco_buf o2)"
    "take (oco_count o1) (oco_buf o2) = buffered o1"
    using u(3) by (auto simp: o2_def output_ok_def buffered_def realloc_block_def)
  define b where "b = (if length extra > w1 then write_at (oco_buf o2) (oco_count o1) (drop w1 extra) else oco_buf o2)"
  have K: "kept_output E extra w nw oco = o2\<lparr>oco_buf := b, oco_count := nw\<rparr>"
    by (simp add: kept_output_def U o2_def [symmetric] b_def o2(1) Let_def)
  have D: "drop w (buffered oco @ extra) = buffered o1 @ drop w1 extra"
    using u(1,2,5) length_buffered [OF ok] by (cases "w < oco_count oco") auto
  have le: "oco_count o1 + (length extra - w1) \<le> nw"
    using u(1,5) nw by (cases "w < oco_count oco") auto
  then have lb: "length b = length (oco_buf o2)" using o2 by (auto simp: b_def write_at_length)
  show "output_ok (kept_output E extra w nw oco)" "length (buffered (kept_output E extra w nw oco)) = nw"
    using o2 lb by (simp_all add: K output_ok_def buffered_def)
  have "take (oco_count o1 + (length extra - w1)) b = buffered o1 @ drop w1 extra"
  proof (cases "length extra > w1")
    case True
    then show ?thesis using o2 le length_buffered [OF u(3)] by (simp add: b_def write_at_def)
  next
    case False
    then show ?thesis using o2(4) by (simp add: b_def)
  qed
  then have "take nw b = (buffered o1 @ drop w1 extra) @ drop (oco_count o1 + (length extra - w1)) (take nw b)"
    using le by (metis append_take_drop_id min.absorb1 take_take)
  then show "\<exists>rest. buffered (kept_output E extra w nw oco) = drop w (buffered oco @ extra) @ rest"
    unfolding D K buffered_def [of "_\<lparr>oco_count := nw\<rparr>"] by (intro exI) simp
qed

lemma take_flush_data:
  "take w (B @ X @ Z) @ drop w (B @ X) = B @ X @ take (w - length (B @ X)) Z"
  by (cases "w \<le> length (B @ X)") (use append_take_drop_id [of w "B @ X"] in simp_all)

lemma flush_blocked_eq:
  "flush_blocked E c extra w nw oco s =
     (let s1 = s\<lparr>ClientsWriteBlocked := insert (oc_fd (osPrivate s c)) (ClientsWriteBlocked s),
                 AnyClientsWriteBlocked := True\<rparr>
      in if nw > oco_size oco \<and> \<not> grow_ok E
         then (- 1, put_client c MarkClientException
                 (disconnect c (put_output c (Some ((fst (unsent w oco))\<lparr>oco_count := 0\<rparr>)) s1)))
         else (int (length extra), put_output c (Some (kept_output E extra w nw oco)) s1))"
proof -
  obtain o1 w1 where U: "unsent w oco = (o1, w1)" by (cases "unsent w oco")
  then have "oco_size o1 = oco_size oco" by (auto simp: unsent_def Let_def split: if_splits)
  then show ?thesis by (auto simp: flush_blocked_def kept_output_def U Let_def)
qed

lemma only_output_intros:
  assumes "output_wf s" "\<And>oco. oc_output (osPrivate s' c) = Some oco \<Longrightarrow> output_ok oco"
    "\<And>c'. c' \<noteq> c \<Longrightarrow> osPrivate s' c' = osPrivate s c' \<and> io_clients s' c' = io_clients s c'"
    "\<forall>oco \<in> set (FreeOutputs s'). oco \<in> set (FreeOutputs s) \<or> output_ok oco \<and> oco_count oco = 0"
  shows "only_output c s s'"
  using assms unfolding only_output_def output_wf_def by metis

lemma flush_blocked_flushed:
  assumes P: "progress c S0 (flush_data oco extra) oco w s" and nw: "w + nw = length (flush_data oco extra)"
  shows "flushed c S0 (buffered oco) extra s (flush_blocked E c extra w nw oco s)"
proof (cases "nw > oco_size oco \<and> \<not> grow_ok E")
  case True
  obtain o1 w1 where U: "unsent w oco = (o1, w1)" by (cases "unsent w oco")
  have ok: "output_ok (o1\<lparr>oco_count := 0\<rparr>)" "buffered (o1\<lparr>oco_count := 0\<rparr>) = []"
    using unsent_facts(3) [OF _ U] P by (auto simp: progress_def output_ok_def buffered_def)
  let ?s = "s\<lparr>ClientsWriteBlocked := insert (oc_fd (osPrivate s c)) (ClientsWriteBlocked s), AnyClientsWriteBlocked := True\<rparr>"
  have E: "flush_blocked E c extra w nw oco s =
      (- 1, put_client c MarkClientException (disconnect c (put_output c (Some (o1\<lparr>oco_count := 0\<rparr>)) ?s)))"
    using True by (simp add: flush_blocked_eq U Let_def)
  have "only_output c s (snd (flush_blocked E c extra w nw oco s))"
    using P ok by (intro only_output_intros) (auto simp: progress_def E)
  moreover have "out_stream (snd (flush_blocked E c extra w nw oco s)) c = S0 @ take w (flush_data oco extra)"
    using P ok(2) by (simp add: E out_stream_def progress_def)
  moreover have "noClientException (io_clients (snd (flush_blocked E c extra w nw oco s)) c) = - 1"
    by (simp add: E MarkClientException_def)
  moreover have "fst (flush_blocked E c extra w nw oco s) = - 1" by (simp add: E)
  ultimately show ?thesis
    by (auto simp: flushed_def flush_data_def split: prod.split)
next
  case False
  have ok: "output_ok oco" using P by (simp add: progress_def)
  have nw': "w + nw = oco_count oco + length extra + padlength (length extra)"
    using nw length_buffered [OF ok] by (simp add: flush_data_def)
  note K = kept_output_facts [OF ok nw', of E]
  let ?k = "kept_output E extra w nw oco"
  obtain rest where rest: "buffered ?k = drop w (buffered oco @ extra) @ rest" using K(3) by blast
  define pad where "pad = take (w - length (buffered oco @ extra)) (replicate (padlength (length extra)) (0 :: byte)) @ rest"
  have S: "take w (flush_data oco extra) @ buffered ?k = buffered oco @ extra @ pad"
    using arg_cong [OF take_flush_data [of w "buffered oco" extra "replicate (padlength (length extra)) 0"],
        of "\<lambda>x. x @ rest"]
    by (simp only: append_assoc rest pad_def flush_data_def)
  have "length (take w (flush_data oco extra) @ buffered ?k) = length (flush_data oco extra)"
    using K(2) nw P by (simp add: progress_def)
  then have pad: "length pad = padlength (length extra)"
    unfolding S by (simp add: flush_data_def)
  let ?s = "s\<lparr>ClientsWriteBlocked := insert (oc_fd (osPrivate s c)) (ClientsWriteBlocked s), AnyClientsWriteBlocked := True\<rparr>"
  have E: "flush_blocked E c extra w nw oco s = (int (length extra), put_output c (Some ?k) ?s)"
    unfolding flush_blocked_eq Let_def using False by (simp only: if_False)
  have "only_output c s (snd (flush_blocked E c extra w nw oco s))"
    using P K(1) by (intro only_output_intros) (auto simp: progress_def E)
  moreover have "out_stream (snd (flush_blocked E c extra w nw oco s)) c = S0 @ buffered oco @ extra @ pad"
    using P S by (simp add: E out_stream_def progress_def)
  ultimately show ?thesis
    using pad by (auto simp: flushed_def E)
qed

lemma flush_failed_flushed:
  assumes P: "progress c S0 (flush_data oco extra) oco w s"
  shows "flushed c S0 (buffered oco) extra s (flush_failed c oco s)"
proof -
  have "only_output c s (snd (flush_failed c oco s))"
    using P by (intro only_output_intros) (auto simp: progress_def flush_failed_def Let_def output_ok_def)
  then show ?thesis
    using P by (auto simp: flushed_def flush_failed_def Let_def out_stream_def buffered_def progress_def
        MarkClientException_def flush_data_def)
qed

lemma flush_done_flushed:
  assumes P: "progress c S0 (flush_data oco extra) oco w s" and w: "w = length (flush_data oco extra)"
  shows "flushed c S0 (buffered oco) extra s (flush_done c extra oco s)"
proof -
  have "only_output c s (snd (flush_done c extra oco s))"
    using P by (intro only_output_intros) (auto simp: progress_def flush_done_def Let_def output_ok_def)
  moreover have "out_stream (snd (flush_done c extra oco s)) c = S0 @ flush_data oco extra"
    using P w by (simp add: progress_def flush_done_def Let_def out_stream_def)
  moreover have "io_clients (snd (flush_done c extra oco s)) = io_clients s"
    by (simp add: flush_done_def Let_def)
  ultimately show ?thesis
    by (auto simp: flushed_def flush_done_def Let_def flush_data_def)
qed

text \<open>After a partial write the same holds further on.\<close>

lemma progress_write:
  assumes "progress c S0 T oco w s" "n \<le> length T - w" "n \<le> todo"
  shows "progress c S0 T oco (w + n) (put_comm c (\<lambda>oc. oc\<lparr>sent := sent oc @ take n (take todo (drop w T))\<rparr>) s)"
  using assms
  by (auto simp: progress_def put_comm_def output_wf_def take_add min_absorb1)

lemma flushed_write:
  "flushed c S0 B X (put_comm c (\<lambda>oc. oc\<lparr>sent := d oc\<rparr>) s) r \<Longrightarrow> flushed c S0 B X s r"
  by (auto simp: flushed_def only_output_def put_comm_def)

lemma flush_loop_returns:
  assumes E: "writev_ok E"
  shows "progress c S0 (flush_data oco extra) oco w s \<Longrightarrow> w + nw = length (flush_data oco extra) \<Longrightarrow>
    todo \<le> nw \<Longrightarrow> (0 < nw \<longrightarrow> 0 < todo) \<Longrightarrow>
    \<exists>r. flush_loop E c extra oco i w nw todo s = Some r \<and> flushed c S0 (buffered oco) extra s r"
proof (induction nw arbitrary: w todo i s rule: less_induct)
  case (less nw)
  note IHw = less.IH and P = less.prems(1) and len = less.prems(2)
  from less.prems(3,4) show ?case
  proof (induction todo arbitrary: i rule: less_induct)
    case (less todo)
    note IHt = less.IH
    let ?T = "flush_data oco extra"
    show ?case
    proof (cases "nw = 0 \<or> \<not> trans_conn (osPrivate s c)")
      case True
      then have "flush_loop E c extra oco i w nw todo s =
          Some (if nw = 0 then flush_done c extra oco s else flush_failed c oco s)"
        by (subst flush_loop.simps) auto
      then show ?thesis
        using flush_done_flushed [OF P] flush_failed_flushed [OF P] len
        by (cases "nw = 0") (simp_all del: split_paired_Ex)
    next
      case False
      have ok: "output_ok oco" using P by (simp add: progress_def)
      have todo: "0 < todo" using False less.prems(2) by simp
      let ?d = "concat (flush_iov oco extra w todo)"
      have d: "?d = take todo (drop w ?T)" by (rule flush_iov_data [OF ok])
      have ld: "length ?d = todo" using len less.prems(1) by (simp add: d)
      have step: "flush_loop E c extra oco i w nw todo s = (case trans_writev E c i todo of
          Written n \<Rightarrow> flush_loop E c extra oco (i + 1) (w + n) (nw - n) (nw - n)
                        (put_comm c (\<lambda>oc. oc\<lparr>sent := sent oc @ take n ?d\<rparr>) s)
        | Write_again \<Rightarrow> Some (flush_blocked E c extra w nw oco s)
        | Write_too_long \<Rightarrow> if todo = 1 then Some (flush_blocked E c extra w nw oco s)
                            else flush_loop E c extra oco (i + 1) w nw (todo div 2) s
        | Write_error \<Rightarrow> Some (flush_failed c oco s))"
        using False ld by (subst flush_loop.simps) (simp add: Let_def)
      show ?thesis
      proof (cases "trans_writev E c i todo")
        case (Written n)
        then have n: "0 < n" "n \<le> todo" using E todo by (auto simp: writev_ok_def)
        let ?s = "put_comm c (\<lambda>oc. oc\<lparr>sent := sent oc @ take n ?d\<rparr>) s"
        have "progress c S0 ?T oco (w + n) ?s"
          unfolding d by (rule progress_write [OF P]) (use n less.prems(1) len in auto)
        then obtain r where "flush_loop E c extra oco (i + 1) (w + n) (nw - n) (nw - n) ?s = Some r"
          "flushed c S0 (buffered oco) extra ?s r"
          using IHw [of "nw - n" "w + n" ?s "nw - n" "i + 1"] n less.prems(1) len by auto
        then show ?thesis using flushed_write step Written by (auto simp del: split_paired_Ex)
      next
        case Write_too_long
        then show ?thesis
          using flush_blocked_flushed [OF P len] IHt [of "todo div 2" "i + 1"] todo less.prems(1) step
          by (cases "todo = 1") (auto simp del: split_paired_Ex)
      qed (use flush_blocked_flushed [OF P len] flush_failed_flushed [OF P] step in \<open>simp_all del: split_paired_Ex\<close>)
    qed
  qed
qed

lemma FlushClient_returns:
  assumes "output_wf s" "writev_ok E"
  shows "\<exists>r s'. FlushClient E c extra s = Some (r, s') \<and>
    (case oc_output (osPrivate s c) of None \<Rightarrow> r = 0 \<and> s' = s
     | Some oco \<Rightarrow> flushed c (sent (osPrivate s c)) (buffered oco) extra s (r, s'))"
proof (cases "oc_output (osPrivate s c)")
  case None
  then show ?thesis by (simp add: FlushClient_def)
next
  case (Some oco)
  let ?n = "oco_count oco + length extra + padlength (length extra)"
  have ok: "output_ok oco" using assms(1) Some by (simp add: output_wf_def)
  then have "progress c (sent (osPrivate s c)) (flush_data oco extra) oco 0 s"
    using assms(1) Some by (simp add: progress_def)
  moreover have "?n = length (flush_data oco extra)"
    using length_buffered [OF ok] by (simp add: flush_data_def)
  ultimately obtain r where "flush_loop E c extra oco 0 0 ?n ?n s = Some r"
    "flushed c (sent (osPrivate s c)) (buffered oco) extra s r"
    using flush_loop_returns [OF assms(2), of c "sent (osPrivate s c)" oco extra 0 s ?n ?n 0] by auto
  then show ?thesis using Some by (cases r) (simp add: FlushClient_def Let_def)
qed

subsection \<open>WriteToClient\<close>

lemma AllocateOutputBuffer_ok: "AllocateOutputBuffer E = Some oco \<Longrightarrow> output_ok oco \<and> oco_count oco = 0"
  by (auto simp: AllocateOutputBuffer_def output_ok_def split: if_splits)

lemma buffered_empty: "oco_count oco = 0 \<Longrightarrow> buffered oco = []"
  by (simp add: buffered_def)

lemma obtain_output_facts:
  assumes "output_wf s" "obtain_output E c s = Some (oco, s1)"
  shows "output_wf s1" "oc_output (osPrivate s1 c) = Some oco" "output_ok oco"
    "sent (osPrivate s1 c) @ buffered oco = out_stream s c"
    "c' \<noteq> c \<Longrightarrow> osPrivate s1 c' = osPrivate s c'" "io_clients s1 = io_clients s"
  using assms AllocateOutputBuffer_ok [of E]
  by (auto simp: obtain_output_def output_wf_def out_stream_def buffered_empty
      split: option.splits list.splits if_splits)

lemma tell_reply_sel [simp]:
  "osPrivate (tell_reply c buf s) = osPrivate s" "FreeOutputs (tell_reply c buf s) = FreeOutputs s"
  "c' \<noteq> c \<Longrightarrow> io_clients (tell_reply c buf s) c' = io_clients s c'"
  "noClientException (io_clients (tell_reply c buf s) c') = noClientException (io_clients s c')"
  by (auto simp: tell_reply_def call_reply_def Let_def)

lemma only_output_same:
  "only_output c s s'' \<Longrightarrow> (\<And>c'. c' \<noteq> c \<Longrightarrow> osPrivate s c' = osPrivate s0 c' \<and> io_clients s c' = io_clients s0 c') \<Longrightarrow>
   only_output c s0 s''"
  by (simp add: only_output_def)

text \<open>What a write does to the stream.\<close>

definition appends :: "nat \<Rightarrow> byte list \<Rightarrow> io_state \<Rightarrow> int \<times> io_state \<Rightarrow> bool" where
  "appends c buf s = (\<lambda>(r, s'). only_output c s s' \<and>
     (if r = - 1
      then noClientException (io_clients s' c) = - 1 \<and>
           (\<exists>n. out_stream s' c = take n (out_stream s c @ buf @ replicate (padlength (length buf)) 0))
      else r = int (length buf) \<and> noClientException (io_clients s' c) = noClientException (io_clients s c) \<and>
           (\<exists>pad. length pad = padlength (length buf) \<and> out_stream s' c = out_stream s c @ buf @ pad)))"

lemma flushed_appends:
  assumes "flushed c S0 B buf s1 r" "S0 @ B = out_stream s c"
    "\<And>c'. c' \<noteq> c \<Longrightarrow> osPrivate s1 c' = osPrivate s c' \<and> io_clients s1 c' = io_clients s c'"
    "noClientException (io_clients s1 c) = noClientException (io_clients s c)"
  shows "appends c buf s r"
proof -
  obtain x s' where r: "r = (x, s')" by (cases r)
  have "only_output c s s'"
    using assms(1,3) by (auto simp: flushed_def r intro: only_output_same)
  moreover have "S0 @ B @ Y = out_stream s c @ Y" for Y
    unfolding assms(2) [symmetric] by simp
  moreover have "\<exists>m. out_stream s' c = take m (out_stream s c @ Y)"
    if "out_stream s' c = S0 @ take n (B @ Y)" for n Y
  proof
    show "out_stream s' c = take (length S0 + n) (out_stream s c @ Y)"
      unfolding that assms(2) [symmetric] by simp
  qed
  ultimately show ?thesis
    using assms(1,4) by (auto simp: flushed_def appends_def r simp del: take_append split: if_splits)
qed

lemma write_at_buffered:
  assumes "output_ok oco" "oco_count oco + length buf + n \<le> oco_size oco"
  defines "o' \<equiv> oco\<lparr>oco_buf := write_at (oco_buf oco) (oco_count oco) buf, oco_count := oco_count oco + length buf + n\<rparr>"
  shows "output_ok o'" "buffered o' = buffered oco @ buf @ take n (drop (oco_count oco + length buf) (oco_buf oco))"
  using assms(1,2) by (simp_all add: o'_def output_ok_def write_at_length buffered_def write_at_def add.assoc)

lemma WriteToClient_effect:
  assumes wf: "output_wf s" and E: "writev_ok E"
  shows "\<exists>r. WriteToClient E c buf s = Some r \<and> appends c buf s r"
proof (cases "buf = []")
  case True
  then show ?thesis
    using wf by (simp add: WriteToClient_def appends_def only_output_def padlength_def)
next
  case nonempty: False
  show ?thesis
  proof (cases "obtain_output E c s")
    case None
    then have "oc_output (osPrivate s c) = None" by (auto simp: obtain_output_def split: option.splits list.splits)
    then have "appends c buf s (- 1, put_client c MarkClientException (if trans_conn (osPrivate s c) then disconnect c s else s))"
      using wf by (auto simp: appends_def only_output_def output_wf_def MarkClientException_def out_stream_def
          intro: exI [of _ "length (sent (osPrivate s c))"])
    then show ?thesis using nonempty None by (simp add: WriteToClient_def)
  next
    case (Some p)
    obtain oco s1 where O: "obtain_output E c s = Some (oco, s1)" using Some by (cases p) auto
    note o = obtain_output_facts [OF wf O]
    let ?s = "tell_reply c buf s1" and ?pad = "padlength (length buf)"
    have same: "\<And>c'. c' \<noteq> c \<Longrightarrow> osPrivate ?s c' = osPrivate s c' \<and> io_clients ?s c' = io_clients s c'"
      "noClientException (io_clients ?s c) = noClientException (io_clients s c)"
      using o(5,6) by simp_all
    show ?thesis
    proof (cases "oco_count oco + length buf + ?pad > oco_size oco")
      case True
      let ?p = "OutputPending ?s - {oc_fd (osPrivate ?s c)}"
      let ?s' = "?s\<lparr>OutputPending := ?p, CriticalOutputPending := (CriticalOutputPending ?s \<and> ?p \<noteq> {}),
        NewOutputPending := (NewOutputPending ?s \<and> ?p \<noteq> {})\<rparr>"
      have "output_wf ?s'" using o(1) by (simp add: output_wf_def)
      from FlushClient_returns [OF this E, of c buf] o(2)
      obtain r where r: "FlushClient E c buf ?s' = Some r" "flushed c (sent (osPrivate s1 c)) (buffered oco) buf ?s' r"
        by auto
      then have "appends c buf s r" using flushed_appends [OF r(2) o(4)] same by simp
      then show ?thesis using r(1) True nonempty O by (simp add: WriteToClient_def Let_def)
    next
      case False
      then have le: "oco_count oco + length buf + ?pad \<le> oco_size oco" by simp
      let ?o = "oco\<lparr>oco_buf := write_at (oco_buf oco) (oco_count oco) buf, oco_count := oco_count oco + length buf + ?pad\<rparr>"
      let ?s' = "put_output c (Some ?o) (?s\<lparr>NewOutputPending := True,
        OutputPending := insert (oc_fd (osPrivate ?s c)) (OutputPending ?s)\<rparr>)"
      note w = write_at_buffered [OF o(3) le]
      have "only_output c ?s ?s'"
        using o(1) w(1) by (intro only_output_intros) (auto simp: output_wf_def)
      then have "only_output c s ?s'" using same(1) by (rule only_output_same)
      moreover have "out_stream ?s' c = out_stream s c @ buf @ take ?pad (drop (oco_count oco + length buf) (oco_buf oco))"
        using o(4) w(2) by (simp add: out_stream_def flip: append_assoc)
      moreover have "length (take ?pad (drop (oco_count oco + length buf) (oco_buf oco))) = ?pad"
        using le o(3) by (simp add: output_ok_def)
      ultimately have "appends c buf s (int (length buf), ?s')"
        using same(2) by (auto simp: appends_def)
      then show ?thesis using False nonempty O by (simp add: WriteToClient_def Let_def)
    qed
  qed
qed

subsection \<open>FlushAllOutput\<close>

definition streams_kept :: "io_state \<Rightarrow> io_state \<Rightarrow> bool" where
  "streams_kept s s' \<longleftrightarrow> output_wf s' \<and>
     (\<forall>c. noClientException (io_clients s' c) = - 1 \<or>
        out_stream s' c = out_stream s c \<and> noClientException (io_clients s' c) = noClientException (io_clients s c))"

lemma streams_kept_trans: "streams_kept s s' \<Longrightarrow> streams_kept s' s'' \<Longrightarrow> streams_kept s s''"
  unfolding streams_kept_def by metis

lemma streams_kept_same:
  "output_wf s \<Longrightarrow> osPrivate s' = osPrivate s \<Longrightarrow> io_clients s' = io_clients s \<Longrightarrow> FreeOutputs s' = FreeOutputs s \<Longrightarrow>
   streams_kept s s'"
  by (simp add: streams_kept_def output_wf_def out_stream_def)

lemma flushed_streams:
  assumes "flushed c (sent (osPrivate s c)) (buffered oco) [] s (r, s')" "oc_output (osPrivate s c) = Some oco"
  shows "streams_kept s s'"
proof -
  have "noClientException (io_clients s' c') = - 1 \<or>
      out_stream s' c' = out_stream s c' \<and> noClientException (io_clients s' c') = noClientException (io_clients s c')" for c'
    using assms by (cases "c' = c")
      (auto simp: flushed_def only_output_def padlength_def out_stream_def split: if_splits)
  then show ?thesis using assms(1) by (simp add: streams_kept_def flushed_def only_output_def)
qed

lemma flush_fd_keeps:
  assumes "output_wf s" "writev_ok E"
  shows "\<exists>s'. flush_fd E fd s = Some s' \<and> streams_kept s s'"
proof -
  let ?s = "s\<lparr>OutputPending := OutputPending s - {fd}\<rparr>" and ?c = "ConnectionTranslation s fd"
  have wf: "output_wf ?s" using assms(1) by (simp add: output_wf_def)
  obtain r s' where F: "FlushClient E ?c [] ?s = Some (r, s')" "streams_kept ?s s'"
    using FlushClient_returns [OF wf assms(2), of ?c "[]"] flushed_streams [of ?c ?s] wf
    by (auto simp: streams_kept_same split: option.splits)
  moreover have "streams_kept s ?s" using assms(1) by (simp add: streams_kept_same)
  ultimately show ?thesis
    using assms(1) streams_kept_trans [of s ?s s']
    by (auto simp: flush_fd_def Let_def streams_kept_same)
qed

lemma flush_fds_keeps:
  "output_wf s \<Longrightarrow> writev_ok E \<Longrightarrow> \<exists>s'. flush_fds E fds s = Some s' \<and> streams_kept s s'"
proof (induction fds arbitrary: s)
  case Nil
  then show ?case by (simp add: streams_kept_same)
next
  case (Cons fd fds)
  obtain s1 where s1: "flush_fd E fd s = Some s1" "streams_kept s s1"
    using flush_fd_keeps [OF Cons.prems] by blast
  then have "output_wf s1" by (simp add: streams_kept_def)
  from Cons.IH [OF this Cons.prems(2)] show ?case
    using s1 streams_kept_trans by fastforce
qed

lemma FlushAllOutput_keeps:
  assumes "writev_ok E" "output_wf (callbacks s)"
  shows "\<exists>s'. FlushAllOutput E callbacks s = Some s' \<and> streams_kept (callbacks s) s'"
proof (cases "NewOutputPending s")
  case False
  then show ?thesis using assms(2) by (simp add: FlushAllOutput_def streams_kept_same)
next
  case True
  let ?s = "(callbacks s)\<lparr>CriticalOutputPending := False, NewOutputPending := False\<rparr>"
  have k: "streams_kept (callbacks s) ?s" using assms(2) by (simp add: streams_kept_same)
  then have "output_wf ?s" by (simp add: streams_kept_def)
  from flush_fds_keeps [OF this assms(1)] show ?thesis
    using True streams_kept_trans [OF k] by (auto simp: FlushAllOutput_def Let_def)
qed

subsection \<open>The properties\<close>

definition out_example :: io_state where
  "out_example = \<lparr>osPrivate = (\<lambda>c. \<lparr>oc_fd = c, oc_input = None,
       oc_output = (if c = 0 then Some \<lparr>oco_size = 8, oco_buf = [1,2,3,4,5,6,7,8], oco_count = 2\<rparr> else None),
       trans_conn = True, sent = []\<rparr>),
     io_clients = (\<lambda>_. \<lparr>client_swapped = False, big_requests = True, client_req_len = 0, requestBuffer = 0,
       client_sequence = 0, clientGone = False, noClientException = 0, clientRunning = True, replyBytesRemaining = 0\<rparr>),
     host_msb = False, AvailableInput = None, FreeInputs = [], FreeOutputs = [],
     ClientsWithInput = {}, IgnoredClientsWithInput = {}, AllClients = {0}, OutputPending = {0},
     ClientsWriteBlocked = {}, AnyClientsWriteBlocked = False, NewOutputPending = True,
     CriticalOutputPending = False, ConnectionTranslation = (\<lambda>fd. fd), ReplyCallback = False,
     reply_calls = [], isItTimeToYield = False, timesThisConnection = 0, SmartScheduleDisable = False\<rparr>"

text \<open>A transport that takes a byte at a time and then blocks.\<close>

definition slow_env :: os_env where
  "slow_env = \<lparr>malloc_ok = True, grow_ok = True, shrink_ok = True, fresh = (\<lambda>_. 0),
     trans_read = (\<lambda>n. Read_again), trans_writev = (\<lambda>c i n. if i < 3 then Written 1 else Write_again)\<rparr>"

lemma out_example_facts: "output_wf out_example" "writev_ok slow_env" "out_stream out_example 0 = [1,2]"
  by (auto simp: output_wf_def out_example_def output_ok_def writev_ok_def slow_env_def out_stream_def
      buffered_def split: if_splits)

lemma slow_write: "map_option fst (WriteToClient slow_env 0 [9,9,9,9,9,9,9] out_example) = Some 7"
  by (code_simp, (subst flush_loop.simps, code_simp)+)



text \<open>
  The bytes of padding are not cleared: output that fits in the buffer is padded with what the
  buffer held before, which may have been meant for another client.
\<close>

theorem WriteToClient_pads_with_old_bytes:
  assumes "output_wf s" "oc_output (osPrivate s c) = Some oco" "buf \<noteq> []"
    and "oco_count oco + length buf + padlength (length buf) \<le> oco_size oco"
  shows "\<exists>r s'. WriteToClient E c buf s = Some (r, s') \<and> out_stream s' c = out_stream s c @ buf @
     take (padlength (length buf)) (drop (oco_count oco + length buf) (oco_buf oco))"
proof -
  have ok: "output_ok oco" using assms(1,2) by (simp add: output_wf_def)
  show ?thesis
    using assms write_at_buffered(2) [OF ok assms(4)]
    by (simp add: WriteToClient_def obtain_output_def Let_def out_stream_def)
qed

theorem WriteToClient_pads_with_old_bytes_witness:
  "\<exists>r s'. WriteToClient slow_env 0 [9] out_example = Some (r, s') \<and> out_stream s' 0 = [1,2,9,4,5,6]"
  using WriteToClient_pads_with_old_bytes [OF out_example_facts(1), of 0 _ "[9]" slow_env]
  by (simp add: out_example_def padlength_def out_stream_def buffered_def)

end
