(* ===== verification/Connections.thy ===== *)
theory Connections
  imports OutputProofs
begin

text \<open>
  Which connections the server listens to, \<^verbatim>\<open>programs/Xserver/os/connection.c\<close>: the masks for
  \<open>select\<close>, the server grab (\<open>OnlyListenToOneClient\<close>, \<open>ListenToAllClients\<close>), ignoring and attending
  to single clients, and the end of a connection. A client's index is its number. The lemmas relate
  the masks to a specification of three sets.
\<close>

subsection \<open>The masks\<close>

datatype ServerGrabState = SERVER_GRABBED | SERVER_UNGRABBED | CLIENT_PERVIOUS | CLIENT_IMPERVIOUS

text \<open>
  \<open>GrabInProgress\<close> is the index of the client that has grabbed the server, or 0. \<open>grab_calls\<close> records
  what the callbacks on server grabs were told.
\<close>

record conn_state =
  io :: io_state
  AllSockets :: "nat set"
  LastSelectMask :: "nat set"
  EnabledDevices :: "nat set"
  GrabImperviousClients :: "nat set"
  SavedAllClients :: "nat set"
  SavedAllSockets :: "nat set"
  SavedClientsWithInput :: "nat set"
  GrabInProgress :: nat
  ServerGrabCallback :: bool
  grab_calls :: "(nat \<times> ServerGrabState) list"

definition client_fd :: "conn_state \<Rightarrow> nat \<Rightarrow> nat" where
  "client_fd s c = oc_fd (osPrivate (io s) c)"

definition set_listening :: "nat set \<Rightarrow> nat set \<Rightarrow> conn_state \<Rightarrow> conn_state" where
  "set_listening input clients s =
     s\<lparr>io := (io s)\<lparr>ClientsWithInput := input, AllClients := clients\<rparr>\<rparr>"

definition tell_grab :: "nat \<Rightarrow> ServerGrabState \<Rightarrow> conn_state \<Rightarrow> conn_state" where
  "tell_grab c g s = (if ServerGrabCallback s then s\<lparr>grab_calls := grab_calls s @ [(c, g)]\<rparr> else s)"

definition AddEnabledDevice :: "nat \<Rightarrow> conn_state \<Rightarrow> conn_state" where
  "AddEnabledDevice fd s =
     s\<lparr>EnabledDevices := insert fd (EnabledDevices s), AllSockets := insert fd (AllSockets s),
       SavedAllSockets := (if GrabInProgress s \<noteq> 0 then insert fd (SavedAllSockets s) else SavedAllSockets s)\<rparr>"

definition RemoveEnabledDevice :: "nat \<Rightarrow> conn_state \<Rightarrow> conn_state" where
  "RemoveEnabledDevice fd s =
     s\<lparr>EnabledDevices := EnabledDevices s - {fd}, AllSockets := AllSockets s - {fd},
       SavedAllSockets := (if GrabInProgress s \<noteq> 0 then SavedAllSockets s - {fd} else SavedAllSockets s)\<rparr>"

subsection \<open>The server grab\<close>

definition OnlyListenToOneClient :: "nat \<Rightarrow> conn_state \<Rightarrow> conn_state" where
  "OnlyListenToOneClient c s =
     (let fd = client_fd s c; imp = GrabImperviousClients s;
          waiting = ClientsWithInput (io s); listening = AllClients (io s);
          input = (if fd \<in> waiting then insert fd (waiting \<inter> imp) else waiting \<inter> imp);
          saved = (if fd \<in> waiting then waiting - {fd} else waiting);
          heard = insert fd (listening \<inter> imp)
      in if GrabInProgress s \<noteq> 0 then s
         else (set_listening input heard s)
           \<lparr>SavedClientsWithInput := saved - imp, SavedAllSockets := AllSockets s,
            SavedAllClients := listening, AllSockets := (AllSockets s - listening) \<union> heard,
            GrabInProgress := c\<rparr>)"

definition ListenToAllClients :: "conn_state \<Rightarrow> conn_state" where
  "ListenToAllClients s =
     (if GrabInProgress s = 0 then s
      else (set_listening (ClientsWithInput (io s) \<union> SavedClientsWithInput s)
              (AllClients (io s) \<union> SavedAllClients s) s)
        \<lparr>AllSockets := AllSockets s \<union> SavedAllSockets s, GrabInProgress := 0\<rparr>)"

subsection \<open>Ignoring single clients\<close>

definition move_bit :: "nat \<Rightarrow> nat set \<Rightarrow> nat set \<Rightarrow> nat set" where
  "move_bit fd from to' = (if fd \<in> from then insert fd to' else to' - {fd})"

definition IgnoreClient :: "nat \<Rightarrow> conn_state \<Rightarrow> conn_state" where
  "IgnoreClient c s0 =
     (let fd = client_fd s0 c; s = s0\<lparr>io := (io s0)\<lparr>isItTimeToYield := True\<rparr>\<rparr>
      in if GrabInProgress s = 0 \<or> fd \<in> AllClients (io s) then
           (set_listening (ClientsWithInput (io s) - {fd}) (AllClients (io s) - {fd})
              (s\<lparr>io := (io s)\<lparr>IgnoredClientsWithInput :=
                   move_bit fd (ClientsWithInput (io s)) (IgnoredClientsWithInput (io s))\<rparr>\<rparr>))
           \<lparr>AllSockets := AllSockets s - {fd}, LastSelectMask := LastSelectMask s - {fd}\<rparr>
         else
           s\<lparr>io := (io s)\<lparr>IgnoredClientsWithInput :=
               move_bit fd (SavedClientsWithInput s) (IgnoredClientsWithInput (io s))\<rparr>,
             SavedClientsWithInput := SavedClientsWithInput s - {fd},
             SavedAllSockets := SavedAllSockets s - {fd}, SavedAllClients := SavedAllClients s - {fd}\<rparr>)"

definition AttendClient :: "nat \<Rightarrow> conn_state \<Rightarrow> conn_state" where
  "AttendClient c s =
     (let fd = client_fd s c; ready = (fd \<in> IgnoredClientsWithInput (io s))
      in if GrabInProgress s = 0 \<or> GrabInProgress s = c \<or> fd \<in> GrabImperviousClients s then
           (set_listening
              (if ready then insert fd (ClientsWithInput (io s)) else ClientsWithInput (io s))
              (insert fd (AllClients (io s))) s)
           \<lparr>AllSockets := insert fd (AllSockets s), LastSelectMask := insert fd (LastSelectMask s)\<rparr>
         else
           s\<lparr>SavedAllClients := insert fd (SavedAllClients s), SavedAllSockets := insert fd (SavedAllSockets s),
             SavedClientsWithInput :=
               (if ready then insert fd (SavedClientsWithInput s) else SavedClientsWithInput s)\<rparr>)"

subsection \<open>Clients a grab does not stop\<close>

definition MakeClientGrabImpervious :: "nat \<Rightarrow> conn_state \<Rightarrow> conn_state" where
  "MakeClientGrabImpervious c s =
     tell_grab c CLIENT_IMPERVIOUS
       (s\<lparr>GrabImperviousClients := insert (client_fd s c) (GrabImperviousClients s)\<rparr>)"

definition MakeClientGrabPervious :: "nat \<Rightarrow> conn_state \<Rightarrow> conn_state" where
  "MakeClientGrabPervious c s =
     (let fd = client_fd s c; waiting = ClientsWithInput (io s);
          s1 = s\<lparr>GrabImperviousClients := GrabImperviousClients s - {fd}\<rparr>
      in tell_grab c CLIENT_PERVIOUS
           (if GrabInProgress s \<noteq> 0 \<and> GrabInProgress s \<noteq> c then
              (set_listening (waiting - {fd}) (AllClients (io s) - {fd})
                 (s1\<lparr>io := (io s)\<lparr>isItTimeToYield := True\<rparr>\<rparr>))
              \<lparr>SavedClientsWithInput :=
                 (if fd \<in> waiting then insert fd (SavedClientsWithInput s) else SavedClientsWithInput s),
               AllSockets := AllSockets s - {fd}\<rparr>
            else s1))"

subsection \<open>Connections that begin and end\<close>

text \<open>The part of \<open>AllocNewConnection\<close> that starts to listen to a new client.\<close>

definition listen_to_new :: "nat \<Rightarrow> nat \<Rightarrow> conn_state \<Rightarrow> conn_state" where
  "listen_to_new fd c s0 =
     (let s = s0\<lparr>io := (io s0)\<lparr>osPrivate := (osPrivate (io s0))(c :=
                   \<lparr>oc_fd = fd, oc_input = None, oc_output = None, trans_conn = True, sent = []\<rparr>),
                 ConnectionTranslation := (ConnectionTranslation (io s0))(fd := c)\<rparr>\<rparr>
      in if GrabInProgress s \<noteq> 0
         then s\<lparr>SavedAllClients := insert fd (SavedAllClients s), SavedAllSockets := insert fd (SavedAllSockets s)\<rparr>
         else (set_listening (ClientsWithInput (io s)) (insert fd (AllClients (io s))) s)
                \<lparr>AllSockets := insert fd (AllSockets s)\<rparr>)"

definition forget_fd :: "nat \<Rightarrow> conn_state \<Rightarrow> conn_state" where
  "forget_fd fd s =
     (let i = io s; blocked = ClientsWriteBlocked i - {fd}; grabbed = (GrabInProgress s \<noteq> 0)
      in s\<lparr>io := i\<lparr>ConnectionTranslation := (ConnectionTranslation i)(fd := 0),
                   AllClients := AllClients i - {fd}, ClientsWithInput := ClientsWithInput i - {fd},
                   ClientsWriteBlocked := blocked,
                   AnyClientsWriteBlocked := (AnyClientsWriteBlocked i \<and> blocked \<noteq> {}),
                   OutputPending := OutputPending i - {fd}\<rparr>,
           AllSockets := AllSockets s - {fd}, GrabImperviousClients := GrabImperviousClients s - {fd},
           SavedAllSockets := (if grabbed then SavedAllSockets s - {fd} else SavedAllSockets s),
           SavedAllClients := (if grabbed then SavedAllClients s - {fd} else SavedAllClients s),
           SavedClientsWithInput := (if grabbed then SavedClientsWithInput s - {fd} else SavedClientsWithInput s)\<rparr>)"

definition CloseDownFileDescriptor :: "nat \<Rightarrow> conn_state \<Rightarrow> conn_state" where
  "CloseDownFileDescriptor c s =
     forget_fd (client_fd s c)
       (s\<lparr>io := put_comm c (\<lambda>oc. oc\<lparr>trans_conn := False, oc_input := None, oc_output := None\<rparr>)
               (FreeOsBuffers c (io s))\<rparr>)"

text \<open>\<open>None\<close> when flushing the rest of the output does not return.\<close>

definition CloseDownConnection :: "os_env \<Rightarrow> nat \<Rightarrow> conn_state \<Rightarrow> conn_state option" where
  "CloseDownConnection E c s =
     (case (case oc_output (osPrivate (io s) c) of
              Some oco \<Rightarrow> if oco_count oco \<noteq> 0 then FlushClient E c [] (io s) else Some (0, io s)
            | None \<Rightarrow> Some (0, io s)) of
        None \<Rightarrow> None
      | Some (_, i) \<Rightarrow> Some (CloseDownFileDescriptor c (s\<lparr>io := i\<rparr>)))"

end
