(* ===== verification/ConnectionProofs.thy ===== *)
theory ConnectionProofs
  imports Connections RequestReplay
begin

text \<open>
  The masks of \<open>Connections\<close> against a specification of three sets: the clients the server attends to,
  those among them with a request waiting, and those a grab does not stop, with the holder of the
  grab. Every operation refines the one on these sets; two calls that do not are described exactly.
\<close>

subsection \<open>The specification\<close>

record listening =
  attended :: "nat set"
  ready :: "nat set"
  impervious :: "nat set"
  holder :: nat

definition listening_of :: "conn_state \<Rightarrow> listening" where
  "listening_of s = \<lparr>
     attended = (if GrabInProgress s = 0 then AllClients (io s) else AllClients (io s) \<union> SavedAllClients s),
     ready = (if GrabInProgress s = 0 then ClientsWithInput (io s)
              else ClientsWithInput (io s) \<union> SavedClientsWithInput s),
     impervious = GrabImperviousClients s, holder = GrabInProgress s\<rparr>"

text \<open>The descriptors whose requests may be served.\<close>

definition served :: "conn_state \<Rightarrow> nat set" where
  "served s = (if GrabInProgress s = 0 then UNIV
               else insert (client_fd s (GrabInProgress s)) (GrabImperviousClients s))"

definition listen_wf :: "conn_state \<Rightarrow> bool" where
  "listen_wf s \<longleftrightarrow> AllClients (io s) \<subseteq> AllSockets s \<inter> served s \<and> ClientsWithInput (io s) \<subseteq> AllClients (io s) \<and>
     (GrabInProgress s \<noteq> 0 \<longrightarrow> SavedAllClients s \<subseteq> SavedAllSockets s \<and>
        SavedClientsWithInput s \<subseteq> SavedAllClients s - served s)"

text \<open>Clients have different descriptors.\<close>

definition own_fd :: "nat \<Rightarrow> conn_state \<Rightarrow> bool" where
  "own_fd c s \<longleftrightarrow> GrabInProgress s \<noteq> 0 \<longrightarrow> client_fd s c = client_fd s (GrabInProgress s) \<longrightarrow> c = GrabInProgress s"

text \<open>
  The operations, by client; a new connection also has its descriptor. \<open>Input\<close> stands for what
  reading requests does to the mark of a client that is listened to.
\<close>

datatype listen_op = Grab nat | Ungrab | Ignore nat | Attend nat | Impervious nat | Pervious nat
  | Connect nat nat | Disconnect nat | Input nat bool

definition mark_input :: "nat \<Rightarrow> bool \<Rightarrow> conn_state \<Rightarrow> conn_state" where
  "mark_input fd b s = set_listening
     (if b then insert fd (ClientsWithInput (io s)) else ClientsWithInput (io s) - {fd}) (AllClients (io s)) s"

fun run_op :: "listen_op \<Rightarrow> conn_state \<Rightarrow> conn_state" where
  "run_op (Grab c) s = OnlyListenToOneClient c s"
| "run_op Ungrab s = ListenToAllClients s"
| "run_op (Ignore c) s = IgnoreClient c s"
| "run_op (Attend c) s = AttendClient c s"
| "run_op (Impervious c) s = MakeClientGrabImpervious c s"
| "run_op (Pervious c) s = MakeClientGrabPervious c s"
| "run_op (Connect fd c) s = listen_to_new fd c s"
| "run_op (Disconnect c) s = CloseDownFileDescriptor c s"
| "run_op (Input c b) s = mark_input (client_fd s c) b s"

text \<open>
  When an operation is called: a client that grabs the server, reads or changes how grabs treat it
  is being served. The conditions on \<open>SavedAllClients\<close> exclude what the code gets wrong.
\<close>

fun op_ok :: "listen_op \<Rightarrow> conn_state \<Rightarrow> bool" where
  "op_ok (Grab c) s \<longleftrightarrow> c \<noteq> 0 \<and> (GrabInProgress s = 0 \<longrightarrow> client_fd s c \<in> AllClients (io s))"
| "op_ok (Impervious c) s \<longleftrightarrow> client_fd s c \<in> AllClients (io s)"
| "op_ok (Connect fd c) s \<longleftrightarrow> c \<noteq> GrabInProgress s"
| "op_ok (Disconnect c) s \<longleftrightarrow> c \<noteq> GrabInProgress s"
| "op_ok (Input c b) s \<longleftrightarrow> client_fd s c \<in> AllClients (io s)"
| "op_ok (Ignore c) s \<longleftrightarrow> GrabInProgress s \<noteq> 0 \<and> client_fd s c \<in> AllClients (io s) \<longrightarrow> client_fd s c \<notin> SavedAllClients s"
| "op_ok (Attend c) s \<longleftrightarrow> own_fd c s"
| "op_ok (Pervious c) s \<longleftrightarrow> own_fd c s \<and> (GrabInProgress s \<noteq> 0 \<and> GrabInProgress s \<noteq> c \<longrightarrow>
     client_fd s c \<in> AllClients (io s) \<inter> SavedAllClients s)"
| "op_ok Ungrab s \<longleftrightarrow> True"

text \<open>
  What the operations mean. \<open>fd\<close> is the client's descriptor; \<open>was_ready\<close> says whether a request was
  waiting when the client was ignored.
\<close>

fun spec_op :: "listen_op \<Rightarrow> nat \<Rightarrow> bool \<Rightarrow> listening \<Rightarrow> listening" where
  "spec_op (Grab c) fd was_ready l = (if holder l = 0 then l\<lparr>holder := c\<rparr> else l)"
| "spec_op Ungrab fd was_ready l = l\<lparr>holder := 0\<rparr>"
| "spec_op (Ignore c) fd was_ready l = l\<lparr>attended := attended l - {fd}, ready := ready l - {fd}\<rparr>"
| "spec_op (Attend c) fd was_ready l =
     l\<lparr>attended := insert fd (attended l), ready := (if was_ready then insert fd (ready l) else ready l)\<rparr>"
| "spec_op (Impervious c) fd was_ready l = l\<lparr>impervious := insert fd (impervious l)\<rparr>"
| "spec_op (Pervious c) fd was_ready l = l\<lparr>impervious := impervious l - {fd}\<rparr>"
| "spec_op (Connect new c) fd was_ready l = l\<lparr>attended := insert new (attended l)\<rparr>"
| "spec_op (Disconnect c) fd was_ready l =
     l\<lparr>attended := attended l - {fd}, ready := ready l - {fd}, impervious := impervious l - {fd}\<rparr>"
| "spec_op (Input c b) fd was_ready l = l\<lparr>ready := (if b then insert fd (ready l) else ready l - {fd})\<rparr>"

fun op_client :: "listen_op \<Rightarrow> nat" where
  "op_client (Grab c) = c" | "op_client Ungrab = 0" | "op_client (Ignore c) = c" | "op_client (Attend c) = c"
| "op_client (Impervious c) = c" | "op_client (Pervious c) = c" | "op_client (Connect fd c) = c"
| "op_client (Disconnect c) = c" | "op_client (Input c b) = c"

definition op_fd :: "listen_op \<Rightarrow> conn_state \<Rightarrow> nat" where
  "op_fd op s = client_fd s (op_client op)"

definition op_kept :: "listen_op \<Rightarrow> conn_state \<Rightarrow> bool" where
  "op_kept op s \<longleftrightarrow> op_fd op s \<in> IgnoredClientsWithInput (io s)"


subsection \<open>Every operation keeps the invariant and refines its specification\<close>

lemma set_listening_sel [simp]:
  "AllClients (io (set_listening w a s)) = a" "ClientsWithInput (io (set_listening w a s)) = w"
  "osPrivate (io (set_listening w a s)) = osPrivate (io s)"
  "AllSockets (set_listening w a s) = AllSockets s" "LastSelectMask (set_listening w a s) = LastSelectMask s"
  "GrabImperviousClients (set_listening w a s) = GrabImperviousClients s"
  "SavedAllClients (set_listening w a s) = SavedAllClients s"
  "SavedAllSockets (set_listening w a s) = SavedAllSockets s"
  "SavedClientsWithInput (set_listening w a s) = SavedClientsWithInput s"
  "GrabInProgress (set_listening w a s) = GrabInProgress s"
  "client_fd (set_listening w a s) = client_fd s"
  by (simp_all add: set_listening_def client_fd_def fun_eq_iff)

lemma tell_grab_sel [simp]:
  "io (tell_grab c g s) = io s" "AllSockets (tell_grab c g s) = AllSockets s"
  "GrabImperviousClients (tell_grab c g s) = GrabImperviousClients s"
  "SavedAllClients (tell_grab c g s) = SavedAllClients s" "SavedAllSockets (tell_grab c g s) = SavedAllSockets s"
  "SavedClientsWithInput (tell_grab c g s) = SavedClientsWithInput s"
  "GrabInProgress (tell_grab c g s) = GrabInProgress s" "client_fd (tell_grab c g s) = client_fd s"
  by (simp_all add: tell_grab_def client_fd_def fun_eq_iff)

text \<open>Both claims of one step.\<close>

definition step_ok :: "listen_op \<Rightarrow> conn_state \<Rightarrow> bool" where
  "step_ok op s \<longleftrightarrow> listen_wf (run_op op s) \<and>
     listening_of (run_op op s) = spec_op op (op_fd op s) (op_kept op s) (listening_of s)"

lemmas step_defs = step_ok_def listen_wf_def listening_of_def served_def op_fd_def op_kept_def

lemma listened_not_saved:
  "listen_wf s \<Longrightarrow> GrabInProgress s \<noteq> 0 \<Longrightarrow> fd \<in> AllClients (io s) \<Longrightarrow> fd \<notin> SavedClientsWithInput s"
  unfolding listen_wf_def by blast

lemma Grab_step:
  assumes "listen_wf s" "op_ok (Grab c) s"
  shows "step_ok (Grab c) s"
proof (cases "GrabInProgress s = 0")
  case True
  then show ?thesis
    using assms by (auto simp: step_defs OnlyListenToOneClient_def Let_def client_fd_def)
next
  case False
  then show ?thesis using assms by (simp add: step_defs OnlyListenToOneClient_def)
qed

lemma Ungrab_step:
  assumes "listen_wf s"
  shows "step_ok Ungrab s"
  using assms by (auto simp: step_defs ListenToAllClients_def)

lemma Ignore_step:
  assumes "listen_wf s" "op_ok (Ignore c) s"
  shows "step_ok (Ignore c) s"
proof (cases "GrabInProgress s \<noteq> 0 \<and> client_fd s c \<in> AllClients (io s)")
  case True
  then have "client_fd s c \<notin> SavedClientsWithInput s" using listened_not_saved [OF assms(1)] by blast
  with True show ?thesis
    using assms by (auto simp: step_defs IgnoreClient_def Let_def client_fd_def)
next
  case False
  then show ?thesis
    using assms by (auto simp: step_defs IgnoreClient_def Let_def client_fd_def)
qed

lemma Attend_step:
  assumes "listen_wf s" "op_ok (Attend c) s"
  shows "step_ok (Attend c) s"
proof (cases "GrabInProgress s = 0 \<or> GrabInProgress s = c \<or> client_fd s c \<in> GrabImperviousClients s")
  case True
  then show ?thesis
    using assms by (auto simp: step_defs AttendClient_def Let_def client_fd_def)
next
  case False
  then show ?thesis
    using assms by (auto simp: step_defs AttendClient_def Let_def client_fd_def own_fd_def)
qed

lemma Impervious_step:
  assumes "listen_wf s" "op_ok (Impervious c) s"
  shows "step_ok (Impervious c) s"
  using assms listened_not_saved [OF assms(1)]
  by (auto simp: step_defs MakeClientGrabImpervious_def client_fd_def)

lemma Pervious_step:
  assumes "listen_wf s" "op_ok (Pervious c) s"
  shows "step_ok (Pervious c) s"
  using assms by (auto simp: step_defs MakeClientGrabPervious_def Let_def client_fd_def own_fd_def)

lemma Connect_step:
  assumes "listen_wf s" "op_ok (Connect fd c) s"
  shows "step_ok (Connect fd c) s"
  using assms by (auto simp: step_defs listen_to_new_def Let_def client_fd_def set_listening_def)

lemma FreeOsBuffers_sel [simp]:
  "osPrivate (FreeOsBuffers c s) = osPrivate s" "AllClients (FreeOsBuffers c s) = AllClients s"
  "ClientsWithInput (FreeOsBuffers c s) = ClientsWithInput s" "io_clients (FreeOsBuffers c s) = io_clients s"
  by (auto simp: FreeOsBuffers_def Let_def split: option.splits)

lemma Disconnect_step:
  assumes "listen_wf s" "op_ok (Disconnect c) s"
  shows "step_ok (Disconnect c) s"
  using assms
  by (auto simp: step_defs CloseDownFileDescriptor_def forget_fd_def Let_def client_fd_def put_comm_def)

lemma Input_step:
  assumes "listen_wf s" "op_ok (Input c b) s"
  shows "step_ok (Input c b) s"
  using assms listened_not_saved [OF assms(1)] by (auto simp: step_defs mark_input_def)

lemma op_step:
  assumes "listen_wf s" "op_ok op s"
  shows "step_ok op s"
  using assms
  by (cases op) (simp_all only: Grab_step Ungrab_step Ignore_step Attend_step Impervious_step Pervious_step
      Connect_step Disconnect_step Input_step)

subsection \<open>Sequences of operations\<close>

fun run_ops :: "listen_op list \<Rightarrow> conn_state \<Rightarrow> conn_state" where
  "run_ops [] s = s"
| "run_ops (op # ops) s = run_ops ops (run_op op s)"

fun ops_ok :: "listen_op list \<Rightarrow> conn_state \<Rightarrow> bool" where
  "ops_ok [] s \<longleftrightarrow> True"
| "ops_ok (op # ops) s \<longleftrightarrow> op_ok op s \<and> ops_ok ops (run_op op s)"

text \<open>The same sequence on the specification, with the descriptors that the clients have.\<close>

fun spec_ops :: "listen_op list \<Rightarrow> conn_state \<Rightarrow> listening \<Rightarrow> listening" where
  "spec_ops [] s l = l"
| "spec_ops (op # ops) s l = spec_ops ops (run_op op s) (spec_op op (op_fd op s) (op_kept op s) l)"

lemma run_ops_steps:
  "listen_wf s \<Longrightarrow> ops_ok ops s \<Longrightarrow>
   listen_wf (run_ops ops s) \<and> listening_of (run_ops ops s) = spec_ops ops s (listening_of s)"
proof (induction ops arbitrary: s)
  case (Cons op ops)
  then have "step_ok op s" using op_step by simp
  with Cons show ?case by (simp add: step_ok_def)
qed simp

text \<open>Two clients that are listened to.\<close>

definition conn_example :: conn_state where
  "conn_example = \<lparr>io = io_example\<lparr>osPrivate := (\<lambda>c. (osPrivate io_example c)\<lparr>oc_fd := 10 + c\<rparr>),
       ClientsWithInput := {12}, AllClients := {11, 12}, IgnoredClientsWithInput := {}\<rparr>,
     AllSockets = {3, 11, 12}, LastSelectMask = {}, EnabledDevices = {}, GrabImperviousClients = {},
     SavedAllClients = {}, SavedAllSockets = {}, SavedClientsWithInput = {}, GrabInProgress = 0,
     ServerGrabCallback = False, grab_calls = []\<rparr>"

lemmas op_defs = OnlyListenToOneClient_def ListenToAllClients_def IgnoreClient_def AttendClient_def
  MakeClientGrabImpervious_def MakeClientGrabPervious_def tell_grab_def set_listening_def move_bit_def Let_def

lemma conn_example_sel [simp]:
  "client_fd conn_example c = 10 + c" "AllClients (io conn_example) = {11, 12}"
  "ClientsWithInput (io conn_example) = {12}" "IgnoredClientsWithInput (io conn_example) = {}"
  "AllSockets conn_example = {3, 11, 12}" "LastSelectMask conn_example = {}"
  "GrabImperviousClients conn_example = {}" "GrabInProgress conn_example = 0"
  "ServerGrabCallback conn_example = False"
  by (simp_all add: conn_example_def client_fd_def)

lemma conn_example_wf: "listen_wf conn_example"
  by (simp add: listen_wf_def served_def)



text \<open>
  A client that is ignored while it is served during a grab stays in \<open>SavedAllClients\<close>, so the end of
  the grab listens to it again although nothing attends to it.
\<close>

theorem IgnoreClient_undone_by_ungrab:
  assumes "GrabInProgress s \<noteq> 0" "client_fd s c \<in> AllClients (io s)" "client_fd s c \<in> SavedAllClients s"
  shows "client_fd s c \<notin> AllClients (io (IgnoreClient c s)) \<and>
    client_fd s c \<in> AllClients (io (ListenToAllClients (IgnoreClient c s)))"
  using assms by (simp add: op_defs client_fd_def)

theorem IgnoreClient_undone_by_ungrab_witness:
  "11 \<in> AllClients (io (ListenToAllClients (IgnoreClient 1 (OnlyListenToOneClient 1 conn_example))))"
proof -
  let ?s = "OnlyListenToOneClient 1 conn_example"
  have "client_fd ?s 1 = 11" by (simp add: op_defs client_fd_def conn_example_def)
  then show ?thesis
    using IgnoreClient_undone_by_ungrab [of ?s 1] by (simp add: OnlyListenToOneClient_def Let_def)
qed

text \<open>
  An impervious client that was ignored when the grab began and is attended to during it is in
  \<open>AllClients\<close> only; when it becomes pervious it is taken out of there and listened to never again.
\<close>

theorem MakeClientGrabPervious_forgets:
  assumes "GrabInProgress s \<noteq> 0" "GrabInProgress s \<noteq> c" "client_fd s c \<notin> SavedAllClients s"
  shows "client_fd s c \<notin> AllClients (io (ListenToAllClients (MakeClientGrabPervious c s)))"
  using assms by (auto simp: op_defs client_fd_def)

theorem MakeClientGrabPervious_forgets_witness:
  "12 \<notin> AllClients (io (run_ops [Impervious 2, Ignore 2, Grab 1, Attend 2, Pervious 2, Ungrab] conn_example))"
proof -
  let ?s = "run_ops [Impervious 2, Ignore 2, Grab 1, Attend 2] conn_example"
  have "GrabInProgress ?s = 1" "client_fd ?s 2 = 12" "12 \<notin> SavedAllClients ?s"
    by (simp_all add: op_defs client_fd_def conn_example_def)
  then show ?thesis using MakeClientGrabPervious_forgets [of ?s 2] by simp
qed

end
