(* ===== verification/ServerGrab.thy ===== *)
theory ServerGrab
  imports ConnectionProofs
begin

text \<open>
  The server grab, \<^verbatim>\<open>programs/Xserver/dix/dispatch.c\<close>: \<open>ProcGrabServer\<close>, \<open>UngrabServer\<close>,
  \<open>ProcUngrabServer\<close> and what \<open>CloseDownClient\<close> does about it, on the connections of \<open>Connections\<close>. A client that asks for the
  grab while another holds it is put to sleep with its request put back, and is woken when the
  grab ends.
\<close>

subsection \<open>The state\<close>

datatype grab_mode = GrabNone | GrabActive | GrabKickout

text \<open>\<open>grabWaiters\<close> has one bit for each client, 32 to a word.\<close>

record server_state =
  conn :: conn_state
  grabState :: grab_mode
  grabClient :: "nat option"
  grabWaiters :: "32 word list"

definition mskcnt :: nat where "mskcnt = (256 + 31) div 32"

definition BITMASK :: "nat \<Rightarrow> 32 word" where "BITMASK i = push_bit (i mod 32) 1"

definition WAITING :: "32 word list \<Rightarrow> nat \<Rightarrow> bool" where
  "WAITING ws i \<longleftrightarrow> ws ! (i div 32) AND BITMASK i \<noteq> 0"

definition BITSET :: "32 word list \<Rightarrow> nat \<Rightarrow> 32 word list" where
  "BITSET ws i = ws[i div 32 := ws ! (i div 32) OR BITMASK i]"

definition WAITCLEAR :: "32 word list \<Rightarrow> nat \<Rightarrow> 32 word list" where
  "WAITCLEAR ws i = ws[i div 32 := ws ! (i div 32) AND NOT (BITMASK i)]"

definition Success_code :: int where "Success_code = 0"
definition BadRequest_code :: int where "BadRequest_code = 1"
definition BadLength_code :: int where "BadLength_code = 16"

definition at_conn :: "(conn_state \<Rightarrow> conn_state) \<Rightarrow> server_state \<Rightarrow> server_state" where
  "at_conn f s = s\<lparr>conn := f (conn s)\<rparr>"

definition at_io :: "(io_state \<Rightarrow> io_state) \<Rightarrow> conn_state \<Rightarrow> conn_state" where
  "at_io f s = s\<lparr>io := f (io s)\<rparr>"

definition the_client :: "nat \<Rightarrow> server_state \<Rightarrow> io_client" where
  "the_client c s = io_clients (io (conn s)) c"

subsection \<open>The requests\<close>

definition wait_for_grab :: "nat \<Rightarrow> server_state \<Rightarrow> server_state" where
  "wait_for_grab c s =
     (let s1 = at_conn (at_io (ResetCurrentRequest c)) s;
          s2 = at_conn (at_io (put_client c (\<lambda>cl. cl\<lparr>client_sequence := client_sequence cl - 1\<rparr>))) s1;
          s3 = s2\<lparr>grabWaiters := BITSET (grabWaiters s2) c\<rparr>
      in at_conn (IgnoreClient c) s3)"

definition ProcGrabServer :: "nat \<Rightarrow> server_state \<Rightarrow> int \<times> server_state" where
  "ProcGrabServer c s =
     (if client_req_len (the_client c s) \<noteq> of_nat (sz_xReq div 4) then (BadLength_code, s)
      else if grabState s \<noteq> GrabNone \<and> grabClient s \<noteq> Some c then
        (noClientException (the_client c (wait_for_grab c s)), wait_for_grab c s)
      else
        let s1 = (at_conn (OnlyListenToOneClient c) s)\<lparr>grabState := GrabKickout, grabClient := Some c\<rparr>
        in (noClientException (the_client c s1), at_conn (tell_grab c SERVER_GRABBED) s1))"

text \<open>The last word with a bit, and the first bit from there.\<close>

fun last_word :: "nat \<Rightarrow> 32 word list \<Rightarrow> nat option" where
  "last_word 0 ws = None"
| "last_word (Suc i) ws = (if ws ! i \<noteq> 0 then Some i else last_word i ws)"

definition next_waiter :: "32 word list \<Rightarrow> nat option" where
  "next_waiter ws = (case last_word mskcnt ws of None \<Rightarrow> None
     | Some k \<Rightarrow> find (WAITING ws) [32 * k..<32 * mskcnt])"

definition UngrabServer :: "nat \<Rightarrow> server_state \<Rightarrow> server_state" where
  "UngrabServer c s =
     (let s1 = at_conn ListenToAllClients (s\<lparr>grabState := GrabNone\<rparr>);
          s2 = (case next_waiter (grabWaiters s1) of None \<Rightarrow> s1
                | Some i \<Rightarrow> at_conn (AttendClient i) (s1\<lparr>grabWaiters := WAITCLEAR (grabWaiters s1) i\<rparr>))
      in at_conn (tell_grab c SERVER_UNGRABBED) s2)"

definition ProcUngrabServer :: "nat \<Rightarrow> server_state \<Rightarrow> int \<times> server_state" where
  "ProcUngrabServer c s =
     (if client_req_len (the_client c s) \<noteq> of_nat (sz_xReq div 4) then (BadLength_code, s)
      else (noClientException (the_client c (UngrabServer c s)), UngrabServer c s))"

definition ProcNoOperation :: "nat \<Rightarrow> server_state \<Rightarrow> int \<times> server_state" where
  "ProcNoOperation c s =
     (if client_req_len (the_client c s) < of_nat (sz_xReq div 4) then (BadLength_code, s)
      else (noClientException (the_client c s), s))"

definition ProcBadRequest :: "nat \<Rightarrow> server_state \<Rightarrow> int \<times> server_state" where
  "ProcBadRequest c s = (BadRequest_code, s)"

text \<open>The first steps of \<open>CloseDownClient\<close>, for a client that is not gone.\<close>

definition leave_grab :: "nat \<Rightarrow> server_state \<Rightarrow> server_state" where
  "leave_grab c s =
     (let s1 = (if grabState s \<noteq> GrabNone \<and> grabClient s = Some c then UngrabServer c s else s)
      in s1\<lparr>grabWaiters := WAITCLEAR (grabWaiters s1) c\<rparr>)"

text \<open>
  For a client of the other byte order the length of the request is swapped in its buffer before
  the handler runs.
\<close>

definition swap_length :: "nat \<Rightarrow> io_state \<Rightarrow> io_state" where
  "swap_length c s = (case oc_input (osPrivate s c) of None \<Rightarrow> s
     | Some oci \<Rightarrow>
         let p = requestBuffer (io_clients s c) + 2; b = buffer oci
         in put_input c (Some (oci\<lparr>buffer := b[p := b ! (p + 1), p + 1 := b ! p]\<rparr>)) s)"

definition SProcSimpleReq ::
  "(byte \<Rightarrow> nat \<Rightarrow> server_state \<Rightarrow> int \<times> server_state) \<Rightarrow> byte \<Rightarrow> nat \<Rightarrow> server_state \<Rightarrow> int \<times> server_state" where
  "SProcSimpleReq ProcVector reqType c s = ProcVector reqType c (at_conn (at_io (swap_length c)) s)"

end
