(* ===== verification/ServerGrabProofs.thy ===== *)
theory ServerGrabProofs
  imports ServerGrab
begin

text \<open>
  The server grab: its invariant, what happens to a client that has to wait, who is woken, and two
  ways in which a waiting client is harmed.
\<close>

subsection \<open>The waiters\<close>

lemma WAITING_bit: "WAITING ws i \<longleftrightarrow> bit (ws ! (i div 32)) (i mod 32)"
proof -
  have "ws ! (i div 32) AND BITMASK i \<noteq> 0 \<longleftrightarrow> (\<exists>n < 32. bit (ws ! (i div 32)) n \<and> n = i mod 32)"
    by (auto simp: BITMASK_def bit_eq_iff bit_simps)
  then show ?thesis by (auto simp: WAITING_def)
qed

lemma length_bits [simp]: "length (BITSET ws i) = length ws" "length (WAITCLEAR ws i) = length ws"
  by (simp_all add: BITSET_def WAITCLEAR_def)

lemma same_bit: "i div 32 = j div 32 \<Longrightarrow> i mod 32 = j mod 32 \<longleftrightarrow> i = (j :: nat)"
  by (metis div_mult_mod_eq)

lemma WAITING_set: "i div 32 < length ws \<Longrightarrow> WAITING (BITSET ws i) j \<longleftrightarrow> i = j \<or> WAITING ws j"
  using same_bit [of i j] same_bit [of j i]
  by (cases "i div 32 = j div 32") (auto simp: WAITING_bit BITSET_def BITMASK_def bit_simps)

lemma WAITING_clear: "i div 32 < length ws \<Longrightarrow> WAITING (WAITCLEAR ws i) j \<longleftrightarrow> i \<noteq> j \<and> WAITING ws j"
  using same_bit [of i j] same_bit [of j i]
  by (cases "i div 32 = j div 32") (auto simp: WAITING_bit WAITCLEAR_def BITMASK_def bit_simps)

lemma last_word_None: "last_word n ws = None \<longleftrightarrow> (\<forall>i < n. ws ! i = 0)"
  by (induction n) (auto simp: less_Suc_eq)

lemma last_word_Some: "last_word n ws = Some k \<Longrightarrow> k < n \<and> ws ! k \<noteq> 0"
  by (induction n) (auto split: if_splits)

lemma word_has_bit: "w \<noteq> 0 \<Longrightarrow> \<exists>n < 32. bit (w :: 32 word) n"
  by (rule ccontr) (use bit_word_eqI [of w 0] in auto)

lemma next_waiter_None: "next_waiter ws = None \<longleftrightarrow> (\<forall>i < 32 * mskcnt. \<not> WAITING ws i)"
proof
  assume "next_waiter ws = None"
  then show "\<forall>i < 32 * mskcnt. \<not> WAITING ws i"
  proof (cases "last_word mskcnt ws")
    case None
    then show ?thesis by (auto simp: last_word_None WAITING_bit)
  next
    case (Some k)
    then obtain n where n: "n < 32" "bit (ws ! k) n" "k < mskcnt"
      using last_word_Some [OF Some] word_has_bit by blast
    then have "WAITING ws (32 * k + n)" "32 * k + n \<in> set [32 * k..<32 * mskcnt]" by (auto simp: WAITING_bit)
    moreover have "\<forall>x \<in> set [32 * k..<32 * mskcnt]. \<not> WAITING ws x"
      using \<open>next_waiter ws = None\<close> Some by (simp add: next_waiter_def find_None_iff)
    ultimately show ?thesis by blast
  qed
next
  assume none: "\<forall>i < 32 * mskcnt. \<not> WAITING ws i"
  have "last_word mskcnt ws = None"
  proof (rule ccontr)
    assume "last_word mskcnt ws \<noteq> None"
    then obtain k n where "k < mskcnt" "n < 32" "bit (ws ! k) n"
      using last_word_Some word_has_bit by blast
    moreover from this have "WAITING ws (32 * k + n)" "32 * k + n < 32 * mskcnt" by (auto simp: WAITING_bit)
    ultimately show False using none by blast
  qed
  then show "next_waiter ws = None" by (simp add: next_waiter_def)
qed

lemma next_waiter_Some: "next_waiter ws = Some i \<Longrightarrow> WAITING ws i \<and> i < 32 * mskcnt"
  by (auto simp: next_waiter_def find_Some_iff split: option.splits)

subsection \<open>A request that is being executed\<close>

text \<open>The handler of the first request of \<open>q\<close> runs; the connection still has its bytes.\<close>

definition executing :: "io_state \<Rightarrow> nat \<Rightarrow> byte list \<Rightarrow> bool" where
  "executing s c q \<longleftrightarrow> io_wf s \<and>
     (\<exists>oci. oc_input (osPrivate s c) = Some oci \<and> kept (msb_client s c) (big_client s c) q oci)"

lemma ReadRequest_executing:
  assumes "io_wf s" "trans_conn (osPrivate s c)" "good_env E" "ReadRequestFromClient E c s = (r, s')" "0 < r"
    and "framing (msb_client s c) (big_client s c) (pending s c @ bytes_read E c s) \<noteq> Malformed"
  shows "executing s' c (pending s c @ bytes_read E c s)"
proof -
  obtain k :: nat and oci where "oc_input (osPrivate s' c) = Some oci"
    "kept (msb_client s c) (big_client s c) (pending s c @ bytes_read E c s) oci" "io_wf s'"
    "msb_client s' c = msb_client s c" "big_client s' c = big_client s c"
    by (rule handed_out [OF assms])
  then show ?thesis by (auto simp: executing_def)
qed

lemma executing_same: "executing s c q \<Longrightarrow> same_input s s' \<Longrightarrow>
  msb_client s' c = msb_client s c \<Longrightarrow> big_client s' c = big_client s c \<Longrightarrow> executing s' c q"
  by (simp add: executing_def same_input_wf) (simp add: same_input_def)

text \<open>Everything of the state that putting a request back leaves alone, and the client's mark.\<close>

lemma ResetCurrentRequest_sel [simp]:
  "io_clients (ResetCurrentRequest c s) = io_clients s" "AllClients (ResetCurrentRequest c s) = AllClients s"
  "oc_fd (osPrivate (ResetCurrentRequest c s) c') = oc_fd (osPrivate s c')"
  "host_msb (ResetCurrentRequest c s) = host_msb s"
  by (auto simp: ResetCurrentRequest_def YieldControl_def YieldControlNoInput_def Let_def split: option.splits)

lemma ResetCurrentRequest_mark:
  assumes "executing s c q" "\<not> is_big (msb_client s c) (big_client s c) q"
    and "framing (msb_client s c) (big_client s c) q = Request k" "oc_fd (osPrivate s c) \<in> AllClients s"
  shows "oc_fd (osPrivate s c) \<in> ClientsWithInput (ResetCurrentRequest c s)"
proof -
  obtain oci where oci: "oc_input (osPrivate s c) = Some oci" "unread oci = q" "input_ok oci"
    using assms(1,2) io_wf_input by (auto simp: executing_def kept_def)
  let ?s = "if AvailableInput s = Some c then s\<lparr>AvailableInput := None\<rparr> else s" and ?o = "oci\<lparr>lenLastReq := 0\<rparr>"
  have len: "in_buffer oci = length q" using oci(2,3) length_unread [of oci] by (simp add: input_ok_def)
  have k: "4 \<le> length q" "4 * unat (card16 (msb_client s c) q 2) \<le> length q"
    using assms(2,3) by (auto simp: framing_def upto_def Let_def split: if_splits)
  have g: "get_req_len ?s c (buffer ?o) (bufptr ?o) = ucast (card16 (msb_client s c) q 2)"
    using get_req_len_unread [of ?o ?s c] oci len k by (simp add: input_ok_def msb_client_def)
  have nb: "\<not> (get_req_len ?s c (buffer ?o) (bufptr ?o) = 0 \<and> big_requests (io_clients ?s c))"
    using assms(2) unfolding g by (auto simp: ucast_zero_iff is_big_def big_client_def)
  show ?thesis
    using len k g nb assms(4)
    by (simp add: ResetCurrentRequest_def oci(1) Let_def sz_xReq_def unat_card16 YieldControl_def)
qed

lemma ResetCurrentRequest_back:
  assumes "executing s c q" "\<not> is_big (msb_client s c) (big_client s c) q"
  shows "pending (ResetCurrentRequest c s) c = q" "others c s (ResetCurrentRequest c s)"
proof -
  obtain oci where oci: "oc_input (osPrivate s c) = Some oci" "unread oci = q" "io_wf s"
    using assms by (auto simp: executing_def kept_def)
  show "pending (ResetCurrentRequest c s) c = q" "others c s (ResetCurrentRequest c s)"
    using ResetCurrentRequest_effect [OF oci(3,1)] assms(2) oci(2) by auto
qed

subsection \<open>Waiting and being woken\<close>

lemma at_conn_sel [simp]: "conn (at_conn f s) = f (conn s)" "grabState (at_conn f s) = grabState s"
  "grabClient (at_conn f s) = grabClient s" "grabWaiters (at_conn f s) = grabWaiters s"
  by (simp_all add: at_conn_def)

lemma io_at_io [simp]: "io (at_io f s) = f (io s)" "GrabInProgress (at_io f s) = GrabInProgress s"
  "GrabImperviousClients (at_io f s) = GrabImperviousClients s" "SavedAllClients (at_io f s) = SavedAllClients s"
  "SavedAllSockets (at_io f s) = SavedAllSockets s" "AllSockets (at_io f s) = AllSockets s"
  "SavedClientsWithInput (at_io f s) = SavedClientsWithInput s"
  by (simp_all add: at_io_def)

text \<open>Changing the masks does not touch the bytes.\<close>

lemma masks_same_input:
  "same_input (io s) (io (set_listening w a s))" "same_input (io s) (io (IgnoreClient c s))"
  "same_input (io s) (io (AttendClient c s))" "same_input (io s) (io (ListenToAllClients s))"
  "same_input (io s) (io (OnlyListenToOneClient c s))" "same_input (io s) (io (tell_grab c g s))"
  by (simp_all add: same_input_def op_defs)

lemma masks_clients [simp]:
  "io_clients (io (IgnoreClient c s)) = io_clients (io s)" "io_clients (io (AttendClient c s)) = io_clients (io s)"
  "io_clients (io (ListenToAllClients s)) = io_clients (io s)" "io_clients (io (tell_grab c' g s)) = io_clients (io s)"
  "io_clients (io (OnlyListenToOneClient c s)) = io_clients (io s)"
  "host_msb (io (IgnoreClient c s)) = host_msb (io s)" "host_msb (io (AttendClient c s)) = host_msb (io s)"
  "host_msb (io (ListenToAllClients s)) = host_msb (io s)" "host_msb (io (tell_grab c' g s)) = host_msb (io s)"
  "host_msb (io (OnlyListenToOneClient c s)) = host_msb (io s)"
  by (simp_all add: op_defs)

text \<open>Putting the client to sleep.\<close>

definition asleep_io :: "nat \<Rightarrow> conn_state \<Rightarrow> conn_state" where
  "asleep_io c s = at_io (put_client c (\<lambda>cl. cl\<lparr>client_sequence := client_sequence cl - 1\<rparr>)) (at_io (ResetCurrentRequest c) s)"

lemma wait_for_grab_conn: "conn (wait_for_grab c s) = IgnoreClient c (asleep_io c (conn s))"
  by (simp add: wait_for_grab_def asleep_io_def Let_def)

lemma wait_for_grab_bytes:
  assumes "executing (io (conn s)) c q" "\<not> is_big (msb_client (io (conn s)) c) (big_client (io (conn s)) c) q"
  defines "i' \<equiv> io (conn (wait_for_grab c s))"
  shows "io_wf i'" "pending i' c = q" "\<And>c'. c' \<noteq> c \<Longrightarrow> pending i' c' = pending (io (conn s)) c'"
    "io_clients i' = (io_clients (io (conn s)))(c := (the_client c s)\<lparr>client_sequence := client_sequence (the_client c s) - 1\<rparr>)"
    "host_msb i' = host_msb (io (conn s))"
proof -
  let ?r = "ResetCurrentRequest c (io (conn s))"
  note r = ResetCurrentRequest_back [OF assms(1,2)]
  have rp: "same_input ?r (io (asleep_io c (conn s)))" by (simp add: asleep_io_def same_input_intros)
  have same: "same_input (io (asleep_io c (conn s))) i'"
    unfolding i'_def wait_for_grab_conn by (rule masks_same_input)
  show "io_wf i'" "pending i' c = q" "\<And>c'. c' \<noteq> c \<Longrightarrow> pending i' c' = pending (io (conn s)) c'"
    unfolding same_input_wf [OF same] same_input_pending [OF same] same_input_wf [OF rp] same_input_pending [OF rp]
    using r by (simp_all add: others_def)
  show "io_clients i' = (io_clients (io (conn s)))(c := (the_client c s)\<lparr>client_sequence := client_sequence (the_client c s) - 1\<rparr>)"
    "host_msb i' = host_msb (io (conn s))"
    unfolding i'_def wait_for_grab_conn by (simp_all add: asleep_io_def the_client_def op_defs)
qed

lemma wait_for_grab_effect:
  assumes "executing (io (conn s)) c q" "\<not> is_big (msb_client (io (conn s)) c) (big_client (io (conn s)) c) q"
    and "framing (msb_client (io (conn s)) c) (big_client (io (conn s)) c) q = Request k"
    and "client_fd (conn s) c \<in> AllClients (io (conn s))"
  defines "i' \<equiv> io (conn (wait_for_grab c s))"
  shows "client_fd (conn s) c \<notin> AllClients i'" "client_fd (conn s) c \<notin> ClientsWithInput i'"
    "client_fd (conn s) c \<in> IgnoredClientsWithInput i'" "client_fd (conn (wait_for_grab c s)) = client_fd (conn s)"
proof -
  have fd: "client_fd (asleep_io c (conn s)) = client_fd (conn s)"
    by (simp add: client_fd_def asleep_io_def fun_eq_iff)
  have "client_fd (conn s) c \<in> ClientsWithInput (ResetCurrentRequest c (io (conn s)))"
    using ResetCurrentRequest_mark [OF assms(1-3)] assms(4) by (simp add: client_fd_def)
  then have "client_fd (conn s) c \<in> ClientsWithInput (io (asleep_io c (conn s)))"
    "client_fd (conn s) c \<in> AllClients (io (asleep_io c (conn s)))"
    using assms(4) by (simp_all add: asleep_io_def)
  then show "client_fd (conn s) c \<notin> AllClients i'" "client_fd (conn s) c \<notin> ClientsWithInput i'"
    "client_fd (conn s) c \<in> IgnoredClientsWithInput i'"
    unfolding i'_def wait_for_grab_conn by (simp_all add: IgnoreClient_def Let_def fd move_bit_def set_listening_def)
  show "client_fd (conn (wait_for_grab c s)) = client_fd (conn s)"
    unfolding wait_for_grab_conn using fd by (simp add: client_fd_def fun_eq_iff IgnoreClient_def Let_def set_listening_def)
qed

lemma UngrabServer_wakes_effect:
  fixes g :: nat
  assumes "next_waiter (grabWaiters s) = Some c"
  defines "s' \<equiv> UngrabServer g s"
  shows "grabState s' = GrabNone" "grabWaiters s' = WAITCLEAR (grabWaiters s) c" "GrabInProgress (conn s') = 0"
    "same_input (io (conn s)) (io (conn s'))" "io_clients (io (conn s')) = io_clients (io (conn s))"
    "client_fd (conn s) c \<in> AllClients (io (conn s'))"
    "client_fd (conn s) c \<in> IgnoredClientsWithInput (io (conn s)) \<Longrightarrow> client_fd (conn s) c \<in> ClientsWithInput (io (conn s'))"
  using assms(1)
  by (auto simp: s'_def UngrabServer_def op_defs client_fd_def same_input_def at_conn_def)

lemma UngrabServer_no_waiter:
  fixes g :: nat
  assumes "next_waiter (grabWaiters s) = None"
  defines "s' \<equiv> UngrabServer g s"
  shows "grabState s' = GrabNone" "grabWaiters s' = grabWaiters s" "GrabInProgress (conn s') = 0"
  using assms(1) by (auto simp: s'_def UngrabServer_def op_defs at_conn_def)


text \<open>The holder asks from client 1; client 2 is impervious to grabs and asks for one itself.\<close>

definition grab_with :: "bool \<Rightarrow> byte list \<Rightarrow> server_state" where
  "grab_with swp bytes = \<lparr>
     conn = OnlyListenToOneClient 1 (conn_example\<lparr>GrabImperviousClients := {12},
       io := (io conn_example)\<lparr>
         osPrivate := (osPrivate (io conn_example))(2 := \<lparr>oc_fd = 12, oc_input = Some
           \<lparr>buffer = bytes, bufptr = 0, bufcnt = 4, lenLastReq = 4, oci_size = 4\<rparr>,
           oc_output = None, trans_conn = True, sent = []\<rparr>),
         io_clients := (io_clients (io conn_example))(2 := (io_clients (io conn_example) 2)
           \<lparr>client_swapped := swp, client_req_len := 1, client_sequence := 5\<rparr>)\<rparr>\<rparr>),
     grabState = GrabActive, grabClient = Some 1, grabWaiters = replicate 8 0\<rparr>"

definition grab_example :: server_state where
  "grab_example = grab_with False [36, 0, 1, 0]"

lemmas grab_with_defs = grab_with_def op_defs conn_example_def client_fd_def io_example_def the_client_def

lemma grab_with_wf:
  assumes "length bytes = 4"
  shows "io_wf (io (conn (grab_with swp bytes)))"
proof -
  have "pending (io (conn (grab_with swp bytes))) c = (if c = 0 then requests_example else [])" for c
    using assms by (auto simp: grab_with_defs pending_def unread_def in_buffer_def advance_request_def
        loaded_example_def requests_example_def)
  then show ?thesis
    using assms
    by (auto simp: io_wf_def grab_with_defs input_ok_def loaded_example_def requests_example_def split: if_splits)
qed

lemma grab_example_facts:
  "executing (io (conn grab_example)) 2 [36, 0, 1, 0]"
  "msb_client (io (conn grab_example)) 2 = False" "\<not> is_big False True [36, 0, 1, 0]"
  "big_client (io (conn grab_example)) 2 = True" "framing False True [36, 0, 1, 0] = Request 4"
  "client_fd (conn grab_example) 2 = 12" "12 \<in> AllClients (io (conn grab_example))"
  "client_req_len (the_client 2 grab_example) = 1" "client_sequence (the_client 2 grab_example) = 5"
  "grabState grab_example = GrabActive" "grabClient grab_example = Some 1"
  "grabWaiters grab_example = replicate 8 0"
proof -
  show nb: "\<not> is_big False True [36, 0, 1, 0]" by code_simp
  then show "executing (io (conn grab_example)) 2 [36, 0, 1, 0]"
    using grab_with_wf [of "[36, 0, 1, 0]" False]
    by (auto simp: executing_def kept_def unread_def in_buffer_def grab_example_def grab_with_defs
        msb_client_def big_client_def)
  show "framing False True [36, 0, 1, 0] = Request 4" by code_simp
qed (simp_all add: grab_example_def grab_with_defs msb_client_def big_client_def)


subsection \<open>The invariant\<close>

definition grab_wf :: "server_state \<Rightarrow> bool" where
  "grab_wf s \<longleftrightarrow> listen_wf (conn s) \<and> (grabState s = GrabNone \<longleftrightarrow> GrabInProgress (conn s) = 0) \<and>
     (grabState s \<noteq> GrabNone \<longrightarrow> grabClient s = Some (GrabInProgress (conn s)))"

lemma listen_wf_masks:
  assumes "listen_wf s" "AllClients (io s') = AllClients (io s)"
    "ClientsWithInput (io s') \<subseteq> ClientsWithInput (io s) \<union> AllClients (io s)"
    "AllSockets s' = AllSockets s" "GrabInProgress s' = GrabInProgress s"
    "GrabImperviousClients s' = GrabImperviousClients s" "SavedAllClients s' = SavedAllClients s"
    "SavedAllSockets s' = SavedAllSockets s" "SavedClientsWithInput s' = SavedClientsWithInput s"
    "client_fd s' = client_fd s"
  shows "listen_wf s'"
  using assms unfolding listen_wf_def served_def by auto

lemma listen_wf_Ignore:
  assumes "listen_wf s"
  shows "listen_wf (IgnoreClient c s)"
proof (cases "GrabInProgress s \<noteq> 0 \<and> client_fd s c \<in> AllClients (io s)")
  case True
  then show ?thesis
    using assms by (auto simp: listen_wf_def served_def IgnoreClient_def Let_def client_fd_def)
next
  case False
  then show ?thesis using Ignore_step [OF assms, of c] by (auto simp: step_ok_def)
qed

lemma ResetCurrentRequest_input:
  "oc_fd (osPrivate s c) \<in> AllClients s \<Longrightarrow>
   ClientsWithInput (ResetCurrentRequest c s) \<subseteq> ClientsWithInput s \<union> AllClients s"
  by (auto simp: ResetCurrentRequest_def YieldControl_def YieldControlNoInput_def Let_def split: option.splits)

lemma wait_for_grab_wf:
  assumes "grab_wf s" "client_fd (conn s) c \<in> AllClients (io (conn s))"
  shows "grab_wf (wait_for_grab c s)"
proof -
  have "listen_wf (asleep_io c (conn s))"
    by (rule listen_wf_masks [of "conn s"])
      (use assms ResetCurrentRequest_input [of "io (conn s)" c] in
        \<open>auto simp: grab_wf_def client_fd_def fun_eq_iff put_client_def asleep_io_def\<close>)
  then show ?thesis
    using assms(1) listen_wf_Ignore [of "asleep_io c (conn s)" c]
    by (simp add: grab_wf_def wait_for_grab_conn) (simp add: wait_for_grab_def asleep_io_def IgnoreClient_def Let_def)
qed

lemma tell_grab_wf: "listen_wf s \<Longrightarrow> listen_wf (tell_grab c g s)"
  by (erule listen_wf_masks) simp_all

lemma UngrabServer_wf:
  assumes "listen_wf (conn s)"
  shows "grab_wf (UngrabServer c s)"
proof -
  have u: "listen_wf (ListenToAllClients (conn s))" "GrabInProgress (ListenToAllClients (conn s)) = 0"
    using Ungrab_step [OF assms] by (simp_all add: step_ok_def ListenToAllClients_def)
  have a: "listen_wf (AttendClient i (ListenToAllClients (conn s)))"
    "GrabInProgress (AttendClient i (ListenToAllClients (conn s))) = 0" for i
    using Attend_step [OF u(1), of i] u(2) by (simp_all add: step_ok_def own_fd_def AttendClient_def Let_def)
  show ?thesis
    using u a by (auto simp: grab_wf_def UngrabServer_def Let_def tell_grab_wf split: option.splits)
qed

lemma ProcGrabServer_wf:
  assumes "grab_wf s" "client_fd (conn s) c \<in> AllClients (io (conn s))" "c \<noteq> 0"
  shows "grab_wf (snd (ProcGrabServer c s))"
proof (cases "client_req_len (the_client c s) = of_nat (sz_xReq div 4) \<and> (grabState s = GrabNone \<or> grabClient s = Some c)")
  case True
  have "step_ok (Grab c) (conn s)" using assms by (intro Grab_step) (simp_all add: grab_wf_def)
  then have "listen_wf (OnlyListenToOneClient c (conn s))" by (simp add: step_ok_def)
  moreover have "GrabInProgress (OnlyListenToOneClient c (conn s)) = c"
    using True assms by (auto simp: OnlyListenToOneClient_def Let_def grab_wf_def)
  ultimately show ?thesis
    using True assms(3) by (auto simp: ProcGrabServer_def Let_def grab_wf_def tell_grab_wf)
next
  case False
  then show ?thesis
    using assms wait_for_grab_wf by (auto simp: ProcGrabServer_def)
qed

lemma leave_grab_wf:
  assumes "grab_wf s"
  shows "grab_wf (leave_grab c s)" "GrabInProgress (conn (leave_grab c s)) = 0 \<or> GrabInProgress (conn (leave_grab c s)) \<noteq> c"
proof -
  have u: "grab_wf (UngrabServer c s)" "GrabInProgress (conn (UngrabServer c s)) = 0"
    using UngrabServer_wf [of s c] UngrabServer_no_waiter(3) [of s c] UngrabServer_wakes_effect(3) [of s _ c] assms
    by (simp add: grab_wf_def, cases "next_waiter (grabWaiters s)", blast+)
  then show "grab_wf (leave_grab c s)" "GrabInProgress (conn (leave_grab c s)) = 0 \<or> GrabInProgress (conn (leave_grab c s)) \<noteq> c"
    using assms by (auto simp: leave_grab_def Let_def grab_wf_def)
qed

text \<open>
  What happens to a server: a client that is being served grabs or ungrabs the server; a client
  leaves and its connection is closed; any other operation on the masks.
\<close>

fun other_op :: "listen_op \<Rightarrow> bool" where
  "other_op (Grab c) = False" | "other_op Ungrab = False" | "other_op (Disconnect c) = False"
| "other_op _ = True"

inductive grab_step :: "server_state \<Rightarrow> server_state \<Rightarrow> bool" where
  grab: "c \<noteq> 0 \<Longrightarrow> client_fd (conn s) c \<in> AllClients (io (conn s)) \<Longrightarrow> grab_step s (snd (ProcGrabServer c s))"
| ungrab: "grab_step s (snd (ProcUngrabServer c s))"
| leave: "grab_step s (at_conn (CloseDownFileDescriptor c) (leave_grab c s))"
| other: "other_op op \<Longrightarrow> op_ok op (conn s) \<Longrightarrow> grab_step s (at_conn (run_op op) s)"

inductive_cases grab_stepE: "grab_step s s'"

lemma other_op_holder: "other_op op \<Longrightarrow> GrabInProgress (run_op op s) = GrabInProgress s"
  by (cases op) (simp_all add: op_defs listen_to_new_def mark_input_def)

lemma grab_step_wf:
  assumes "grab_step s s'" "grab_wf s"
  shows "grab_wf s'"
  using assms(1)
proof cases
  case (grab c)
  then show ?thesis using ProcGrabServer_wf [OF assms(2)] by simp
next
  case (ungrab c)
  then show ?thesis using UngrabServer_wf [of s c] assms(2) by (simp add: ProcUngrabServer_def grab_wf_def)
next
  case (leave c)
  let ?s = "leave_grab c s"
  have w: "grab_wf ?s" "GrabInProgress (conn ?s) = 0 \<or> GrabInProgress (conn ?s) \<noteq> c"
    using leave_grab_wf [OF assms(2)] by simp_all
  have "listen_wf (CloseDownFileDescriptor c (conn ?s))"
  proof (cases "c = GrabInProgress (conn ?s)")
    case False
    then show ?thesis using Disconnect_step [of "conn ?s" c] w(1) by (simp add: step_ok_def grab_wf_def)
  next
    case True
    then have "GrabInProgress (conn ?s) = 0" using w(2) by simp
    then show ?thesis
      using w(1) by (auto simp: grab_wf_def listen_wf_def served_def CloseDownFileDescriptor_def forget_fd_def Let_def put_comm_def)
  qed
  then show ?thesis
    using w(1) leave by (simp add: grab_wf_def CloseDownFileDescriptor_def forget_fd_def Let_def)
next
  case (other op)
  have "listen_wf (run_op op (conn s))"
    using op_step [of "conn s" op] other assms(2) by (simp add: step_ok_def grab_wf_def)
  then show ?thesis using other assms(2) other_op_holder [of op "conn s"] by (simp add: grab_wf_def)
qed

text \<open>
  C10. However requests to grab and ungrab the server, clients that leave, and the other operations
  on connections follow each other: at most one client holds the grab, the dispatcher and the masks
  agree on which, and while there is one only this client and those impervious to grabs are listened
  to or marked as having a request.
\<close>

theorem server_grab_exclusive:
  assumes "grab_step\<^sup>*\<^sup>* s0 s" "grab_wf s0"
  shows "grab_wf s \<and> (grabState s \<noteq> GrabNone \<longrightarrow> (\<exists>g. grabClient s = Some g \<and> GrabInProgress (conn s) = g \<and>
    AllClients (io (conn s)) \<union> ClientsWithInput (io (conn s)) \<subseteq> insert (client_fd (conn s) g) (GrabImperviousClients (conn s))))"
proof -
  have "grab_wf s" using assms by (induction rule: rtranclp_induct) (auto dest: grab_step_wf)
  then show ?thesis by (auto simp: grab_wf_def listen_wf_def served_def)
qed

definition idle_example :: server_state where
  "idle_example = \<lparr>conn = conn_example, grabState = GrabNone, grabClient = None, grabWaiters = replicate 8 0\<rparr>"

theorem server_grab_exclusive_witness:
  "grab_wf (snd (ProcGrabServer 1 idle_example))"
proof -
  have "grab_step idle_example (snd (ProcGrabServer 1 idle_example))"
    by (rule grab) (simp_all add: idle_example_def)
  moreover have "grab_wf idle_example" using conn_example_wf by (simp add: grab_wf_def idle_example_def)
  ultimately show ?thesis using server_grab_exclusive [of idle_example] by blast
qed

subsection \<open>What goes wrong\<close>

text \<open>
  A waiting client that has been woken and leaves before it has asked again takes the wakening with
  it: nobody holds the grab, and the others go on waiting.
\<close>

theorem leave_grab_loses_wakeup:
  assumes "grabState s = GrabNone" "WAITING (grabWaiters s) c'" "c' \<noteq> c" "c div 32 < length (grabWaiters s)"
  shows "conn (leave_grab c s) = conn s \<and> grabState (leave_grab c s) = GrabNone \<and>
    WAITING (grabWaiters (leave_grab c s)) c'"
  using assms by (simp add: leave_grab_def Let_def WAITING_clear)

theorem leave_grab_loses_wakeup_witness:
  "WAITING (grabWaiters (leave_grab 2 (UngrabServer 1 (grab_example\<lparr>grabWaiters := [12, 0, 0, 0, 0, 0, 0, 0]\<rparr>)))) 3"
proof -
  let ?s = "UngrabServer 1 (grab_example\<lparr>grabWaiters := [12, 0, 0, 0, 0, 0, 0, 0]\<rparr>)"
  have "next_waiter [12, 0, 0, 0, 0, 0, 0, 0] = Some 2" by code_simp
  note w = UngrabServer_wakes_effect(1,2) [of "grab_example\<lparr>grabWaiters := [12, 0, 0, 0, 0, 0, 0, 0]\<rparr>" 2 1]
  have "WAITING (WAITCLEAR [12, 0, 0, 0, 0, 0, 0, 0] 2) 3" "WAITCLEAR [12, 0, 0, 0, 0, 0, 0, 0] 2 \<noteq> []" by code_simp+
  then show ?thesis
    using leave_grab_loses_wakeup [of ?s 3 2] w \<open>next_waiter _ = _\<close> by simp
qed

text \<open>
  A client of the other byte order: its request comes again with the length in the wrong order.
\<close>

lemma swap_length_executing:
  assumes "io_wf s" "oc_input (osPrivate s c) = Some oci" "unread oci = [x, d, l0, l1] @ rest"
    and "requestBuffer (io_clients s c) = bufptr oci"
  shows "\<exists>oci'. oc_input (osPrivate (swap_length c s) c) = Some oci' \<and> unread oci' = [x, d, l1, l0] @ rest"
    "io_wf (swap_length c s)" "io_clients (swap_length c s) = io_clients s" "host_msb (swap_length c s) = host_msb s"
proof -
  let ?p = "bufptr oci + 2" and ?b = "buffer oci"
  let ?o = "oci\<lparr>buffer := ?b[?p := ?b ! (?p + 1), ?p + 1 := ?b ! ?p]\<rparr>"
  have ok: "input_ok oci" using assms(1,2) by (simp add: io_wf_def)
  then have len: "in_buffer oci = 4 + length rest" "bufcnt oci \<le> length ?b"
    using length_unread [of oci] assms(3) by (auto simp: input_ok_def)
  have n: "?b ! ?p = l0" "?b ! (?p + 1) = l1"
    using unread_nth [of oci 2] unread_nth [of oci 3] len assms(3) by (simp_all add: numeral_3_eq_3 numeral_2_eq_2)
  have s: "swap_length c s = put_input c (Some ?o) s"
    by (simp add: swap_length_def assms(2,4) Let_def)
  have "unread ?o = take (in_buffer oci) (drop (bufptr oci) (?b[?p := l1, ?p + 1 := l0]))"
    using n by (simp add: unread_def in_buffer_def)
  also have "\<dots> = (unread oci)[2 := l1, 3 := l0]"
    by (simp add: drop_update_swap take_update_swap unread_def)
  finally have u: "unread ?o = [x, d, l1, l0] @ rest" using assms(3) by (simp add: numeral_2_eq_2 numeral_3_eq_3)
  then show "\<exists>oci'. oc_input (osPrivate (swap_length c s) c) = Some oci' \<and> unread oci' = [x, d, l1, l0] @ rest"
    by (simp add: s)
  have "input_ok ?o" using ok by (simp add: input_ok_def)
  moreover have "unread (advance_request ?o) = []" if "unread (advance_request oci) = []"
    using that ok \<open>input_ok ?o\<close> by (simp add: unread_advance_Nil)
  ultimately show "io_wf (swap_length c s)"
    using assms(1,2) unfolding s
    by (intro io_wf_put_input) (auto simp: io_wf_def pending_def)
  show "io_clients (swap_length c s) = io_clients s" "host_msb (swap_length c s) = host_msb s"
    by (simp_all add: s)
qed

text \<open>
  C37. When a client of the other byte order has to wait for the grab, its stream is damaged: the
  handler before \<open>ProcGrabServer\<close> has swapped the length in the buffer, and the request put back is
  taken for one of 256 words.
\<close>

theorem SProcGrabServer_corrupts:
  assumes "io_wf (io (conn s))" "oc_input (osPrivate (io (conn s)) c) = Some oci"
    and "requestBuffer (the_client c s) = bufptr oci" "unread oci = [x, d, l0, l1] @ rest"
    and "card16 (msb_client (io (conn s)) c) [x, d, l0, l1] 2 = 1" "client_req_len (the_client c s) = 1"
    and "grabState s \<noteq> GrabNone" "grabClient s \<noteq> Some c"
    and "SProcSimpleReq (\<lambda>reqType. ProcGrabServer) x c s = (r, s1)"
  shows "pending (io (conn s1)) c = [x, d, l1, l0] @ rest \<and>
    framing (msb_client (io (conn s1)) c) (big_client (io (conn s1)) c) (pending (io (conn s1)) c) =
      upto 1024 (pending (io (conn s1)) c)"
proof -
  let ?s = "at_conn (at_io (swap_length c)) s" and ?q = "[x, d, l1, l0] @ rest"
  let ?m = "msb_client (io (conn s)) c"
  have sw: "\<exists>oci'. oc_input (osPrivate (io (conn ?s)) c) = Some oci' \<and> unread oci' = ?q"
    "io_wf (io (conn ?s))" "io_clients (io (conn ?s)) = io_clients (io (conn s))"
    "host_msb (io (conn ?s)) = host_msb (io (conn s))"
    using swap_length_executing [OF assms(1,2,4)] assms(3) by (simp_all add: the_client_def)
  have len: "(if ?m then word_cat l0 l1 else word_cat l1 l0 :: CARD16) = 1"
    using assms(5) by (auto simp: card16_def numeral_3_eq_3 numeral_2_eq_2)
  have "word_cat l1 l0 = (256 :: CARD16)" if "word_cat l0 l1 = (1 :: CARD16)" for l0 l1 :: byte
  proof -
    have "word_split (1 :: CARD16) = (l0, l1)" by (rule word_split_cat_alt) (simp_all add: that word_size)
    moreover have "word_split (1 :: CARD16) = (0 :: byte, 1 :: byte)" by code_simp
    moreover have "word_cat (1 :: byte) (0 :: byte) = (256 :: CARD16)" by code_simp
    ultimately show ?thesis by simp
  qed
  with len have c: "card16 ?m ?q 2 = 256"
    by (auto simp: card16_def numeral_3_eq_3 numeral_2_eq_2 split: if_splits)
  have mb: "msb_client (io (conn ?s)) c = ?m" "big_client (io (conn ?s)) c = big_client (io (conn s)) c"
    using sw(3,4) by (simp_all add: msb_client_def big_client_def)
  have nb: "\<not> is_big ?m (big_client (io (conn s)) c) ?q" using c by (simp add: is_big_def)
  have ex: "executing (io (conn ?s)) c ?q"
    using sw(1,2) nb mb by (auto simp: executing_def kept_def)
  have s1: "s1 = wait_for_grab c ?s"
    using assms(6-9) sw(3) by (auto simp: SProcSimpleReq_def ProcGrabServer_def sz_xReq_def the_client_def Let_def)
  note b = wait_for_grab_bytes [OF ex, unfolded mb, OF nb, folded s1]
  have "msb_client (io (conn s1)) c = ?m" "big_client (io (conn s1)) c = big_client (io (conn s)) c"
    using b(4,5) sw(3,4) by (simp_all add: msb_client_def big_client_def the_client_def)
  then show ?thesis using b(2) c nb by (simp add: framing_def Let_def)
qed

theorem SProcGrabServer_corrupts_witness:
  "\<exists>r s1. SProcSimpleReq (\<lambda>reqType. ProcGrabServer) 36 2 (grab_with True [36, 0, 0, 1]) = (r, s1) \<and>
     pending (io (conn s1)) 2 = [36, 0, 1, 0] \<and> framing True True [36, 0, 1, 0] = Incomplete 1024"
proof -
  let ?s = "grab_with True [36, 0, 0, 1]"
  obtain r s1 where R: "SProcSimpleReq (\<lambda>reqType. ProcGrabServer) 36 2 ?s = (r, s1)"
    by (cases "SProcSimpleReq (\<lambda>reqType. ProcGrabServer) 36 2 ?s")
  obtain oci where oci: "oc_input (osPrivate (io (conn ?s)) 2) = Some oci" "unread oci = [36, 0, 0, 1] @ []"
    "requestBuffer (the_client 2 ?s) = bufptr oci"
    by (simp add: grab_with_defs unread_def in_buffer_def)
  have "card16 True [36, 0, 0, 1] 2 = 1" by code_simp
  moreover have "msb_client (io (conn ?s)) 2 = True" "client_req_len (the_client 2 ?s) = 1"
    "grabState ?s \<noteq> GrabNone" "grabClient ?s \<noteq> Some 2"
    by (simp_all add: grab_with_defs msb_client_def)
  ultimately have "pending (io (conn s1)) 2 = [36, 0, 1, 0]"
    using SProcGrabServer_corrupts [OF grab_with_wf oci(1,3,2) _ _ _ _ R] by simp
  moreover have "framing True True [36, 0, 1, 0] = Incomplete 1024" by code_simp
  ultimately show ?thesis using R by blast
qed

end
