(* ===== verification/Scheduler.thy ===== *)
theory Scheduler
  imports Prelude
begin

text \<open>
  Which client runs next: \<open>SmartScheduleClient\<close> of \<^verbatim>\<open>programs/Xserver/dix/dispatch.c\<close> and the choice
  of ready clients at the end of \<open>WaitForSomething\<close> in \<^verbatim>\<open>os/WaitFor.c\<close>. The index of a client is its
  number. The lemmas show that the choice respects priorities and that nobody at the highest
  priority waits for ever.
\<close>

subsection \<open>The smart scheduler\<close>

definition SMART_MAX_PRIORITY :: int where "SMART_MAX_PRIORITY = 20"
definition SMART_MIN_PRIORITY :: int where "SMART_MIN_PRIORITY = - 20"

record smart_client =
  smart_priority :: int
  smart_start_tick :: int
  smart_stop_tick :: int
  smart_check_tick :: int

record sched_state =
  smart :: "nat \<Rightarrow> smart_client"
  SmartScheduleSlice :: int
  SmartScheduleInterval :: int
  SmartScheduleMaxSlice :: int
  SmartScheduleTime :: int
  SmartLastClient :: "nat option"
  SmartLastIndex :: "int list"

definition put_smart :: "nat \<Rightarrow> (smart_client \<Rightarrow> smart_client) \<Rightarrow> sched_state \<Rightarrow> sched_state" where
  "put_smart c f s = s\<lparr>smart := (smart s)(c := f (smart s c))\<rparr>"

text \<open>A client that has been idle long enough is praised.\<close>

definition praise :: "int \<Rightarrow> int \<Rightarrow> smart_client \<Rightarrow> smart_client" where
  "praise now idle p =
     (let q = (if now - smart_check_tick p \<ge> idle \<and> smart_priority p < 0
               then p\<lparr>smart_priority := smart_priority p + 1\<rparr> else p)
      in q\<lparr>smart_check_tick := now\<rparr>)"

text \<open>The distance of a client's index from the last one served at its priority.\<close>

definition robin_of :: "sched_state \<Rightarrow> nat \<Rightarrow> int" where
  "robin_of s c = (int c - SmartLastIndex s ! nat (smart_priority (smart s c) - SMART_MIN_PRIORITY)) mod 256"

fun smart_scan :: "int \<Rightarrow> nat list \<Rightarrow> int \<times> int \<times> nat \<Rightarrow> sched_state \<Rightarrow> (int \<times> int \<times> nat) \<times> sched_state" where
  "smart_scan idle [] b s = (b, s)"
| "smart_scan idle (c # cs) (bestPrio, bestRobin, best) s0 =
     (let s = put_smart c (praise (SmartScheduleTime s0) idle) s0;
          prio = smart_priority (smart s c); robin = robin_of s c
      in smart_scan idle cs
           (if prio > bestPrio \<or> prio = bestPrio \<and> robin > bestRobin then (prio, robin, c)
            else (bestPrio, bestRobin, best)) s)"

definition adjust_slice :: "nat \<Rightarrow> nat \<Rightarrow> sched_state \<Rightarrow> sched_state" where
  "adjust_slice c nready s =
     (if nready = 1 then
        (if SmartScheduleTime s - smart_start_tick (smart s c) > 1000 \<and>
            SmartScheduleSlice s < SmartScheduleMaxSlice s
         then s\<lparr>SmartScheduleSlice := SmartScheduleSlice s + SmartScheduleInterval s\<rparr> else s)
      else s\<lparr>SmartScheduleSlice := SmartScheduleInterval s\<rparr>)"

definition SmartScheduleClient :: "nat list \<Rightarrow> sched_state \<Rightarrow> nat \<times> sched_state" where
  "SmartScheduleClient clientReady s0 =
     (let idle = 2 * SmartScheduleSlice s0;
          ((bestPrio, bestRobin, best), s1) = smart_scan idle clientReady (- 0x7fffffff, 0, 0) s0;
          s2 = s1\<lparr>SmartLastIndex := (SmartLastIndex s1)[nat (bestPrio - SMART_MIN_PRIORITY) := int best]\<rparr>;
          s3 = (if SmartLastClient s2 \<noteq> Some best
                then (put_smart best (\<lambda>p. p\<lparr>smart_start_tick := SmartScheduleTime s2\<rparr>) s2)\<lparr>SmartLastClient := Some best\<rparr>
                else s2)
      in (best, adjust_slice best (length clientReady) s3))"

text \<open>In the dispatch loop: the time slice is used up, and its client loses priority.\<close>

definition slice_used :: "int \<Rightarrow> sched_state \<Rightarrow> bool" where
  "slice_used start_tick s \<longleftrightarrow> SmartScheduleTime s - start_tick \<ge> SmartScheduleSlice s"

definition penalize :: "nat \<Rightarrow> sched_state \<Rightarrow> sched_state" where
  "penalize c s = (if smart_priority (smart s c) > SMART_MIN_PRIORITY
     then put_smart c (\<lambda>p. p\<lparr>smart_priority := smart_priority p - 1\<rparr>) s else s)"

subsection \<open>The ready clients\<close>

text \<open>
  The loop over the descriptors of one word of the set, and over the words of \<open>NFDBITS\<close>
  descriptors. The array of ready clients is the list of its used elements.
\<close>

fun ready_word :: "(nat \<Rightarrow> int) \<Rightarrow> (nat \<Rightarrow> nat) \<Rightarrow> nat list \<Rightarrow> int \<Rightarrow> nat list \<Rightarrow> nat list" where
  "ready_word prio translation [] highest out = out"
| "ready_word prio translation (fd # fds) highest out =
     (let c = translation fd
      in if out = [] \<or> prio c > highest then ready_word prio translation fds (prio c) [c]
         else if prio c = highest then ready_word prio translation fds highest (out @ [c])
         else ready_word prio translation fds highest out)"

fun ready_words :: "nat \<Rightarrow> (nat \<Rightarrow> int) \<Rightarrow> (nat \<Rightarrow> nat) \<Rightarrow> nat set \<Rightarrow> nat list \<Rightarrow> nat list \<Rightarrow> nat list" where
  "ready_words NFDBITS prio translation readable [] out = out"
| "ready_words NFDBITS prio translation readable (i # is) out =
     ready_words NFDBITS prio translation readable is
       (ready_word prio translation (filter (\<lambda>fd. fd \<in> readable) [i * NFDBITS..<(i + 1) * NFDBITS]) 0 out)"

definition XFD_SETSIZE :: nat where "XFD_SETSIZE = 256"

definition ready_clients :: "nat \<Rightarrow> (nat \<Rightarrow> int) \<Rightarrow> (nat \<Rightarrow> nat) \<Rightarrow> nat set \<Rightarrow> nat list" where
  "ready_clients NFDBITS prio translation readable =
     ready_words NFDBITS prio translation readable [0..<(XFD_SETSIZE + NFDBITS - 1) div NFDBITS] []"

subsection \<open>What the scan finds\<close>

text \<open>The state after all ready clients have been praised.\<close>

definition praised :: "int \<Rightarrow> nat list \<Rightarrow> sched_state \<Rightarrow> sched_state" where
  "praised idle cs s =
     s\<lparr>smart := (\<lambda>c. if c \<in> set cs then praise (SmartScheduleTime s) idle (smart s c) else smart s c)\<rparr>"

abbreviation priority_in :: "sched_state \<Rightarrow> nat \<Rightarrow> int" where
  "priority_in s c \<equiv> smart_priority (smart s c)"

lemma praised_sel [simp]:
  "SmartLastIndex (praised idle cs s) = SmartLastIndex s" "SmartScheduleTime (praised idle cs s) = SmartScheduleTime s"
  "SmartLastClient (praised idle cs s) = SmartLastClient s"
  by (simp_all add: praised_def)

text \<open>The best so far is at least as good as another client.\<close>

definition at_least :: "sched_state \<Rightarrow> nat \<Rightarrow> int \<times> int \<times> nat \<Rightarrow> bool" where
  "at_least s c = (\<lambda>(p, r, b). priority_in s c < p \<or> priority_in s c = p \<and> robin_of s c \<le> r)"

definition names_itself :: "sched_state \<Rightarrow> int \<times> int \<times> nat \<Rightarrow> bool" where
  "names_itself s = (\<lambda>(p, r, b). priority_in s b = p \<and> robin_of s b = r)"

lemma praised_step:
  assumes "c \<notin> set cs"
  shows "praised idle cs (put_smart c (praise (SmartScheduleTime s) idle) s) = praised idle (c # cs) s"
  using assms by (auto simp: praised_def put_smart_def fun_eq_iff)

lemma smart_scan_state:
  "distinct cs \<Longrightarrow> snd (smart_scan idle cs b s) = praised idle cs s"
proof (induction cs arbitrary: b s)
  case Nil
  then show ?case by (cases b) (simp add: praised_def)
next
  case (Cons c cs)
  then show ?case using praised_step [of c cs idle s] by (cases b) (simp add: Let_def put_smart_def)
qed

lemma smart_scan_best:
  assumes "distinct cs" "smart_scan idle cs b0 s = (b, s')"
  shows "(\<forall>c \<in> set cs. at_least s' c b) \<and>
    (b = b0 \<or> snd (snd b) \<in> set cs \<and> names_itself s' b) \<and>
    fst b0 \<le> fst b \<and> (fst b = fst b0 \<longrightarrow> fst (snd b0) \<le> fst (snd b))"
  using assms
proof (induction cs arbitrary: b0 s)
  case Nil
  then show ?case by (cases b0) simp
next
  case (Cons c cs)
  obtain p r d where b0: "b0 = (p, r, d)" by (cases b0)
  let ?s = "put_smart c (praise (SmartScheduleTime s) idle) s"
  define b1 where "b1 = (if priority_in ?s c > p \<or> priority_in ?s c = p \<and> robin_of ?s c > r
     then (priority_in ?s c, robin_of ?s c, c) else (p, r, d))"
  have scan: "smart_scan idle cs b1 ?s = (b, s')"
    using Cons.prems(2) by (simp add: b0 b1_def Let_def)
  have s': "s' = praised idle (c # cs) s"
    using smart_scan_state [OF Cons.prems(1), of idle b0 s] Cons.prems(2) by simp
  have c: "priority_in s' c = priority_in ?s c" "robin_of s' c = robin_of ?s c"
    unfolding s' by (simp_all add: praised_def put_smart_def robin_of_def)
  note IH = Cons.IH [OF _ scan]
  have "at_least s' c b"
    using IH Cons.prems(1) c unfolding b1_def by (cases b) (auto simp: at_least_def split: if_splits)
  moreover have "b1 = b0 \<or> snd (snd b1) = c \<and> names_itself s' b1"
    using c unfolding b1_def b0 by (auto simp: names_itself_def)
  ultimately show ?case
    using IH Cons.prems(1) unfolding b1_def b0 by (auto split: if_splits)
qed

text \<open>The array of last indices has an entry for every priority a client can have.\<close>

definition smart_wf :: "sched_state \<Rightarrow> bool" where
  "smart_wf s \<longleftrightarrow> length (SmartLastIndex s) = nat (SMART_MAX_PRIORITY - SMART_MIN_PRIORITY + 1) \<and>
     (\<forall>c. SMART_MIN_PRIORITY \<le> smart_priority (smart s c) \<and> smart_priority (smart s c) \<le> SMART_MAX_PRIORITY)"

lemma praise_range:
  "l \<le> smart_priority p \<Longrightarrow> smart_priority p \<le> u \<Longrightarrow> 0 \<le> u \<Longrightarrow>
   l \<le> smart_priority (praise now idle p) \<and> smart_priority (praise now idle p) \<le> u"
  by (auto simp: praise_def Let_def)

lemma praised_wf: "smart_wf s \<Longrightarrow> smart_wf (praised idle cs s)"
  using praise_range [of SMART_MIN_PRIORITY _ SMART_MAX_PRIORITY]
  by (auto simp: smart_wf_def praised_def SMART_MAX_PRIORITY_def)

lemma SmartScheduleClient_parts:
  assumes "smart_wf s" "distinct cs" "cs \<noteq> []" "SmartScheduleClient cs s = (best, s')"
  defines "t \<equiv> praised (2 * SmartScheduleSlice s) cs s"
  shows "best \<in> set cs" "\<And>c. c \<in> set cs \<Longrightarrow> at_least t c (priority_in t best, robin_of t best, best)"
    "SmartLastIndex s' = (SmartLastIndex s)[nat (priority_in t best - SMART_MIN_PRIORITY) := int best]"
    "SmartLastClient s' = Some best" "\<And>c. smart_priority (smart s' c) = priority_in t c"
proof -
  obtain b t' where scan: "smart_scan (2 * SmartScheduleSlice s) cs (- 0x7fffffff, 0, 0) s = (b, t')"
    by (cases "smart_scan (2 * SmartScheduleSlice s) cs (- 0x7fffffff, 0, 0) s")
  have t': "t' = t" using smart_scan_state [OF assms(2)] scan by (metis snd_conv t_def)
  obtain p r d where b: "b = (p, r, d)" by (cases b)
  note best = smart_scan_best [OF assms(2) scan, unfolded t' b]
  have wf: "smart_wf t" unfolding t_def by (rule praised_wf [OF assms(1)])
  have "\<not> (p, r, d) = (- 0x7fffffff, 0, 0)"
  proof
    assume "(p, r, d) = (- 0x7fffffff, 0, 0)"
    then have "priority_in t (hd cs) \<le> - 0x7fffffff"
      using best hd_in_set [OF assms(3)] by (fastforce simp: at_least_def)
    then show False using wf by (auto simp: smart_wf_def SMART_MIN_PRIORITY_def dest: spec [of _ "hd cs"])
  qed
  with best have d: "d \<in> set cs" "priority_in t d = p" "robin_of t d = r"
    by (auto simp: names_itself_def)
  have R: "best = d" "s' = adjust_slice d (length cs)
     (let s2 = t\<lparr>SmartLastIndex := (SmartLastIndex t)[nat (p - SMART_MIN_PRIORITY) := int d]\<rparr>
      in if SmartLastClient s2 \<noteq> Some d
         then (put_smart d (\<lambda>p. p\<lparr>smart_start_tick := SmartScheduleTime s2\<rparr>) s2)\<lparr>SmartLastClient := Some d\<rparr> else s2)"
    using assms(4) scan by (auto simp: SmartScheduleClient_def Let_def b t')
  show "best \<in> set cs" "SmartLastIndex s' = (SmartLastIndex s)[nat (priority_in t best - SMART_MIN_PRIORITY) := int best]"
    "SmartLastClient s' = Some best"
    using d R by (auto simp: adjust_slice_def put_smart_def Let_def t_def)
  show "at_least t c (priority_in t best, robin_of t best, best)" if "c \<in> set cs" for c
    using best that d R(1) by (auto simp: at_least_def)
  show "smart_priority (smart s' c) = priority_in t c" for c
    unfolding R(2) by (simp add: adjust_slice_def put_smart_def Let_def)
qed

subsection \<open>The properties of the smart scheduler\<close>

lemma smart_wf_keeps:
  assumes "smart_wf s"
  shows "smart_wf (penalize c s)" and "distinct cs \<Longrightarrow> cs \<noteq> [] \<Longrightarrow> smart_wf (snd (SmartScheduleClient cs s))"
proof -
  have "priority_in s c \<le> SMART_MAX_PRIORITY" using assms by (simp add: smart_wf_def)
  then have "priority_in s c - 1 \<le> SMART_MAX_PRIORITY" by simp
  then show "smart_wf (penalize c s)"
    using assms by (auto simp: smart_wf_def penalize_def put_smart_def)
  assume cs: "distinct cs" "cs \<noteq> []"
  obtain best s' where S: "SmartScheduleClient cs s = (best, s')" by (cases "SmartScheduleClient cs s")
  show "smart_wf (snd (SmartScheduleClient cs s))"
    using praised_wf [OF assms, of "2 * SmartScheduleSlice s" cs] SmartScheduleClient_parts(3,5) [OF assms cs S]
    by (simp add: smart_wf_def S)
qed

text \<open>
  C36. Of the ready clients \<open>SmartScheduleClient\<close> chooses one of the highest priority, after the idle
  ones have been praised, and among these the one whose index is farthest from the last one served
  at this priority; it becomes the last one served. All priorities stay within the bounds of the
  array of last indices.
\<close>

theorem SmartScheduleClient_best:
  assumes "smart_wf s" "distinct cs" "cs \<noteq> []" "SmartScheduleClient cs s = (best, s')"
  defines "t \<equiv> praised (2 * SmartScheduleSlice s) cs s"
  shows "best \<in> set cs \<and> smart_wf s' \<and>
    (\<forall>c \<in> set cs. priority_in t c < priority_in t best \<or>
       priority_in t c = priority_in t best \<and> robin_of t c \<le> robin_of t best) \<and>
    SmartLastIndex s' = (SmartLastIndex s)[nat (priority_in t best - SMART_MIN_PRIORITY) := int best]"
  using SmartScheduleClient_parts [OF assms(1-4)] smart_wf_keeps(2) [OF assms(1-3)] assms(4)
  by (simp add: t_def at_least_def)

definition sched_example :: sched_state where
  "sched_example = \<lparr>smart = (\<lambda>c. \<lparr>smart_priority = (if c = 7 then - 1 else 0), smart_start_tick = 0,
       smart_stop_tick = 0, smart_check_tick = 90\<rparr>),
     SmartScheduleSlice = 20, SmartScheduleInterval = 20, SmartScheduleMaxSlice = 200, SmartScheduleTime = 100,
     SmartLastClient = None, SmartLastIndex = replicate 41 0\<rparr>"

lemma sched_example_wf: "smart_wf sched_example"
  by (simp add: smart_wf_def sched_example_def SMART_MAX_PRIORITY_def SMART_MIN_PRIORITY_def)

theorem SmartScheduleClient_best_witness:
  "fst (SmartScheduleClient [2, 5, 7] sched_example) = 5"
proof -
  obtain best s' where S: "SmartScheduleClient [2, 5, 7] sched_example = (best, s')"
    by (cases "SmartScheduleClient [2, 5, 7] sched_example")
  have "best \<in> {2, 5, 7}" "\<forall>c \<in> {2, 5, 7}. priority_in (praised 40 [2, 5, 7] sched_example) c <
      priority_in (praised 40 [2, 5, 7] sched_example) best \<or>
      priority_in (praised 40 [2, 5, 7] sched_example) c = priority_in (praised 40 [2, 5, 7] sched_example) best \<and>
      robin_of (praised 40 [2, 5, 7] sched_example) c \<le> robin_of (praised 40 [2, 5, 7] sched_example) best"
    using SmartScheduleClient_best [OF sched_example_wf _ _ S] by (simp_all add: sched_example_def)
  moreover have "robin_of (praised 40 [2, 5, 7] sched_example) 2 = 2" "robin_of (praised 40 [2, 5, 7] sched_example) 5 = 5"
    "priority_in (praised 40 [2, 5, 7] sched_example) 2 = 0" "priority_in (praised 40 [2, 5, 7] sched_example) 5 = 0"
    "priority_in (praised 40 [2, 5, 7] sched_example) 7 = - 1"
    by (simp_all add: robin_of_def praised_def sched_example_def praise_def SMART_MIN_PRIORITY_def Let_def)
  ultimately show ?thesis by (auto simp: S)
qed

text \<open>
  A sequence of turns; between two of them anything may happen to the clients. \<open>at_top\<close>: all the
  time client \<open>w\<close> is ready and no ready client has a priority above its own.
\<close>

type_synonym turn = "nat list \<times> (sched_state \<Rightarrow> sched_state)"

fun turns :: "turn list \<Rightarrow> sched_state \<Rightarrow> nat list" where
  "turns [] s = []"
| "turns ((cs, f) # ts) s = (let (best, s') = SmartScheduleClient cs (f s) in best # turns ts s')"

fun at_top :: "nat \<Rightarrow> int \<Rightarrow> turn list \<Rightarrow> sched_state \<Rightarrow> bool" where
  "at_top w P [] s \<longleftrightarrow> True"
| "at_top w P ((cs, f) # ts) s \<longleftrightarrow>
     (let t = praised (2 * SmartScheduleSlice (f s)) cs (f s)
      in w \<in> set cs \<and> distinct cs \<and> (\<forall>c \<in> set cs. c < 256) \<and> smart_wf (f s) \<and>
         SmartLastIndex (f s) = SmartLastIndex s \<and> priority_in t w = P \<and> (\<forall>c \<in> set cs. priority_in t c \<le> P)) \<and>
     at_top w P ts (snd (SmartScheduleClient cs (f s)))"

definition waited :: "nat \<Rightarrow> int \<Rightarrow> sched_state \<Rightarrow> int" where
  "waited w P s = (int w - SmartLastIndex s ! nat (P - SMART_MIN_PRIORITY)) mod 256"

lemma farther:
  fixes w b l :: int
  assumes "0 \<le> w" "w < 256" "0 \<le> b" "b < 256" "w \<noteq> b" "(w - l) mod 256 \<le> (b - l) mod 256"
  shows "(w - l) mod 256 < (w - b) mod 256"
proof -
  let ?x = "(w - l) mod 256" and ?y = "(b - l) mod 256"
  have "?x \<noteq> ?y"
  proof
    assume "?x = ?y"
    then have "w mod 256 = b mod 256" by (metis diff_add_cancel mod_add_left_eq)
    then show False using assms(1-5) by simp
  qed
  moreover have "(w - b) mod 256 = (?x - ?y) mod 256"
    by (simp add: mod_diff_eq)
  moreover have "0 \<le> ?x" "?y < 256" by simp_all
  ultimately have "(w - b) mod 256 = ?x - ?y + 256"
    using assms(6) mod_add_self2 [of "?x - ?y" 256] mod_pos_pos_trivial [of "?x - ?y + 256" 256] by linarith
  then show ?thesis using \<open>?y < 256\<close> by simp
qed

lemma turn_farther:
  assumes "at_top w P ((cs, f) # ts) s" "SmartScheduleClient cs (f s) = (best, s')" "best \<noteq> w"
  shows "waited w P s < waited w P s'"
proof -
  define t where "t = praised (2 * SmartScheduleSlice (f s)) cs (f s)"
  have top: "w \<in> set cs" "distinct cs" "\<forall>c \<in> set cs. c < 256" "smart_wf (f s)"
    "SmartLastIndex (f s) = SmartLastIndex s" "priority_in t w = P" "\<forall>c \<in> set cs. priority_in t c \<le> P"
    using assms(1) by (simp_all add: t_def Let_def)
  have ne: "cs \<noteq> []" using top(1) by auto
  note parts = SmartScheduleClient_parts [OF top(4,2) ne assms(2), folded t_def]
  have prio: "priority_in t best = P" and robin: "robin_of t w \<le> robin_of t best"
    using parts(1) parts(2) [OF top(1)] top(6,7) by (force simp: at_least_def)+
  have "smart_wf t" unfolding t_def by (rule praised_wf [OF top(4)])
  then have k: "nat (P - SMART_MIN_PRIORITY) < length (SmartLastIndex s)"
    using top(5,6) by (auto simp: smart_wf_def t_def dest!: spec [of _ w])
  have "waited w P s' = (int w - int best) mod 256"
    using parts(3) k by (simp add: waited_def prio top(5))
  moreover have "waited w P s = robin_of t w" "robin_of t best = (int best - SmartLastIndex s ! nat (P - SMART_MIN_PRIORITY)) mod 256"
    using top(5,6) prio by (simp_all add: waited_def robin_of_def) (simp_all add: t_def)
  ultimately show ?thesis
    using farther [of "int w" "int best" "SmartLastIndex s ! nat (P - SMART_MIN_PRIORITY)"] robin assms(3) parts(1) top(1,3)
    by (simp add: waited_def)
qed

lemma turns_reach:
  "at_top w P ts s \<Longrightarrow> 256 - waited w P s \<le> int (length ts) \<Longrightarrow> w \<in> set (turns ts s)"
proof (induction ts arbitrary: s)
  case Nil
  have "waited w P s < 256" by (simp add: waited_def)
  with Nil show ?case by simp
next
  case (Cons x ts)
  obtain cs f where x: "x = (cs, f)" by (cases x)
  obtain best s' where S: "SmartScheduleClient cs (f s) = (best, s')" by (cases "SmartScheduleClient cs (f s)")
  show ?case
  proof (cases "best = w")
    case True
    then show ?thesis by (simp add: x S)
  next
    case False
    have "waited w P s < waited w P s'" using turn_farther Cons.prems(1) S False unfolding x by blast
    then show ?thesis using Cons.IH [of s'] Cons.prems by (simp add: x S)
  qed
qed

text \<open>
  C35. Nobody starves at the highest priority: a client that stays ready, and above which no ready
  client rises, is chosen within 256 turns, whatever happens to the others in between.
\<close>

theorem SmartScheduleClient_fair:
  assumes "at_top w P ts s" "256 \<le> length ts"
  shows "w \<in> set (turns ts s)"
proof -
  have "0 \<le> waited w P s" by (simp add: waited_def)
  then show ?thesis using turns_reach [OF assms(1)] assms(2) by simp
qed

lemma at_top_example:
  assumes "length (SmartLastIndex s) = 41" "\<And>c. smart_priority (smart s c) = 0"
  shows "at_top 2 0 (replicate n ([2, 5], \<lambda>s. s)) s"
  using assms
proof (induction n arbitrary: s)
  case (Suc n)
  obtain best s' where S: "SmartScheduleClient [2, 5] s = (best, s')" by (cases "SmartScheduleClient [2, 5] s")
  have wf: "smart_wf s" using Suc.prems by (simp add: smart_wf_def SMART_MAX_PRIORITY_def SMART_MIN_PRIORITY_def)
  have p: "priority_in (praised i [2, 5] s) c = 0" for i c
    using Suc.prems(2) by (simp add: praised_def praise_def Let_def)
  have "length (SmartLastIndex s') = 41" "\<And>c. smart_priority (smart s' c) = 0"
    using SmartScheduleClient_parts(3,5) [OF wf _ _ S] Suc.prems(1) p by simp_all
  then show ?case using Suc.IH [of s'] wf p by (simp add: S Let_def)
qed simp

theorem SmartScheduleClient_fair_witness:
  "2 \<in> set (turns (replicate 256 ([2, 5], \<lambda>s. s)) (sched_example\<lparr>smart := \<lambda>c. (smart sched_example c)\<lparr>smart_priority := 0\<rparr>\<rparr>))"
proof -
  let ?s = "sched_example\<lparr>smart := \<lambda>c. (smart sched_example c)\<lparr>smart_priority := 0\<rparr>\<rparr>"
  have "at_top 2 0 (replicate 256 ([2, 5], \<lambda>s. s)) ?s" by (rule at_top_example) (simp_all add: sched_example_def)
  from SmartScheduleClient_fair [OF this] show ?thesis by simp
qed

subsection \<open>The ready clients\<close>

text \<open>The clients of the highest priority, in the order of their descriptors.\<close>

definition top_clients :: "(nat \<Rightarrow> int) \<Rightarrow> nat list \<Rightarrow> nat list" where
  "top_clients prio cs = filter (\<lambda>c. \<forall>d \<in> set cs. prio d \<le> prio c) cs"

lemma top_clients_snoc:
  assumes "\<And>d. d \<in> set cs \<Longrightarrow> prio d \<le> h" "h \<in> prio ` set cs"
  shows "top_clients prio (cs @ [c]) =
    (if prio c > h then [c] else if prio c = h then top_clients prio cs @ [c] else top_clients prio cs)"
proof -
  obtain m where m: "m \<in> set cs" "prio m = h" using assms(2) by auto
  consider "prio c > h" | "prio c = h" | "prio c < h" by linarith
  then show ?thesis
  proof cases
    case 1
    then have "filter (\<lambda>x. (\<forall>d \<in> set cs. prio d \<le> prio x) \<and> prio c \<le> prio x) cs = []"
      using assms(1) by (fastforce simp: filter_empty_conv)
    moreover have "\<forall>d \<in> set cs. prio d \<le> prio c" using 1 assms(1) by force
    ultimately show ?thesis using 1 by (simp add: top_clients_def conj_commute)
  next
    case 2
    then have "filter (\<lambda>x. (\<forall>d \<in> set cs. prio d \<le> prio x) \<and> prio c \<le> prio x) cs = filter (\<lambda>x. \<forall>d \<in> set cs. prio d \<le> prio x) cs"
      using m by (intro filter_cong) auto
    then show ?thesis using 2 assms(1) by (simp add: top_clients_def conj_commute)
  next
    case 3
    then have "filter (\<lambda>x. (\<forall>d \<in> set cs. prio d \<le> prio x) \<and> prio c \<le> prio x) cs = filter (\<lambda>x. \<forall>d \<in> set cs. prio d \<le> prio x) cs"
      using m by (intro filter_cong) force+
    moreover have "\<not> (\<forall>d \<in> set cs. prio d \<le> prio c)" using 3 m by force
    ultimately show ?thesis using 3 by (simp add: top_clients_def conj_commute)
  qed
qed

lemma ready_word_top:
  assumes "cs \<noteq> []" "\<And>d. d \<in> set cs \<Longrightarrow> prio d \<le> h" "h \<in> prio ` set cs"
  shows "ready_word prio tr fds h (top_clients prio cs) = top_clients prio (cs @ map tr fds)"
  using assms
proof (induction fds arbitrary: cs h)
  case (Cons fd fds)
  let ?c = "tr fd"
  obtain m where m: "m \<in> set cs" "prio m = h" using Cons.prems(3) by auto
  then have "m \<in> set (top_clients prio cs)" using Cons.prems(2) by (simp add: top_clients_def)
  then have ne: "top_clients prio cs \<noteq> []" by auto
  define h' where "h' = max h (prio ?c)"
  have "ready_word prio tr (fd # fds) h (top_clients prio cs) = ready_word prio tr fds h' (top_clients prio (cs @ [?c]))"
    using ne top_clients_snoc [of cs prio h ?c] Cons.prems by (simp add: h'_def Let_def max_def)
  also have "\<dots> = top_clients prio ((cs @ [?c]) @ map tr fds)"
    using Cons.prems m by (intro Cons.IH) (auto simp: h'_def max_def image_iff, force+)
  finally show ?case by simp
qed simp

text \<open>
  C38. When the readable descriptors lie in one word of the set, the ready clients are all those of
  the highest priority, in the order of the descriptors.
\<close>

theorem ready_clients_one_word:
  assumes "readable \<subseteq> {i * NFDBITS..<(i + 1) * NFDBITS}" "i < (XFD_SETSIZE + NFDBITS - 1) div NFDBITS"
  shows "ready_clients NFDBITS prio tr readable = top_clients prio (map tr (sorted_list_of_set readable))"
proof -
  let ?w = "\<lambda>j. filter (\<lambda>fd. fd \<in> readable) [j * NFDBITS..<(j + 1) * NFDBITS]"
  have other: "?w j = []" if "j \<noteq> i" for j
  proof -
    have "fd \<notin> readable" if "fd \<in> {j * NFDBITS..<(j + 1) * NFDBITS}" for fd
    proof
      assume "fd \<in> readable"
      then have "fd \<in> {i * NFDBITS..<(i + 1) * NFDBITS}" using assms(1) by blast
      then have "fd div NFDBITS = i" by (auto intro: div_nat_eqI simp: mult.commute)
      moreover have "fd div NFDBITS = j" using that by (auto intro: div_nat_eqI simp: mult.commute)
      ultimately show False using \<open>j \<noteq> i\<close> by simp
    qed
    then show ?thesis by (auto simp: filter_empty_conv)
  qed
  have skip: "ready_words NFDBITS prio tr readable js out = out" if "i \<notin> set js" for js out
    using that
  proof (induction js arbitrary: out)
    case (Cons j js)
    then have "j \<noteq> i" "i \<notin> set js" by auto
    then show ?case unfolding ready_words.simps other [OF \<open>j \<noteq> i\<close>] ready_word.simps by (intro Cons.IH)
  qed simp
  let ?n = "(XFD_SETSIZE + NFDBITS - 1) div NFDBITS"
  have "[0..<?n] = [0..<i] @ i # [Suc i..<?n]"
    using assms(2) by (metis le_add_diff_inverse less_imp_le_nat upt_add_eq_append upt_conv_Cons zero_le)
  moreover have "ready_words NFDBITS prio tr readable (js @ ks) out =
      ready_words NFDBITS prio tr readable ks (ready_words NFDBITS prio tr readable js out)" for js ks out
    by (induction js arbitrary: out) simp_all
  ultimately have "ready_clients NFDBITS prio tr readable = ready_word prio tr (?w i) 0 []"
    by (simp add: ready_clients_def skip del: upt_Suc)
  also have "?w i = sorted_list_of_set readable"
  proof (rule sorted_distinct_set_unique)
    show "set (?w i) = set (sorted_list_of_set readable)"
      using assms(1) finite_subset [OF assms(1)] by auto
  qed (simp_all add: sorted_wrt_filter del: upt_Suc)
  also have "ready_word prio tr (sorted_list_of_set readable) 0 [] = top_clients prio (map tr (sorted_list_of_set readable))"
  proof (cases "sorted_list_of_set readable")
    case (Cons fd fds)
    have "top_clients prio [tr fd] = [tr fd]" by (simp add: top_clients_def)
    then show ?thesis using ready_word_top [of "[tr fd]" prio "prio (tr fd)" tr fds] Cons by (simp add: Let_def)
  qed (simp add: top_clients_def)
  finally show ?thesis .
qed

theorem ready_clients_one_word_witness:
  "ready_clients 64 (\<lambda>c. if c = 2 then 0 else 5) (\<lambda>fd. fd) {1, 2, 3} = [1, 3]"
proof -
  have "(XFD_SETSIZE + 64 - 1) div 64 = 4" by code_simp
  then show ?thesis
    using ready_clients_one_word [of "{1, 2, 3}" 0 64 "\<lambda>c. if c = 2 then 0 else 5" "\<lambda>fd. fd"]
    by (simp add: top_clients_def)
qed

text \<open>
  With readable descriptors in two words the highest priority is forgotten in between: a client of
  the second word with a priority above 0 drives out all clients of the first, however high theirs.
\<close>

theorem ready_words_forget_priority:
  assumes "out \<noteq> []" "filter (\<lambda>fd. fd \<in> readable) [i * NFDBITS..<(i + 1) * NFDBITS] = [fd]" "0 < prio (tr fd)"
  shows "ready_words NFDBITS prio tr readable [i] out = [tr fd]"
  using assms by (simp add: Let_def del: upt_Suc)

theorem ready_words_forget_priority_witness:
  "ready_words 64 (\<lambda>c. if c = 70 then 1 else 5) (\<lambda>fd. fd) {3, 70} [1] [3] = [70]"
proof -
  have "filter (\<lambda>fd. fd \<in> {3, 70}) [1 * 64..<(1 + 1) * 64] = [70 :: nat]" by code_simp
  then show ?thesis
    using ready_words_forget_priority [of "[3]" "{3, 70}" 1 64 70 "\<lambda>c. if c = 70 then 1 else 5" "\<lambda>fd. fd"] by simp
qed

end
