(* ===== verification/Dispatch.thy ===== *)
theory Dispatch
  imports ServerGrabProofs Scheduler
begin

text \<open>
  The dispatcher, \<^verbatim>\<open>programs/Xserver/dix/dispatch.c\<close>: the table of clients with its two ends
  (\<open>NextAvailableClient\<close>, \<open>CloseDownClient\<close>), the first request of a connection, the vectors of
  handlers, errors, and the loop that reads requests and calls handlers. Handlers and parts of the
  server outside this development are functions on the state, in the record \<open>dispatch_env\<close>.
\<close>

subsection \<open>The state\<close>

datatype ClientState = ClientStateInitial | ClientStateAuthenticating | ClientStateRunning | ClientStateRetained
  | ClientStateGone | ClientStateCheckingSecurity | ClientStateCheckedSecurity

datatype close_mode = DestroyAll | RetainPermanent | RetainTemporary

text \<open>An entry of \<open>clients\<close>: null, a client, or an address whose memory has been freed.\<close>

datatype slot = NullClient | Live | Freed

record dispatch_state =
  server :: server_state
  sched :: sched_state
  clients :: "nat \<Rightarrow> slot"
  closeDownMode :: "nat \<Rightarrow> close_mode"
  clientState :: "nat \<Rightarrow> ClientState"
  errorValue :: "nat \<Rightarrow> XID"
  nClients :: int
  nextFreeClientID :: nat
  currentMaxClients :: nat
  dispatchException :: "8 word"
  dispatchExceptionAtReset :: "8 word"
  ClientStateCallback :: bool
  state_calls :: "(nat \<times> ClientState) list"
  EventCallback :: bool
  event_calls :: "(nat \<times> byte list) list"

definition MAX_CLIENTS :: nat where "MAX_CLIENTS = 256"
definition DE_PRIORITYCHANGE :: "8 word" where "DE_PRIORITYCHANGE = 4"

text \<open>
  What is outside: the handlers that are not modelled, by opcode; minor opcodes of extensions; and
  what \<open>CloseDownClient\<close> does for selections, grabs, fonts and resources. \<open>abandon\<close> are the calls
  before the client is marked as gone, \<open>wake_zombies\<close> those after.
\<close>

record dispatch_env =
  os :: os_env
  handlers :: "byte \<Rightarrow> nat \<Rightarrow> dispatch_state \<Rightarrow> int \<times> dispatch_state"
  swapped_handlers :: "byte \<Rightarrow> nat \<Rightarrow> dispatch_state \<Rightarrow> int \<times> dispatch_state"
  minor_opcode :: "nat \<Rightarrow> dispatch_state \<Rightarrow> CARD16"
  event_swap :: "byte \<Rightarrow> byte list \<Rightarrow> byte list"
  abandon :: "nat \<Rightarrow> dispatch_state \<Rightarrow> dispatch_state"
  free_never_retained :: "nat \<Rightarrow> dispatch_state \<Rightarrow> dispatch_state"
  wake_zombies :: "nat \<Rightarrow> dispatch_state \<Rightarrow> dispatch_state"
  init_resources :: "nat \<Rightarrow> dispatch_state \<Rightarrow> bool \<times> dispatch_state"
  free_resources :: "nat \<Rightarrow> dispatch_state \<Rightarrow> dispatch_state"
  malloc_client :: bool
  maxBigRequestSize :: int

definition at_server :: "(server_state \<Rightarrow> server_state) \<Rightarrow> dispatch_state \<Rightarrow> dispatch_state" where
  "at_server f s = s\<lparr>server := f (server s)\<rparr>"

definition ios :: "dispatch_state \<Rightarrow> io_state" where "ios s = io (conn (server s))"

definition at_ios :: "(io_state \<Rightarrow> io_state) \<Rightarrow> dispatch_state \<Rightarrow> dispatch_state" where
  "at_ios f = at_server (at_conn (at_io f))"

definition client_of :: "nat \<Rightarrow> dispatch_state \<Rightarrow> io_client" where
  "client_of c s = io_clients (ios s) c"

definition set_state :: "nat \<Rightarrow> ClientState \<Rightarrow> dispatch_state \<Rightarrow> dispatch_state" where
  "set_state c st s = at_ios (put_client c (\<lambda>cl. cl\<lparr>clientRunning := (st = ClientStateRunning)\<rparr>))
     (s\<lparr>clientState := (clientState s)(c := st)\<rparr>)"

definition tell_state :: "nat \<Rightarrow> dispatch_state \<Rightarrow> dispatch_state" where
  "tell_state c s = (if ClientStateCallback s then s\<lparr>state_calls := state_calls s @ [(c, clientState s c)]\<rparr> else s)"

subsection \<open>New clients\<close>

definition InitClient :: "nat \<Rightarrow> dispatch_state \<Rightarrow> dispatch_state" where
  "InitClient i s =
     (let now = SmartScheduleTime (sched s);
          s1 = s\<lparr>closeDownMode := (closeDownMode s)(i := if i \<noteq> 0 then DestroyAll else RetainPermanent),
                 sched := put_smart i (\<lambda>_. \<lparr>smart_priority = 0, smart_start_tick = now,
                            smart_stop_tick = now, smart_check_tick = now\<rparr>) (sched s)\<rparr>
      in set_state i ClientStateInitial
           (at_ios (put_client i (\<lambda>cl. cl\<lparr>client_sequence := 0, clientGone := False, noClientException := 0,
              client_swapped := False, big_requests := False, replyBytesRemaining := 0\<rparr>)) s1))"

fun skip_used :: "(nat \<Rightarrow> slot) \<Rightarrow> nat \<Rightarrow> nat \<Rightarrow> nat" where
  "skip_used cl i 0 = i"
| "skip_used cl i (Suc n) = (if cl i \<noteq> NullClient then skip_used cl (i + 1) n else i)"

text \<open>The request that the server puts before the first bytes of a connection, four words long.\<close>

definition fake_request :: "bool \<Rightarrow> byte \<Rightarrow> byte list" where
  "fake_request msb junk = [1, junk] @ (if msb then [0, 4] else [4, 0])"

definition NextAvailableClient :: "dispatch_env \<Rightarrow> dispatch_state \<Rightarrow> nat option \<times> dispatch_state" where
  "NextAvailableClient D s0 =
     (let i = nextFreeClientID s0
      in if i = MAX_CLIENTS then (None, s0)
         else if \<not> malloc_client D then (None, s0\<lparr>clients := (clients s0)(i := NullClient)\<rparr>)
         else
           let s1 = InitClient i (s0\<lparr>clients := (clients s0)(i := Live)\<rparr>);
               (ok, s2) = init_resources D i s1
           in if \<not> ok then (None, s2\<lparr>clients := (clients s2)(i := Freed)\<rparr>)
              else
                let (ok', ios') = InsertFakeRequest (os D) i
                      (fake_request (host_msb (ios s2)) (fresh (os D) 1)) (ios s2);
                    s3 = at_ios (\<lambda>_. ios') s2
                in if \<not> ok' then
                     (let s4 = free_resources D i s3 in (None, s4\<lparr>clients := (clients s4)(i := Freed)\<rparr>))
                   else
                     let s4 = s3\<lparr>currentMaxClients := (if i = currentMaxClients s3 then currentMaxClients s3 + 1
                                                         else currentMaxClients s3)\<rparr>;
                         s5 = s4\<lparr>nextFreeClientID := skip_used (clients s4) (nextFreeClientID s4)
                                                       (MAX_CLIENTS - nextFreeClientID s4)\<rparr>
                     in (Some i, tell_state i s5))"

subsection \<open>Clients that leave\<close>

fun drop_unused :: "(nat \<Rightarrow> slot) \<Rightarrow> nat \<Rightarrow> nat" where
  "drop_unused cl 0 = 0"
| "drop_unused cl (Suc n) = (if cl n = NullClient then drop_unused cl n else Suc n)"

text \<open>The first half of \<open>CloseDownClient\<close>, for a client that is not yet gone.\<close>

definition leave_server :: "dispatch_env \<Rightarrow> bool \<Rightarrow> nat \<Rightarrow> dispatch_state \<Rightarrow> dispatch_state option" where
  "leave_server D really_close_down c s0 =
     (let s1 = abandon D c (at_server (leave_grab c) s0);
          s2 = (if really_close_down then s1
                else tell_state c (set_state c ClientStateRetained (free_never_retained D c s1)));
          s3 = wake_zombies D c (at_ios (put_client c (\<lambda>cl. cl\<lparr>clientGone := True\<rparr>)) s2)
      in case CloseDownConnection (os D) c (conn (server s3)) of
           None \<Rightarrow> None
         | Some cn \<Rightarrow>
             let s4 = at_server (at_conn (\<lambda>_. cn)) s3
             in Some (if clientState s4 c \<noteq> ClientStateInitial \<and> clientState s4 c \<noteq> ClientStateAuthenticating
                      then s4\<lparr>nClients := nClients s4 - 1\<rparr> else s4))"

definition destroy_client :: "dispatch_env \<Rightarrow> nat \<Rightarrow> dispatch_state \<Rightarrow> dispatch_state" where
  "destroy_client D c s0 =
     (let s1 = (if clientState s0 c = ClientStateRunning \<and> nClients s0 = 0
                then s0\<lparr>dispatchException := dispatchException s0 OR dispatchExceptionAtReset s0\<rparr> else s0);
          s2 = free_resources D c (tell_state c (set_state c ClientStateGone s1));
          s3 = s2\<lparr>nextFreeClientID := min c (nextFreeClientID s2), clients := (clients s2)(c := NullClient),
                  sched := (sched s2)\<lparr>SmartLastClient := None\<rparr>\<rparr>
      in s3\<lparr>currentMaxClients := drop_unused (clients s3) (currentMaxClients s3)\<rparr>)"

definition CloseDownClient :: "dispatch_env \<Rightarrow> nat \<Rightarrow> dispatch_state \<Rightarrow> dispatch_state option" where
  "CloseDownClient D c s0 =
     (let gone = clientGone (client_of c s0); really_close_down = (gone \<or> closeDownMode s0 c = DestroyAll)
      in case (if gone then Some s0 else leave_server D really_close_down c s0) of
           None \<Rightarrow> None
         | Some s \<Rightarrow> Some (if really_close_down then destroy_client D c s else s))"

fun close_each :: "dispatch_env \<Rightarrow> (nat \<Rightarrow> dispatch_state \<Rightarrow> bool) \<Rightarrow> (nat \<Rightarrow> dispatch_state \<Rightarrow> dispatch_state) \<Rightarrow>
    nat list \<Rightarrow> dispatch_state \<Rightarrow> dispatch_state option" where
  "close_each D P f [] s = Some s"
| "close_each D P f (i # is) s =
     (if i < currentMaxClients s \<and> clients s i \<noteq> NullClient \<and> P i s
      then (case CloseDownClient D i (f i s) of None \<Rightarrow> None | Some s' \<Rightarrow> close_each D P f is s')
      else close_each D P f is s)"

definition KillAllClients :: "dispatch_env \<Rightarrow> dispatch_state \<Rightarrow> dispatch_state option" where
  "KillAllClients D s = close_each D (\<lambda>i s. True)
     (\<lambda>i s. s\<lparr>closeDownMode := (closeDownMode s)(i := DestroyAll)\<rparr>) [1..<currentMaxClients s] s"

definition CloseDownRetainedResources :: "dispatch_env \<Rightarrow> dispatch_state \<Rightarrow> dispatch_state option" where
  "CloseDownRetainedResources D s = close_each D
     (\<lambda>i s. closeDownMode s i = RetainTemporary \<and> clientGone (client_of i s)) (\<lambda>i s. s) [1..<currentMaxClients s] s"

subsection \<open>The first request of a connection\<close>

definition swap16_at :: "nat \<Rightarrow> byte list \<Rightarrow> byte list" where
  "swap16_at i b = b[i := b ! (i + 1), i + 1 := b ! i]"

definition card16_bytes :: "bool \<Rightarrow> CARD16 \<Rightarrow> byte list" where
  "card16_bytes msb x = (let l = [ucast x, ucast (drop_bit 8 x)] in if msb then rev l else l)"

definition SwapConnClientPrefix :: "nat \<Rightarrow> byte list \<Rightarrow> byte list" where
  "SwapConnClientPrefix p b = swap16_at (p + 8) (swap16_at (p + 6) (swap16_at (p + 4) (swap16_at (p + 2) b)))"

text \<open>The words taken by \<open>n\<close> bytes of authorisation data.\<close>

definition auth_words :: "CARD16 \<Rightarrow> CARD16" where
  "auth_words n = ucast (drop_bit 2 (ucast n + 3 :: CARD32))"

text \<open>
  The client says in which byte order it speaks and how long its authorisation data are. The fake
  request, at \<open>p\<close>, becomes the second one of the setup, with the length of all of it.
\<close>

definition setup_request :: "bool \<Rightarrow> bool \<Rightarrow> nat \<Rightarrow> byte list \<Rightarrow> byte list" where
  "setup_request msb other p b0 =
     (let b1 = (if other then SwapConnClientPrefix (p + 4) b0 else b0);
          b2 = b1[p := 2];
          len = card16 msb b2 (p + 2) + (auth_words (card16 msb b2 (p + 10)) + auth_words (card16 msb b2 (p + 12)));
          b3 = write_at b2 (p + 2) (card16_bytes msb len)
      in if other then swap16_at (p + 2) b3 else b3)"

definition ProcInitialConnection :: "nat \<Rightarrow> io_state \<Rightarrow> int \<times> io_state" where
  "ProcInitialConnection c s = (case oc_input (osPrivate s c) of None \<Rightarrow> (noClientException (io_clients s c), s)
     | Some oci \<Rightarrow>
         let p = requestBuffer (io_clients s c); byteOrder = buffer oci ! (p + 4); big = (byteOrder = 0x42)
         in if byteOrder \<noteq> 0x6c \<and> \<not> big then (- 1, put_client c (\<lambda>cl. cl\<lparr>noClientException := - 1\<rparr>) s)
            else
              let s1 = (if host_msb s \<noteq> big then put_client c (\<lambda>cl. cl\<lparr>client_swapped := True\<rparr>) s else s);
                  swp = client_swapped (io_clients s1 c);
                  b = setup_request (host_msb s) swp p (buffer oci);
                  s2 = put_input c (Some (oci\<lparr>buffer := b\<rparr>)) s1
              in (noClientException (io_clients s2 c), ResetCurrentRequest c s2))"

subsection \<open>Handlers\<close>

definition lift :: "(nat \<Rightarrow> server_state \<Rightarrow> int \<times> server_state) \<Rightarrow> nat \<Rightarrow> dispatch_state \<Rightarrow> int \<times> dispatch_state" where
  "lift f c s = (let (r, sv) = f c (server s) in (r, s\<lparr>server := sv\<rparr>))"

definition X_GrabServer :: byte where "X_GrabServer = 36"
definition X_UngrabServer :: byte where "X_UngrabServer = 37"
definition X_NoOperation :: byte where "X_NoOperation = 127"

definition no_request :: "byte \<Rightarrow> bool" where "no_request major \<longleftrightarrow> major = 0 \<or> 120 \<le> major \<and> major \<le> 126"

definition ProcVector :: "dispatch_env \<Rightarrow> byte \<Rightarrow> nat \<Rightarrow> dispatch_state \<Rightarrow> int \<times> dispatch_state" where
  "ProcVector D major =
     (if major = X_GrabServer then lift ProcGrabServer else if major = X_UngrabServer then lift ProcUngrabServer
      else if major = X_NoOperation then lift ProcNoOperation else if no_request major then lift ProcBadRequest
      else handlers D major)"

definition SwappedProcVector :: "dispatch_env \<Rightarrow> byte \<Rightarrow> nat \<Rightarrow> dispatch_state \<Rightarrow> int \<times> dispatch_state" where
  "SwappedProcVector D major =
     (if major = X_GrabServer \<or> major = X_UngrabServer \<or> major = X_NoOperation
      then (\<lambda>c s. ProcVector D major c (at_ios (swap_length c) s))
      else if no_request major then lift ProcBadRequest else swapped_handlers D major)"

text \<open>A client that is not yet running has the vector of the connection setup.\<close>

definition requestVector :: "dispatch_env \<Rightarrow> nat \<Rightarrow> byte \<Rightarrow> nat \<Rightarrow> dispatch_state \<Rightarrow> int \<times> dispatch_state" where
  "requestVector D c0 major c s =
     (if \<not> clientRunning (client_of c0 s)
      then (if major = 1 then (let (r, i) = ProcInitialConnection c (ios s) in (r, at_ios (\<lambda>_. i) s))
            else handlers D major c s)
      else if client_swapped (client_of c0 s) then SwappedProcVector D major c s
      else ProcVector D major c s)"

definition MAJOROP :: "nat \<Rightarrow> dispatch_state \<Rightarrow> byte" where
  "MAJOROP c s = (case oc_input (osPrivate (ios s) c) of None \<Rightarrow> 0
     | Some oci \<Rightarrow> buffer oci ! requestBuffer (client_of c s))"

subsection \<open>Errors\<close>

text \<open>The bytes that the code leaves unset are those the stack happens to hold.\<close>

definition xError :: "os_env \<Rightarrow> bool \<Rightarrow> byte \<Rightarrow> CARD16 \<Rightarrow> CARD32 \<Rightarrow> CARD16 \<Rightarrow> byte \<Rightarrow> byte list" where
  "xError E msb errorCode sequenceNumber resourceID minorCode majorCode =
     [0, errorCode] @ card16_bytes msb sequenceNumber @ card32_bytes msb resourceID @ card16_bytes msb minorCode @
     [majorCode] @ map (fresh E) [11..<32]"

definition SErrorEvent :: "os_env \<Rightarrow> byte list \<Rightarrow> byte list" where
  "SErrorEvent E from = [0, from ! 1, from ! 3, from ! 2, from ! 7, from ! 6, from ! 5, from ! 4, from ! 9, from ! 8,
     from ! 10] @ map (fresh E) [11..<32]"

definition EventSwapVector :: "dispatch_env \<Rightarrow> byte \<Rightarrow> byte list \<Rightarrow> byte list" where
  "EventSwapVector D t = (if t AND 0x7f = 0 then SErrorEvent (os D) else event_swap D (t AND 0x7f))"

text \<open>\<open>None\<close> when a write does not return. The result of a write is not looked at.\<close>

definition write_ios :: "dispatch_env \<Rightarrow> nat \<Rightarrow> byte list \<Rightarrow> dispatch_state \<Rightarrow> dispatch_state option" where
  "write_ios D c buf s = (case WriteToClient (os D) c buf (ios s) of None \<Rightarrow> None
     | Some (_, i) \<Rightarrow> Some (at_ios (\<lambda>_. i) s))"

fun write_swapped :: "dispatch_env \<Rightarrow> nat \<Rightarrow> byte list list \<Rightarrow> dispatch_state \<Rightarrow> dispatch_state option" where
  "write_swapped D c [] s = Some s"
| "write_swapped D c (e # es) s = (case write_ios D c (EventSwapVector D (e ! 0) e) s of None \<Rightarrow> None
     | Some s' \<Rightarrow> write_swapped D c es s')"

definition WriteEventsToClient :: "dispatch_env \<Rightarrow> nat \<Rightarrow> byte list list \<Rightarrow> dispatch_state \<Rightarrow> dispatch_state option" where
  "WriteEventsToClient D c events s0 =
     (let s = (if EventCallback s0 then s0\<lparr>event_calls := event_calls s0 @ [(c, concat events)]\<rparr> else s0)
      in if client_swapped (client_of c s) then write_swapped D c events s
         else write_ios D c (concat events) s)"

definition SendErrorToClient ::
  "dispatch_env \<Rightarrow> nat \<Rightarrow> byte \<Rightarrow> CARD16 \<Rightarrow> XID \<Rightarrow> int \<Rightarrow> dispatch_state \<Rightarrow> dispatch_state option" where
  "SendErrorToClient D c majorCode minorCode resId errorCode s =
     WriteEventsToClient D c
       [xError (os D) (host_msb (ios s)) (of_int errorCode) (of_nat (client_sequence (client_of c s)))
          resId minorCode majorCode] s"

subsection \<open>The loop\<close>

text \<open>
  What the outside world does before one request of a client is served: the time of the scheduler,
  input events with what processing them does, the answers of the kernel, the flush callbacks.
\<close>

record turn_env =
  tick :: int
  device_input :: "(dispatch_state \<Rightarrow> dispatch_state) option"
  turn_os :: os_env
  flush_callbacks :: "io_state \<Rightarrow> io_state"

definition with_os :: "dispatch_env \<Rightarrow> turn_env \<Rightarrow> dispatch_env" where
  "with_os D t = D\<lparr>os := turn_os t\<rparr>"

definition handle_input :: "turn_env \<Rightarrow> dispatch_state \<Rightarrow> dispatch_state option" where
  "handle_input t s = (case device_input t of None \<Rightarrow> Some s
     | Some f \<Rightarrow> (case FlushIfCriticalOutputPending (turn_os t) (flush_callbacks t) (ios (f s)) of
           None \<Rightarrow> None | Some i \<Rightarrow> Some (at_ios (\<lambda>_. i) (f s))))"

definition answer :: "dispatch_env \<Rightarrow> nat \<Rightarrow> int \<times> dispatch_state \<Rightarrow> (bool \<times> dispatch_state) option" where
  "answer D c = (\<lambda>(result, s).
     if result = Success_code then Some (True, s)
     else map_option (Pair False)
       (if noClientException (client_of c s) \<noteq> Success_code then CloseDownClient D c s
        else SendErrorToClient D c (MAJOROP c s) (minor_opcode D c s) (errorValue s c) result s))"

text \<open>One request of client \<open>c\<close>; the flag says whether the loop goes on.\<close>

definition serve_request ::
  "dispatch_env \<Rightarrow> nat \<Rightarrow> dispatch_state \<Rightarrow> (bool \<times> dispatch_state) option" where
  "serve_request D c s0 =
     (let (result, i) = ReadRequestFromClient (os D) c (ios s0); s1 = at_ios (\<lambda>_. i) s0
      in if result \<le> 0 then
           map_option (Pair False) (if result < 0 then CloseDownClient D c s1 else Some s1)
         else
           let s = at_ios (put_client c (\<lambda>cl. cl\<lparr>client_sequence := client_sequence cl + 1\<rparr>)) s1
           in answer D c (if result > maxBigRequestSize D * 4 then (BadLength_code, s)
                          else requestVector D c (MAJOROP c s) c s))"

definition serve_once :: "dispatch_env \<Rightarrow> int \<Rightarrow> nat \<Rightarrow> turn_env \<Rightarrow> dispatch_state \<Rightarrow> (bool \<times> dispatch_state) option" where
  "serve_once D start_tick c t s0 = (case handle_input t (s0\<lparr>sched := (sched s0)\<lparr>SmartScheduleTime := tick t\<rparr>\<rparr>) of
       None \<Rightarrow> None
     | Some s \<Rightarrow>
         if \<not> SmartScheduleDisable (ios s) \<and> slice_used start_tick (sched s)
         then Some (False, s\<lparr>sched := penalize c (sched s)\<rparr>)
         else serve_request (with_os D t) c s)"

text \<open>The loop over the requests of one client, as far as the given sequence of events goes.\<close>

fun serve_client :: "dispatch_env \<Rightarrow> int \<Rightarrow> nat \<Rightarrow> turn_env list \<Rightarrow> dispatch_state \<Rightarrow> dispatch_state option" where
  "serve_client D start_tick c [] s = Some s"
| "serve_client D start_tick c (t # ts) s =
     (if isItTimeToYield (ios s) then Some s
      else case serve_once D start_tick c t s of None \<Rightarrow> None
        | Some (go, s') \<Rightarrow> if go then serve_client D start_tick c ts s' else Some s')"

text \<open>One client of the list of ready ones; the flag says whether the others have their turn, too.\<close>

definition client_turn :: "dispatch_env \<Rightarrow> turn_env \<Rightarrow> nat \<Rightarrow> turn_env list \<Rightarrow> dispatch_state \<Rightarrow> (bool \<times> dispatch_state) option" where
  "client_turn D t0 c ts s0 =
     (if clients s0 c = NullClient then Some (True, s0)
      else if grabState (server s0) = GrabKickout
      then Some (False, at_server (\<lambda>sv. sv\<lparr>grabState := GrabActive\<rparr>) s0)
      else
        case serve_client D (SmartScheduleTime (sched s0)) c ts (at_ios (\<lambda>i. i\<lparr>isItTimeToYield := False\<rparr>) s0) of
          None \<Rightarrow> None
        | Some s1 \<Rightarrow> (case FlushAllOutput (turn_os t0) (flush_callbacks t0) (ios s1) of None \<Rightarrow> None
            | Some i \<Rightarrow>
                let s2 = at_ios (\<lambda>_. i) s1
                in Some (True, if clients s2 c \<noteq> NullClient
                     then s2\<lparr>sched := put_smart c (\<lambda>p. p\<lparr>smart_stop_tick := SmartScheduleTime (sched s2)\<rparr>) (sched s2)\<rparr>
                     else s2)))"

text \<open>The ready clients, from the last to the first, each with its sequence of events.\<close>

fun serve_ready :: "dispatch_env \<Rightarrow> turn_env \<Rightarrow> (nat \<times> turn_env list) list \<Rightarrow> dispatch_state \<Rightarrow> dispatch_state option" where
  "serve_ready D t0 [] s = Some s"
| "serve_ready D t0 ((c, ts) # cs) s =
     (if dispatchException s \<noteq> 0 then Some s
      else case client_turn D t0 c ts s of None \<Rightarrow> None
        | Some (go, s') \<Rightarrow> if go then serve_ready D t0 cs s' else Some s')"

text \<open>
  One round of \<open>Dispatch\<close>: \<open>clientReady\<close> is what \<open>WaitForSomething\<close> returns, \<open>events c\<close> the sequence of
  events while client \<open>c\<close> is served.
\<close>

definition dispatch_round ::
  "dispatch_env \<Rightarrow> turn_env \<Rightarrow> nat list \<Rightarrow> (nat \<Rightarrow> turn_env list) \<Rightarrow> dispatch_state \<Rightarrow> dispatch_state option" where
  "dispatch_round D t0 clientReady events s0 = (case handle_input t0 s0 of None \<Rightarrow> None
     | Some s \<Rightarrow>
         let (chosen, s1) = (if clientReady \<noteq> [] \<and> \<not> SmartScheduleDisable (ios s)
                             then (let (best, sc) = SmartScheduleClient clientReady (sched s) in ([best], s\<lparr>sched := sc\<rparr>))
                             else (clientReady, s))
         in map_option (\<lambda>s. s\<lparr>dispatchException := dispatchException s AND NOT DE_PRIORITYCHANGE\<rparr>)
              (serve_ready D t0 (rev (map (\<lambda>c. (c, events c)) chosen)) s1))"

text \<open>
  \<open>Dispatch\<close>, as far as the given sequence of rounds goes; the flag says whether it has ended. Its
  first lines set the table of clients and selections to their initial values.
\<close>

fun dispatch_loop ::
  "dispatch_env \<Rightarrow> (turn_env \<times> nat list \<times> (nat \<Rightarrow> turn_env list)) list \<Rightarrow> dispatch_state \<Rightarrow> (bool \<times> dispatch_state) option" where
  "dispatch_loop D rs s =
     (if dispatchException s \<noteq> 0
      then map_option (\<lambda>s'. (True, s'\<lparr>dispatchException := dispatchException s' AND NOT 1\<rparr>)) (KillAllClients D s)
      else case rs of [] \<Rightarrow> Some (False, s)
        | (t, clientReady, events) # rs' \<Rightarrow>
            (case dispatch_round D t clientReady events s of None \<Rightarrow> None | Some s' \<Rightarrow> dispatch_loop D rs' s'))"

end
