(* ===== verification/DispatchProofs.thy ===== *)
theory DispatchProofs
  imports Dispatch
begin

text \<open>
  The dispatcher: the error a client is sent, the numbering of its requests, the numbers of clients,
  and the first request of a connection.
\<close>

subsection \<open>Errors\<close>

lemma ios_sel [simp]:
  "ios (at_ios f s) = f (ios s)" "ios (s\<lparr>event_calls := e\<rparr>) = ios s" "ios (s\<lparr>sched := x\<rparr>) = ios s"
  "ios (s\<lparr>clients := cl\<rparr>) = ios s" "ios (s\<lparr>dispatchException := d\<rparr>) = ios s"
  by (simp_all add: ios_def at_ios_def at_server_def)

lemma length_card16_bytes [simp]: "length (card16_bytes msb x) = 2"
  by (simp add: card16_bytes_def Let_def)

lemma card16_of_bytes: "card16 msb (card16_bytes msb x) 0 = x"
proof (rule bit_word_eqI)
  fix n assume "n < LENGTH(16)"
  then consider "n < 8" | "8 \<le> n" "n < 16" by (simp, linarith)
  then show "bit (card16 msb (card16_bytes msb x) 0) n \<longleftrightarrow> bit x n"
    by cases (auto simp: card16_def card16_bytes_def bit_simps)
qed

lemma card16_bytes_at: "card16 msb (p @ card16_bytes msb x @ r) (length p) = x"
proof -
  have "card16 msb (p @ card16_bytes msb x @ r) (length p) = card16 msb (card16_bytes msb x) 0"
    by (rule card16_cong) (simp_all add: nth_append)
  then show ?thesis by (simp add: card16_of_bytes)
qed

text \<open>What an error on the wire says, in the byte order \<open>m\<close> of the client.\<close>

definition error_says :: "bool \<Rightarrow> byte list \<Rightarrow> byte \<Rightarrow> CARD16 \<Rightarrow> CARD32 \<Rightarrow> CARD16 \<Rightarrow> byte \<Rightarrow> bool" where
  "error_says m e code seq resId minor major \<longleftrightarrow> length e = 32 \<and> e ! 0 = 0 \<and> e ! 1 = code \<and>
     card16 m e 2 = seq \<and> card32 m e 4 = resId \<and> card16 m e 8 = minor \<and> e ! 10 = major"

lemma xError_says: "error_says m (xError E m code seq resId minor major) code seq resId minor major"
proof -
  let ?e = "xError E m code seq resId minor major"
  let ?t = "map (fresh E) [11..<32]"
  have e: "?e = [0, code] @ card16_bytes m seq @ card32_bytes m resId @ card16_bytes m minor @ [major] @ ?t"
    by (simp add: xError_def)
  have "card16 m ?e (length [0, code]) = seq"
    unfolding e by (rule card16_bytes_at)
  moreover have "card32 m ?e (length ([0, code] @ card16_bytes m seq)) = resId"
    unfolding e using card32_bytes_card32 [of m "[0, code] @ card16_bytes m seq" resId] by simp
  moreover have "card16 m ?e (length ([0, code] @ card16_bytes m seq @ card32_bytes m resId)) = minor"
    unfolding e using card16_bytes_at [of m "[0, code] @ card16_bytes m seq @ card32_bytes m resId" minor] by simp
  moreover have "?e ! 10 = major"
    by (simp add: e nth_append)
  moreover have "length ?e = 32" "?e ! 0 = 0" "?e ! 1 = code" by (simp_all add: e)
  ultimately show ?thesis by (simp add: error_says_def eval_nat_numeral)
qed

lemma SErrorEvent_says:
  assumes "error_says m e code seq resId minor major"
  shows "error_says (\<not> m) (SErrorEvent E e) code seq resId minor major"
proof -
  have c16: "card16 (\<not> m) b i = card16 m b' j" if "b ! i = b' ! Suc j" "b ! Suc i = b' ! j" for b b' :: "byte list" and i j
    using that by (simp add: card16_def)
  have "length e = 32" using assms by (simp add: error_says_def)
  have "card16 (\<not> m) (SErrorEvent E e) 2 = card16 m e 2" "card16 (\<not> m) (SErrorEvent E e) 8 = card16 m e 8"
    by (rule c16; simp add: SErrorEvent_def)+
  moreover have "card32 (\<not> m) (SErrorEvent E e) 4 = card32 m e 4"
    by (simp add: card32_def card16_def SErrorEvent_def)
  ultimately show ?thesis using assms by (simp add: error_says_def) (simp add: SErrorEvent_def)
qed


definition dispatch_example :: dispatch_state where
  "dispatch_example = \<lparr>server = idle_example\<lparr>conn := conn_example\<lparr>io := out_example\<rparr>\<rparr>, sched = sched_example,
     clients = (\<lambda>c. if c \<le> 2 then Live else NullClient), closeDownMode = (\<lambda>_. DestroyAll),
     clientState = (\<lambda>_. ClientStateRunning), errorValue = (\<lambda>_. 0), nClients = 2, nextFreeClientID = 3,
     currentMaxClients = 3, dispatchException = 0, dispatchExceptionAtReset = 1, ClientStateCallback = False,
     state_calls = [], EventCallback = False, event_calls = []\<rparr>"

text \<open>A server that knows the modelled requests only.\<close>

definition core_requests :: "os_env \<Rightarrow> dispatch_env" where
  "core_requests E = \<lparr>os = E, handlers = (\<lambda>_. lift ProcBadRequest), swapped_handlers = (\<lambda>_. lift ProcBadRequest),
     minor_opcode = (\<lambda>_ _. 0), event_swap = (\<lambda>_ e. e), abandon = (\<lambda>_ s. s), free_never_retained = (\<lambda>_ s. s),
     wake_zombies = (\<lambda>_ s. s), init_resources = (\<lambda>_ s. (True, s)), free_resources = (\<lambda>_ s. s), malloc_client = True,
     maxBigRequestSize = 1048575\<rparr>"

lemma env_example_writes: "writev_ok env_example"
  by (simp add: writev_ok_def env_example_def)


subsection \<open>The numbers of requests\<close>

text \<open>What a handler that succeeds leaves alone, unless it stops the loop.\<close>

definition keeps_stream :: "nat \<Rightarrow> dispatch_state \<Rightarrow> dispatch_state \<Rightarrow> bool" where
  "keeps_stream c s s' \<longleftrightarrow> (io_wf (ios s) \<longrightarrow> io_wf (ios s')) \<and> pending (ios s') c = pending (ios s) c \<and>
     host_msb (ios s') = host_msb (ios s) \<and> trans_conn (osPrivate (ios s') c) = trans_conn (osPrivate (ios s) c) \<and>
     client_swapped (client_of c s') = client_swapped (client_of c s) \<and>
     big_requests (client_of c s') = big_requests (client_of c s) \<and>
     clientRunning (client_of c s') = clientRunning (client_of c s) \<and>
     client_sequence (client_of c s') = client_sequence (client_of c s)"

definition turn_quiet :: "nat \<Rightarrow> turn_env \<Rightarrow> bool" where
  "turn_quiet c t \<longleftrightarrow> good_env (turn_os t) \<and> (\<forall>s s'. handle_input t s = Some s' \<longrightarrow> keeps_stream c s s')"

text \<open>
  The requests handed to handlers while \<open>serve_client\<close> runs, each with the number the client has
  then, and the bytes received.
\<close>

fun serve_log :: "dispatch_env \<Rightarrow> int \<Rightarrow> nat \<Rightarrow> turn_env list \<Rightarrow> dispatch_state \<Rightarrow> (nat \<times> byte list) list \<times> byte list" where
  "serve_log D start_tick c [] s = ([], [])"
| "serve_log D start_tick c (t # ts) s0 =
     (if isItTimeToYield (ios s0) then ([], [])
      else case handle_input t (s0\<lparr>sched := (sched s0)\<lparr>SmartScheduleTime := tick t\<rparr>\<rparr>) of None \<Rightarrow> ([], [])
        | Some s \<Rightarrow>
          if \<not> SmartScheduleDisable (ios s) \<and> slice_used start_tick (sched s) then ([], [])
          else
            let (r, i) = ReadRequestFromClient (turn_os t) c (ios s); d = bytes_read (turn_os t) c (ios s);
                entry = (client_sequence (io_clients i c) + 1, the (current_request i c))
            in if r < 0 then ([], []) else if r = 0 then ([], d)
               else (case serve_once D start_tick c t s0 of
                       Some (True, s') \<Rightarrow> (let (l, e) = serve_log D start_tick c ts s' in (entry # l, d @ e))
                     | _ \<Rightarrow> ([entry], d)))"

lemma serve_log_yield: "isItTimeToYield (ios s) \<Longrightarrow> serve_log D st c ts s = ([], [])"
  by (cases ts) simp_all

lemma serve_log_no_input:
  "handle_input t (s0\<lparr>sched := (sched s0)\<lparr>SmartScheduleTime := tick t\<rparr>\<rparr>) = None \<Longrightarrow> serve_log D st c (t # ts) s0 = ([], [])"
  by simp

text \<open>One more request.\<close>

lemma frames_handed:
  assumes "frames m b q = (r # fst (frames m b q1), snd (frames m b q1))"
  shows "frames m b (q @ e) = (r # fst (frames m b (q1 @ e)), snd (frames m b (q1 @ e)))"
  using assms frames_append [of m b q e] frames_append [of m b q1 e] by simp

lemma ReadRequest_client:
  assumes "ReadRequestFromClient E c s = (r, s')"
  shows "client_sequence (io_clients s' c') = client_sequence (io_clients s c')"
    "clientRunning (io_clients s' c') = clientRunning (io_clients s c')"
    "trans_conn (osPrivate s' c') = trans_conn (osPrivate s c')"
    "msb_client s' c' = msb_client s c'" "big_client s' c' = big_client s c'" "host_msb s' = host_msb s"
  using fun_cong [OF ReadRequest_static [OF assms], of c'] by (simp_all add: static_def)

locale quiet_handlers =
  fixes D :: dispatch_env and c :: nat
  assumes quiet: "clientRunning (client_of c s) \<Longrightarrow> \<not> client_swapped (client_of c s) \<Longrightarrow>
    requestVector (with_os D t) c major c s = (Success_code, s') \<Longrightarrow> isItTimeToYield (ios s') \<or> keeps_stream c s s'"
begin

lemma serve_once_goes_on:
  assumes "serve_once D st c t s0 = Some (True, s')"
    and "handle_input t (s0\<lparr>sched := (sched s0)\<lparr>SmartScheduleTime := tick t\<rparr>\<rparr>) = Some s"
    and "ReadRequestFromClient (turn_os t) c (ios s) = (r, i)" "clientRunning (io_clients i c)" "\<not> client_swapped (io_clients i c)"
  shows "isItTimeToYield (ios s') \<or>
    keeps_stream c (at_ios (put_client c (\<lambda>cl. cl\<lparr>client_sequence := client_sequence cl + 1\<rparr>)) (at_ios (\<lambda>_. i) s)) s'"
proof -
  let ?s = "at_ios (put_client c (\<lambda>cl. cl\<lparr>client_sequence := client_sequence cl + 1\<rparr>)) (at_ios (\<lambda>_. i) s)"
  have "serve_request (with_os D t) c s = Some (True, s')"
    using assms(1,2) by (auto simp: serve_once_def split: if_splits)
  then have "answer (with_os D t) c (if r > maxBigRequestSize (with_os D t) * 4 then (BadLength_code, ?s)
      else requestVector (with_os D t) c (MAJOROP c ?s) c ?s) = Some (True, s')"
    using assms(3) by (auto simp: serve_request_def with_os_def Let_def split: if_splits)
  then have "requestVector (with_os D t) c (MAJOROP c ?s) c ?s = (Success_code, s')"
    by (auto simp: answer_def BadLength_code_def Success_code_def split: if_splits prod.splits)
  moreover have "clientRunning (client_of c ?s)" "\<not> client_swapped (client_of c ?s)"
    using assms(4,5) by (simp_all add: client_of_def)
  ultimately show ?thesis using quiet by blast
qed

text \<open>The requests handed out are the first ones of the stream, with consecutive numbers.\<close>

lemma serve_log_stream:
  assumes "\<forall>t \<in> set ts. turn_quiet c t" "io_wf (ios s)" "trans_conn (osPrivate (ios s) c)"
    and "clientRunning (client_of c s)" "msb_client (ios s) c = host_msb (ios s)"
    and "serve_log D st c ts s = (l, e)"
    and "stream_ok (msb_client (ios s) c) (big_client (ios s) c) (pending (ios s) c @ e)"
  shows "map fst l = [client_sequence (client_of c s) + 1..<client_sequence (client_of c s) + 1 + length l] \<and>
    (\<exists>rest. fst (frames (msb_client (ios s) c) (big_client (ios s) c) (pending (ios s) c @ e)) = map snd l @ rest)"
  using assms
proof (induction ts arbitrary: s l e)
  case Nil
  then show ?case by simp
next
  case (Cons t ts s0)
  let ?m = "msb_client (ios s0) c" and ?b = "big_client (ios s0) c"
  let ?s0 = "s0\<lparr>sched := (sched s0)\<lparr>SmartScheduleTime := tick t\<rparr>\<rparr>"
  show ?case
  proof (cases "isItTimeToYield (ios s0) \<or> handle_input t ?s0 = None")
    case True
    then have "serve_log D st c (t # ts) s0 = ([], [])" using serve_log_yield serve_log_no_input by blast
    with Cons.prems(6) show ?thesis by simp
  next
    case False
    then obtain s where H: "handle_input t ?s0 = Some s" and ny: "\<not> isItTimeToYield (ios s0)" by auto
    have "keeps_stream c ?s0 s" using Cons.prems(1) H by (simp add: turn_quiet_def)
    then have k: "io_wf (ios s)" "pending (ios s) c = pending (ios s0) c" "trans_conn (osPrivate (ios s) c)"
      "clientRunning (client_of c s)" "msb_client (ios s) c = ?m" "big_client (ios s) c = ?b" "host_msb (ios s) = host_msb (ios s0)"
      "client_sequence (client_of c s) = client_sequence (client_of c s0)"
      using Cons.prems(2-4) by (simp_all add: keeps_stream_def client_of_def msb_client_def big_client_def)
    show ?thesis
    proof (cases "\<not> SmartScheduleDisable (ios s) \<and> slice_used st (sched s)")
      case True
      with Cons.prems(6) ny H show ?thesis by simp
    next
      case go: False
      obtain r i where R: "ReadRequestFromClient (turn_os t) c (ios s) = (r, i)"
        by (cases "ReadRequestFromClient (turn_os t) c (ios s)")
      let ?d = "bytes_read (turn_os t) c (ios s)" and ?q = "pending (ios s0) c"
      note ri = ReadRequest_client [OF R]
      show ?thesis
      proof (cases "r \<le> 0")
        case True
        with Cons.prems(6) ny H R go show ?thesis by (auto simp: Let_def split: if_splits)
      next
        case pos: False
        let ?entry = "(client_sequence (client_of c s0) + 1, the (current_request i c))"
        have env: "good_env (turn_os t)" using Cons.prems(1) by (simp add: turn_quiet_def)
        define rec where "rec = (case serve_once D st c t s0 of Some (True, s') \<Rightarrow> serve_log D st c ts s' | _ \<Rightarrow> ([], []))"
        have log: "l = ?entry # fst rec" "e = ?d @ snd rec"
          using Cons.prems(6) ny H R go pos ri(1) [of c] k(8)
          by (auto simp: rec_def Let_def client_of_def split: option.splits prod.splits bool.splits)
        have ok: "stream_ok ?m ?b ((?q @ ?d) @ snd rec)" using Cons.prems(7) log(2) by simp
        then have okq: "stream_ok ?m ?b (?q @ ?d)" by (rule stream_ok_prefix)
        have iwf: "io_wf i" using ReadRequest_others [OF k(1), of "turn_os t" c] R env by (simp add: others_def good_env_def)
        have F: "frames ?m ?b (?q @ ?d) = (the (current_request i c) # fst (frames ?m ?b (pending i c)), snd (frames ?m ?b (pending i c)))"
          using call_frames [OF k(1,3) env R] pos okq k(2,5,6) by (simp add: stream_ok_def)
        note F' = frames_handed [OF F, of "snd rec"]
        show ?thesis
        proof (cases "\<exists>s'. serve_once D st c t s0 = Some (True, s') \<and> \<not> isItTimeToYield (ios s')")
          case False
          then have "rec = ([], [])"
            by (auto simp: rec_def serve_log_yield split: option.splits bool.splits)
          then show ?thesis using F log by simp
        next
          case True
          then obtain s' where S: "serve_once D st c t s0 = Some (True, s')" "\<not> isItTimeToYield (ios s')" by blast
          have "\<not> client_swapped (io_clients i c)"
            using ri(4) [of c] Cons.prems(5) k(5,7) ri(6) by (auto simp: msb_client_def)
          then have K: "keeps_stream c (at_ios (put_client c (\<lambda>cl. cl\<lparr>client_sequence := client_sequence cl + 1\<rparr>)) (at_ios (\<lambda>_. i) s)) s'"
            using serve_once_goes_on [OF S(1) H R] S(2) ri(2) [of c] k(4) by (simp add: client_of_def)
          then have k': "io_wf (ios s')" "pending (ios s') c = pending i c" "trans_conn (osPrivate (ios s') c)"
            "clientRunning (client_of c s')" "msb_client (ios s') c = ?m" "big_client (ios s') c = ?b"
            "host_msb (ios s') = host_msb i" "client_sequence (client_of c s') = client_sequence (client_of c s0) + 1"
            using iwf ri k by (simp_all add: keeps_stream_def client_of_def msb_client_def big_client_def same_input_wf [OF same_input_intros(7)]
                same_input_pending [OF same_input_intros(7)])
          have rec: "serve_log D st c ts s' = (fst rec, snd rec)" by (simp add: rec_def S(1))
          have "snd (frames ?m ?b (?q @ ?d @ snd rec)) = snd (frames ?m ?b (pending i c @ snd rec))" using F' by simp
          then have ok': "stream_ok ?m ?b (pending i c @ snd rec)" using ok by (simp add: stream_ok_def)
          have m': "msb_client (ios s') c = host_msb (ios s')"
            using Cons.prems(5) k'(5,7) k(7) ri(6) by simp
          have IH: "map fst (fst rec) = [client_sequence (client_of c s0) + 2..<client_sequence (client_of c s0) + 2 + length (fst rec)]"
            "\<exists>rest. fst (frames ?m ?b (pending i c @ snd rec)) = map snd (fst rec) @ rest"
            using Cons.IH [OF _ k'(1,3,4) m' rec] Cons.prems(1) ok' k' by simp_all
          then show ?thesis using F' log by (auto simp: upt_conv_Cons)
        qed
      qed
    qed
  qed
qed

end

text \<open>The modelled requests leave the stream alone, or make the client wait.\<close>

lemma keeps_stream_masks:
  assumes "same_input (ios s) (ios s')" "io_clients (ios s') = io_clients (ios s)" "host_msb (ios s') = host_msb (ios s)"
  shows "keeps_stream c s s'"
  using assms same_input_wf [OF assms(1)] same_input_pending [OF assms(1), of c]
  by (simp add: keeps_stream_def client_of_def) (simp add: same_input_def)

lemma ios_lift: "lift f c s = (r, s') \<Longrightarrow> \<exists>sv. f c (server s) = (r, sv) \<and> ios s' = io (conn sv) \<and> s' = s\<lparr>server := sv\<rparr>"
  by (auto simp: lift_def ios_def split: prod.splits)

lemma ProcGrabServer_quiet:
  assumes "lift ProcGrabServer c s = (Success_code, s')"
  shows "isItTimeToYield (ios s') \<or> keeps_stream c s s'"
proof -
  obtain sv where sv: "ProcGrabServer c (server s) = (Success_code, sv)" "ios s' = io (conn sv)"
    using ios_lift [OF assms] by blast
  show ?thesis
  proof (cases "grabState (server s) \<noteq> GrabNone \<and> grabClient (server s) \<noteq> Some c")
    case True
    then have "sv = wait_for_grab c (server s)"
      using sv(1) by (auto simp: ProcGrabServer_def BadLength_code_def Success_code_def split: if_splits)
    then have "isItTimeToYield (ios s')" by (simp add: sv(2) wait_for_grab_conn IgnoreClient_def Let_def set_listening_def)
    then show ?thesis ..
  next
    case False
    then have "io (conn sv) = io (OnlyListenToOneClient c (conn (server s)))"
      using sv(1) by (auto simp: ProcGrabServer_def BadLength_code_def Success_code_def Let_def split: if_splits)
    then have e: "ios s' = io (OnlyListenToOneClient c (conn (server s)))" using sv(2) by simp
    have "keeps_stream c s s'"
      using masks_same_input(5) [of "conn (server s)" c]
      by (intro keeps_stream_masks; simp only: e) (simp_all add: ios_def)
    then show ?thesis ..
  qed
qed

lemma ProcUngrabServer_quiet:
  assumes "lift ProcUngrabServer c s = (Success_code, s')"
  shows "keeps_stream c s s'"
proof -
  obtain sv where sv: "ProcUngrabServer c (server s) = (Success_code, sv)" "ios s' = io (conn sv)"
    using ios_lift [OF assms] by blast
  then have "sv = UngrabServer c (server s)"
    by (auto simp: ProcUngrabServer_def BadLength_code_def Success_code_def split: if_splits)
  with sv(2) have e: "ios s' = io (conn (UngrabServer c (server s)))" by simp
  have k: "same_input (io (conn (server s))) (io (conn (UngrabServer c (server s)))) \<and>
      io_clients (io (conn (UngrabServer c (server s)))) = io_clients (io (conn (server s))) \<and>
      host_msb (io (conn (UngrabServer c (server s)))) = host_msb (io (conn (server s)))"
    by (auto simp: UngrabServer_def op_defs same_input_def at_conn_def split: option.splits)
  show ?thesis
    by (intro keeps_stream_masks; simp only: e) (use k in \<open>simp_all add: ios_def\<close>)
qed

lemma core_quiet:
  assumes "clientRunning (client_of c s)" "\<not> client_swapped (client_of c s)"
    and "requestVector (with_os (core_requests E) t) c major c s = (Success_code, s')"
  shows "isItTimeToYield (ios s') \<or> keeps_stream c s s'"
proof -
  have V: "ProcVector (with_os (core_requests E) t) major c s = (Success_code, s')"
    using assms by (simp add: requestVector_def)
  have bad: "lift ProcBadRequest c s \<noteq> (Success_code, s')"
    by (simp add: lift_def ProcBadRequest_def BadRequest_code_def Success_code_def)
  have noop: "keeps_stream c s s'" if N: "lift ProcNoOperation c s = (Success_code, s')"
  proof -
    obtain sv where "ProcNoOperation c (server s) = (Success_code, sv)" "ios s' = io (conn sv)"
      using ios_lift [OF N] by blast
    then have "ios s' = ios s"
      by (auto simp: ProcNoOperation_def BadLength_code_def Success_code_def ios_def split: if_splits)
    then show ?thesis by (intro keeps_stream_masks) (simp_all add: same_input_intros)
  qed
  show ?thesis
    using V bad noop ProcGrabServer_quiet [of c s s'] ProcUngrabServer_quiet [of c s s']
    by (auto simp: ProcVector_def with_os_def core_requests_def split: if_splits)
qed

interpretation core: quiet_handlers "core_requests E" c for E c
  by unfold_locales (rule core_quiet)


definition turn_example :: turn_env where
  "turn_example = \<lparr>tick = 0, device_input = None, turn_os = env_example, flush_callbacks = (\<lambda>i. i)\<rparr>"

definition noop_example :: dispatch_state where
  "noop_example = dispatch_example\<lparr>server := idle_example\<lparr>conn := conn_example\<lparr>io := io_example\<rparr>\<rparr>\<rparr>"

lemma noop_example_sel [simp]: "ios noop_example = io_example" "client_of c noop_example = io_clients io_example c"
  "SmartScheduleSlice (sched noop_example) = 20"
  by (simp_all add: noop_example_def ios_def client_of_def dispatch_example_def sched_example_def)

lemma turn_example_quiet: "turn_quiet c turn_example"
  using env_example_good(1)
  by (auto simp: turn_quiet_def turn_example_def handle_input_def keeps_stream_masks same_input_intros)


end
