(* ===== verification/Spec2Isabelle.thy ===== *)
theory Spec2Isabelle
  imports Prelude Atoms RegionClip GrabDeletion PropertyProofs RecordSetProofs EventQueue RequestReplay DispatchProofs
begin

text \<open>
  Verification of the device-independent core of the X server (\<^verbatim>\<open>source/programs/Xserver\<close>).

  \<^bold>\<open>The program.\<close> A server process owns the screens, keyboard and pointer and answers the requests
  of its clients. Everything a client can name has a 32-bit id kept in the resource database; names
  are interned as atoms; windows carry properties; what is drawn and what is exposed is computed
  with regions of pixels; input arrives from signal handlers through a ring buffer and meets the
  passive grabs of windows; the RECORD extension filters protocol elements with sets of numbers.
  Requests are cut out of the byte stream of each connection and replies buffered until it takes
  them. The dispatcher waits for connections with input, chooses a client, reads its requests,
  numbers them and calls their handlers; one client at a time can grab the server and stop the
  others. This development models these parts; they meet in the request handlers, which look up
  ids, check atoms, change windows and send events.

  \<^bold>\<open>Theories and the code they model\<close> (paths below \<^verbatim>\<open>source/programs/Xserver\<close>):

  \<^item> \<open>Prelude\<close>: the collections of hints (\<open>wf_defs\<close>, \<open>abs_defs\<close>), list, option and word lemmas.
  \<^item> \<open>Atoms\<close>, \<^verbatim>\<open>dix/atom.c\<close> and \<^verbatim>\<open>dix/initatoms.c\<close>: the binary tree of atoms ordered by
    fingerprint and name, and the table from atoms to names. State \<open>atom_state\<close>.
  \<^item> \<open>Bands\<close>, \<open>RegionOp\<close>, \<open>Regions\<close>, \<^verbatim>\<open>mi/miregion.c\<close> with \<^verbatim>\<open>include/regionstr.h\<close>: boxes, the overlap procedures on
    one band (\<open>miUnionO\<close>, \<open>miIntersectO\<close>, \<open>miSubtractO\<close>), \<open>miCoalesce\<close>, the sweep over bands
    \<open>miRegionOp\<close>, and the operations on a store of regions indexed by addresses.
  \<^item> \<open>QuickSort\<close>, \<open>RegionValidate\<close>, \<open>RegionClip\<close>, same file: the two quick sorts, \<open>miRegionAppend\<close>, \<open>miRegionValidate\<close>,
    \<open>miRectsToRegion\<close>, \<open>miTranslateRegion\<close>, \<open>miClipSpans\<close>, \<open>miFindMaxBand\<close>.
  \<^item> \<open>Resources\<close>, \<open>ResourceProofs\<close>, \<^verbatim>\<open>dix/resource.c\<close> and \<open>FlushClientCaches\<close> of \<^verbatim>\<open>dix/dispatch.c\<close>: the hash table of each
    client, ids as 32-bit words, resource types. State \<open>dix_state\<close>.
  \<^item> \<open>Properties\<close>, \<open>PropertyProofs\<close>, \<^verbatim>\<open>dix/property.c\<close>: the property requests as handlers from a state to a
    status and a state, with all their early returns. State \<open>prop_state\<close>.
  \<^item> \<open>Grabs\<close>, \<open>GrabProofs\<close>, \<open>GrabDeletion\<close>, \<^verbatim>\<open>dix/grabs.c\<close>: the passive grabs of windows with their masks
    of exceptions, on the resource database. State \<open>grab_state\<close>.
  \<^item> \<open>OsBuffers\<close>, \<open>RequestInput\<close>, \<open>ClientOutput\<close>, \<^verbatim>\<open>os/io.c\<close> with \<^verbatim>\<open>os/osdep.h\<close>: the buffers of the
    connections, the reading, faking, resetting and skipping of requests, the writing and flushing
    of replies. State \<open>io_state\<close>; the answers of the kernel are the record \<open>os_env\<close>.
    \<open>RequestStream\<close> is the specification (how a stream of bytes divides into requests) with the
    invariant; \<open>RequestProofs\<close>, \<open>RequestRuns\<close>, \<open>RequestReplay\<close> and \<open>OutputProofs\<close> hold the lemmas.
  \<^item> \<open>Connections\<close>, \<open>ConnectionProofs\<close>, \<^verbatim>\<open>os/connection.c\<close>: the masks of connections the server listens to,
    grabs and ignored clients, connections that begin and end, on the buffers of \<^verbatim>\<open>os/io.c\<close>. State
    \<open>conn_state\<close>.
  \<^item> \<open>ServerGrab\<close>, \<open>ServerGrabProofs\<close>, \<^verbatim>\<open>dix/dispatch.c\<close>: the requests to grab and ungrab the server with the
    clients that wait for it, on the connections. State \<open>server_state\<close>.
  \<^item> \<open>Scheduler\<close>, \<^verbatim>\<open>dix/dispatch.c\<close> and \<^verbatim>\<open>os/WaitFor.c\<close>: the choice of the ready clients and of the one among
    them that is served. State \<open>sched_state\<close>.
  \<^item> \<open>Dispatch\<close>, \<open>DispatchProofs\<close>, \<^verbatim>\<open>dix/dispatch.c\<close> with \<open>WriteEventsToClient\<close> of \<^verbatim>\<open>dix/events.c\<close>: the table of clients,
    the first request of a connection, errors, and the loop \<open>Dispatch\<close> itself. State
    \<open>dispatch_state\<close>; handlers that are not modelled are fields of \<open>dispatch_env\<close>, and what happens
    between two requests (input, clock, answers of the kernel) is a \<open>turn_env\<close>.
  \<^item> \<open>RecordSets\<close>, \<open>RecordSetProofs\<close>, \<^verbatim>\<open>record/set.c\<close>: sets of numbers as bit vectors or interval lists behind one
    interface, and the test that uses them in \<^verbatim>\<open>record/record.c\<close>.
  \<^item> \<open>EventQueue\<close>, \<^verbatim>\<open>mi/mieq.c\<close>: the ring buffer between the signal handlers and the main loop, with the
    interleavings of producer and consumer as an inductive relation.

  \<^bold>\<open>How code becomes definitions.\<close> Structures are records; linked lists, arrays and buckets are
  lists; trees are datatypes; a function is a function from the state to its result and the new
  state; ids, times, masks and offsets are machine words where the code relies on their width.
  A failing allocation is an argument of the operation, and a fatal error or a read outside an
  array is the result \<open>None\<close> or a hypothesis that it does not happen. Procedures that the code
  reaches through a pointer (overlap functions, delete functions of resources, comparison of the
  quick sort, the operations of a RECORD set) are arguments of the definitions or fixed by a
  locale: \<open>band_operation\<close> (interpreted for union, intersection and difference), \<open>sort_order\<close>
  (rectangles and spans) and \<open>record_set\<close> (both representations and their tagged union). What the
  dispatcher needs of request handlers is the locale \<open>quiet_handlers\<close>, interpreted for the modelled
  ones.

  \<^bold>\<open>What the lemmas show.\<close>

  \<^item> Regions: \<open>region_pts\<close> maps a region to its set of points and \<open>region_wf\<close> says that its boxes form
    bands, in order, disjoint and with tight extents. Every operation keeps \<open>region_wf\<close> and computes
    the set operation it is named after, for any aliasing of its arguments. Validation turns any
    list of boxes into such a region.
  \<^item> Atoms: the tree and the table refine a list of distinct names; interning, looking up and
    failing do to the list what they should.
  \<^item> Resources: \<open>db_wf\<close> says that every chain holds ids of its bucket; the abstraction \<open>entries\<close>
    gives the stack of resources under an id. Adding pushes on one stack, whether or not the table
    is rebuilt; freeing empties a stack and ends although delete functions may free more; the
    procedures that hand out ids only hand out unused ones.
  \<^item> Properties: a change refines replacing, prepending or appending in a map from names to typed
    values; a read returns the slice asked for; failed requests change no property.
  \<^item> Grabs: \<open>covers\<close> says which pairs of key and modifiers a grab stands for. Grabs of different
    clients stay disjoint, an event finds the grabs that cover it, and deleting takes out exactly
    the pairs of the minuend or, when memory runs out, changes nothing.
  \<^item> Requests: \<open>pending\<close> are the bytes a client has sent and not been served, \<open>framing\<close> divides them as
    the protocol does. One call hands out the first request or keeps all bytes; over a run with any
    interleaving of clients (\<open>io_run\<close>) the requests handed out are those of the stream received
    (\<open>frames\<close>). Fake requests come first and reset ones again. The lengths for which the code
    departs from this (\<open>Malformed\<close>) are described exactly.
  \<^item> Output: what a client has been sent, followed by what is buffered for it (\<open>out_stream\<close>), grows by
    what is written, however the transport splits it.
  \<^item> Connections: the masks refine a specification of three sets and a holder (\<open>listening\<close>); for
    any sequence of operations nothing that waits is forgotten. Grabs: at most one client holds
    the server, and one that has to wait gets its request handed out again when it is woken.
  \<^item> Dispatcher: the requests handed to handlers are those of the byte stream with consecutive
    numbers; a failing one is answered with one error; the scheduler respects priorities and
    nobody at the highest one waits for ever.
  \<^item> RECORD sets: both representations answer membership and iteration as the union of the
    intervals they were made from.
  \<^item> Event queue: however the two sides interleave, events come out in the order in which they went
    in and the consumer never reads an empty slot.

  \<^bold>\<open>Bounds and fuel.\<close> Recursive definitions carry a termination proof wherever the loop of the code ends;
  the loops over chains that delete functions may change are \<open>partial_function (option)\<close>, and
  \<open>FreeResource\<close> and \<open>FreeClientResources\<close> are proved to return for delete functions that only
  remove resources. \<open>mieqProcessInputEvents\<close> takes a number of steps; four for each waiting event
  and one more are proved to be enough. The loop around \<open>writev\<close> is a \<open>partial_function (option)\<close>
  and is proved to return when every call that succeeds takes at least one byte. The loops of the
  dispatcher, which end with the server only, are recursions over a given sequence of events; the
  theorems hold for all sequences.

  \<^bold>\<open>Not modelled.\<close> Coordinates of regions are integers, except where a translation stores them in
  16 bits; sizes of blocks are natural numbers (a size that would overflow an \<open>int\<close> fails the
  length check of its request first); memory is unbounded apart from the failures above. The
  builds with LBX, debugging output or WIN32 are left out. Buffers of connections are values, so that
  no block belongs to two owners is part of the model and not a theorem about it. The callbacks
  on events, client states and server grabs are recorded in the state, not run. Other request
  handlers, the filters of XKB and Panoramix in \<open>WriteEventsToClient\<close>, the answer to the setup of a
  connection,
  event delivery and active grabs, the window tree, colours,
  graphics contexts, fonts and cursors, the rest of the operating system layer, the rendering code of \<^verbatim>\<open>mi\<close>,
  \<^verbatim>\<open>fb\<close> and \<^verbatim>\<open>cfb\<close>, the other extensions, the drivers, the client libraries and the programs are
  not modelled; the first four are the next parts of the plan.
\<close>

end
